(* ===== verification/Prelude.thy ===== *)
theory Prelude
  imports Main "HOL-Library.Word"
begin

text \<open>
  What every component of the development shares: machine words, the two ways the kernel stops
  (\<^verbatim>\<open>abort\<close> and a failed \<^verbatim>\<open>assert\<close>), the result type of code that may stop, and the
  arithmetic facts about 64-bit words that do not wrap around.
\<close>

unbundle bit_operations_syntax

section \<open>Machine integers\<close>

type_synonym u8 = "8 word"
type_synonym u16 = "16 word"
type_synonym u32 = "32 word"
type_synonym u64 = "64 word"

named_theorems word_nat \<open>words without wrap-around as natural numbers\<close>

section \<open>Stopping\<close>

text \<open>
  \<^verbatim>\<open>nx::abort\<close> and \<^verbatim>\<open>nx::assert_fail\<close> are declared \<^verbatim>\<open>[[noreturn]]\<close>: the call that reaches
  them has no result. \<open>Fault\<close> is a memory access the processor refuses (a null or unmapped
  pointer), \<open>OutOfBounds\<close> an access outside the object it belongs to.
\<close>

datatype kerror = Abort string | AssertFail string | Fault u64 | OutOfBounds

type_synonym 'a res = "kerror + 'a"

fun bindE :: "'a res \<Rightarrow> ('a \<Rightarrow> 'b res) \<Rightarrow> 'b res" where
  "bindE (Inl e) f = Inl e"
| "bindE (Inr x) f = f x"

definition assertE :: "bool \<Rightarrow> string \<Rightarrow> unit res" where
  "assertE b msg = (if b then Inr () else Inl (AssertFail msg))"

lemma bindE_Inr_iff [simp]: "bindE m f = Inr y \<longleftrightarrow> (\<exists>x. m = Inr x \<and> f x = Inr y)"
  by (cases m) auto

lemma bindE_Inl_iff: "bindE m f = Inl e \<longleftrightarrow> m = Inl e \<or> (\<exists>x. m = Inr x \<and> f x = Inl e)"
  by (cases m) auto

lemma assertE_Inr_iff [simp]: "assertE b msg = Inr u \<longleftrightarrow> b"
  by (simp add: assertE_def)

lemma assertE_simps [simp]: "assertE True msg = Inr ()" "assertE False msg = Inl (AssertFail msg)"
  by (simp_all add: assertE_def)

lemma bindE_assoc: "bindE (bindE m f) g = bindE m (\<lambda>x. bindE (f x) g)"
  by (cases m) auto

section \<open>Words that do not wrap around\<close>

lemma unat_u64_lt: "unat (a::u64) < 2 ^ 64"
  using unsigned_less [of a] by simp

lemma unat_add_nowrap [word_nat]: "unat a + unat b < 2 ^ 64 \<Longrightarrow> unat (a + b :: u64) = unat a + unat b"
  by (subst unat_add_lem [symmetric]) simp

lemma unat_sub_nowrap [word_nat]: "unat b \<le> unat a \<Longrightarrow> unat (a - b :: u64) = unat a - unat b"
  by (simp add: unat_sub word_le_nat_alt)

lemma unat_mul_nowrap [word_nat]: "unat a * unat b < 2 ^ 64 \<Longrightarrow> unat (a * b :: u64) = unat a * unat b"
  by (subst unat_mult_lem [symmetric]) simp

lemma u64_eq_unat: "(a :: u64) = b \<longleftrightarrow> unat a = unat b"
  by (rule word_unat_eq_iff)

text \<open>A loop over a list whose body may fail.\<close>

fun foldE :: "('a \<Rightarrow> 's \<Rightarrow> 's res) \<Rightarrow> 'a list \<Rightarrow> 's \<Rightarrow> 's res" where
  "foldE f [] s = Inr s"
| "foldE f (x # xs) s = bindE (f x s) (foldE f xs)"

lemma foldE_append: "foldE f (xs @ ys) s = bindE (foldE f xs s) (foldE f ys)"
proof (induction xs arbitrary: s)
  case (Cons x xs)
  show ?case by (cases "f x s") (simp_all add: Cons.IH)
qed simp

lemma foldE_inv:
  assumes "\<And>x s. x \<in> set xs \<Longrightarrow> P s \<Longrightarrow> \<exists>s'. f x s = Inr s' \<and> P s'" and "P s"
  shows "\<exists>s'. foldE f xs s = Inr s' \<and> P s'"
  using assms
proof (induction xs arbitrary: s)
  case (Cons x xs)
  then obtain s1 where "f x s = Inr s1" "P s1" by (meson list.set_intros(1))
  moreover from Cons.IH [OF Cons.prems(1) this(2)] obtain s2 where "foldE f xs s1 = Inr s2" "P s2" by auto
  ultimately show ?case by simp
qed simp

text \<open>The result of a loop that does not end within the bound its model is given.\<close>

definition loop_error :: kerror where
  "loop_error = Abort ''endless loop''"

end
