(* ===== verification/Addr.thy ===== *)
theory Addr
  imports Prelude
begin

text \<open>
  Addresses and pages: \<^verbatim>\<open>kernel/include/defs.h\<close>, \<^verbatim>\<open>kernel/include/misc/addrs.h\<close> and
  \<^verbatim>\<open>SIZE_IN_PAGES\<close> of \<^verbatim>\<open>kernel/include/mm.h\<close>. The strong typedefs \<^verbatim>\<open>PhysAddr\<close> and
  \<^verbatim>\<open>VirtAddr\<close> wrap one \<^verbatim>\<open>addr_t\<close>; they are 64-bit words here, and their operators are the
  operators of words.
\<close>

section \<open>Constants and types\<close>

type_synonym PhysAddr = u64
type_synonym VirtAddr = u64

definition PAGE_SIZE :: u64 where
  "PAGE_SIZE = 0x1000"

datatype AddressSpaceType = Kernel | KernelHeap | User

definition NumAddressSpaces :: nat where
  "NumAddressSpaces = 3"

definition PAGE_PRESENT :: u64 where
  "PAGE_PRESENT = 0x1"

definition PAGE_WRITE :: u64 where
  "PAGE_WRITE = 0x2"

definition PAGE_USER :: u64 where
  "PAGE_USER = 0x4"

definition PAGE_COPY_ON_WRITE :: u64 where
  "PAGE_COPY_ON_WRITE = 0x200"

definition PAGE_NX :: u64 where
  "PAGE_NX = 0x8000000000000000"

definition ALIGN_BITS :: nat where
  "ALIGN_BITS = 12"

section \<open>Alignment\<close>

definition PAGE_ALIGN :: "u64 \<Rightarrow> u64" where
  "PAGE_ALIGN a =
     (if a AND 0x4000000000000000 \<noteq> 0 then a AND 0xFFFFFFFFFFFFF000
      else a AND 0x7FFFFFFFFFFFF000)"

definition isPageAligned :: "u64 \<Rightarrow> bool" where
  "isPageAligned a \<longleftrightarrow> a = a AND NOT 0xFFF"

definition ofsPages :: "u64 \<Rightarrow> u64" where
  "ofsPages pages = pages * PAGE_SIZE"

definition nonZero :: "u64 \<Rightarrow> bool" where
  "nonZero a \<longleftrightarrow> a \<noteq> 0"

definition isAlignedTo :: "u64 \<Rightarrow> u64 \<Rightarrow> bool" where
  "isAlignedTo a alignment \<longleftrightarrow> a AND (alignment - 1) = 0"

definition SIZE_IN_PAGES :: "u64 \<Rightarrow> u64" where
  "SIZE_IN_PAGES bytes = (bytes + (PAGE_SIZE - 1)) div PAGE_SIZE"

text \<open>The address space layout of \<^verbatim>\<open>kernel/include/misc/addrs.h\<close>.\<close>

definition USER_ADDRSPACE_BASE :: u64 where
  "USER_ADDRSPACE_BASE = 0x0000000000400000"

definition USER_FRAMEBUFFER :: u64 where
  "USER_FRAMEBUFFER = 0x000000FF00000000"

definition USER_ADDRSPACE_END :: u64 where
  "USER_ADDRSPACE_END = 0x00007FFFFFFF8000"

definition USER_KERNEL_STUBS :: u64 where
  "USER_KERNEL_STUBS = 0x00007FFFFFFF8000"

definition EFI_RUNTIME_SERVICES_BASE :: u64 where
  "EFI_RUNTIME_SERVICES_BASE = 0xFFFF800000000000"

definition KERNEL_HEAP_BASE :: u64 where
  "KERNEL_HEAP_BASE = 0xFFFFFF8000000000"

definition KERNEL_HEAP_END :: u64 where
  "KERNEL_HEAP_END = 0xFFFFFFFF00000000"

definition KERNEL_FRAMEBUFFER :: u64 where
  "KERNEL_FRAMEBUFFER = 0xFFFFFFFF00000000"

definition KERNEL_VMM_ADDRSPACE_BASE :: u64 where
  "KERNEL_VMM_ADDRSPACE_BASE = 0xFFFFFFFF80000000"

definition KERNEL_VMM_ADDRSPACE_END :: u64 where
  "KERNEL_VMM_ADDRSPACE_END = 0xFFFFFFFFF7F00000"

definition PMM_STACK_BASE :: u64 where
  "PMM_STACK_BASE = 0xFFFFFFFFF7F00000"

definition PMM_STACK_END :: u64 where
  "PMM_STACK_END = 0xFFFFFFFFF7F10000"

definition KERN_VMM_STACK0_BOOTSTRAP :: u64 where
  "KERN_VMM_STACK0_BOOTSTRAP = 0xFFFFFFFFF7F10000"

definition KERN_VMM_STACK1_BOOTSTRAP :: u64 where
  "KERN_VMM_STACK1_BOOTSTRAP = 0xFFFFFFFFF7F11000"

definition KERN_VMM_STACK2_BOOTSTRAP :: u64 where
  "KERN_VMM_STACK2_BOOTSTRAP = 0xFFFFFFFFF7F12000"

definition KERNEL_ENTRY :: u64 where
  "KERNEL_ENTRY = 0xFFFFFFFFF8000000"

section \<open>Page arithmetic\<close>

lemma mask12: "(0xFFF::u64) = mask 12"
  by (simp add: mask_eq_exp_minus_1)

lemma isPageAligned_bits: "isPageAligned a \<longleftrightarrow> (\<forall>n<12. \<not> bit a n)"
proof
  assume "isPageAligned a"
  then have "bit a n = bit (a AND NOT (mask 12)) n" for n
    unfolding isPageAligned_def mask12 by simp
  then show "\<forall>n<12. \<not> bit a n"
    by (auto simp: bit_simps)
next
  assume "\<forall>n<12. \<not> bit a n"
  then show "isPageAligned a"
    unfolding isPageAligned_def mask12 by (auto intro!: bit_word_eqI simp: bit_simps)
qed

lemma isPageAligned_take_bit: "isPageAligned a \<longleftrightarrow> take_bit 12 a = 0"
  unfolding isPageAligned_bits by (auto simp: bit_eq_iff bit_take_bit_iff dest: bit_imp_le_length)

lemma isPageAligned_unat: "isPageAligned a \<longleftrightarrow> unat a mod 4096 = 0"
proof -
  have "take_bit 12 a = 0 \<longleftrightarrow> unat (take_bit 12 a) = 0" by (simp only: unat_eq_zero)
  also have "unat (take_bit 12 a) = take_bit 12 (unat a)"
    by (rule unsigned_take_bit_eq)
  finally show ?thesis by (simp add: isPageAligned_take_bit take_bit_eq_mod)
qed

lemma isPageAligned_ofsPages [simp]: "isPageAligned (ofsPages n)"
proof -
  have "ofsPages n = push_bit 12 n" by (simp add: ofsPages_def PAGE_SIZE_def push_bit_eq_mult mult.commute)
  thus ?thesis by (simp add: isPageAligned_bits bit_simps)
qed

lemma isPageAligned_dvd: "isPageAligned a \<longleftrightarrow> 4096 dvd unat a"
  by (simp add: isPageAligned_unat dvd_eq_mod_eq_0)

lemma isPageAligned_add [intro]:
  assumes "isPageAligned a" and "isPageAligned b"
  shows "isPageAligned (a + b)"
proof -
  have "(4096::nat) dvd 2 ^ 64" by simp
  with assms show ?thesis
    by (simp add: isPageAligned_dvd unat_word_ariths dvd_mod)
qed

lemma isPageAligned_diff [intro]:
  assumes "isPageAligned a" and "isPageAligned b"
  shows "isPageAligned (a - b)"
proof -
  have d: "(4096::nat) dvd 2 ^ 64" by simp
  have "unat a = (unat (a - b) + unat b) mod 2 ^ 64"
    using unat_word_ariths(1) [of "a - b" b] by simp
  with d assms(1) have "4096 dvd unat (a - b) + unat b"
    by (simp add: isPageAligned_dvd dvd_mod_iff)
  with assms(2) show ?thesis
    by (simp add: isPageAligned_dvd dvd_add_left_iff)
qed

lemma PAGE_ALIGN_mask: "(0xFFFFFFFFFFFFF000 :: u64) = NOT (mask 12)" "(0x7FFFFFFFFFFFF000::u64) = NOT (mask 12) AND mask 63" "(0x4000000000000000::u64) = 2 ^ 62"
  by (simp_all add: mask_eq_exp_minus_1)

lemma PAGE_ALIGN_bit: "bit (PAGE_ALIGN a) n \<longleftrightarrow> bit a n \<and> 12 \<le> n \<and> (n = 63 \<longrightarrow> bit a 62)"
proof -
  have 1: "n < 64" if "bit a n" using bit_imp_le_length [OF that] by simp
  have 2: "a AND 2 ^ 62 \<noteq> 0 \<longleftrightarrow> bit a 62" by (simp only: and_exp_eq_0_iff_not_bit not_not)
  have 3: "PAGE_ALIGN a = (if bit a 62 then a AND NOT (mask 12) else a AND (NOT (mask 12) AND mask 63))"
    unfolding PAGE_ALIGN_def PAGE_ALIGN_mask 2 ..
  have "n < 63 \<longleftrightarrow> n \<noteq> 63" if "bit a n" using 1 [OF that] by linarith
  then show ?thesis unfolding 3 by (auto simp: bit_simps dest: 1)
qed
lemma PAGE_ALIGN_aligned: "isPageAligned (PAGE_ALIGN a)"
  by (simp add: isPageAligned_bits PAGE_ALIGN_bit)

lemma unat_PAGE_SIZE [simp]: "unat PAGE_SIZE = 4096"
  by (simp add: PAGE_SIZE_def)

lemma unat_pages [word_nat]: "unat n * 4096 < 2 ^ 64 \<Longrightarrow> unat (n * PAGE_SIZE) = unat n * 4096"
  using unat_mul_nowrap [of n PAGE_SIZE] by simp

lemma unat_ofsPages [word_nat]: "unat n * 4096 < 2 ^ 64 \<Longrightarrow> unat (ofsPages n) = unat n * 4096"
  by (simp add: ofsPages_def unat_pages)

end
