(* ===== verification/Extmm.thy ===== *)
theory Extmm
  imports Addr "HOL-Library.Multiset"
begin

text \<open>
  The extent allocator \<^verbatim>\<open>extmm::State\<close> of \<^verbatim>\<open>kernel/include/extmm.h\<close>: the free memory of an
  address space as a singly linked list of extents. A list of nodes reached from a head pointer
  is a list here, each element carrying the address of the \<^verbatim>\<open>extent_t\<close> that holds it, so that
  the recycling of nodes (\<^verbatim>\<open>freeHead\<close>, the bootstrap region, \<^verbatim>\<open>extentMemory\<close>) stays visible.
  \<^verbatim>\<open>addExtent\<close> may ask \<^verbatim>\<open>vmm::allocate\<close> for a page of nodes and \<^verbatim>\<open>destroy\<close> gives those pages
  back to \<^verbatim>\<open>vmm::deallocate\<close>; both are arguments (\<open>newpage\<close>, \<open>freepage\<close>) acting on a world
  \<open>'w\<close>. The operations run with the state's lock held, so each is one step.
\<close>

section \<open>State\<close>

record extent =
  e_node :: u64
  e_addr :: u64
  e_size :: u64

record extmm =
  x_head :: "extent list"
  x_freeHead :: "u64 list"
  x_extentMemory :: "u64 list"
  x_numExtents :: u64
  x_owner :: string
  x_bootstrapStart :: u64
  x_bootstrapWatermark :: u64
  x_bootstrapEnd :: u64
  x_owningProc :: u64

definition sizeof_extent :: u64 where
  "sizeof_extent = 24"

definition extmm_init :: "string \<Rightarrow> u64 \<Rightarrow> u64 \<Rightarrow> u64 \<Rightarrow> extmm" where
  "extmm_init owner base limit proc =
     \<lparr>x_head = [], x_freeHead = [], x_extentMemory = [], x_numExtents = 0, x_owner = owner,
      x_bootstrapStart = base, x_bootstrapWatermark = base, x_bootstrapEnd = limit,
      x_owningProc = proc\<rparr>"

section \<open>Operations\<close>

definition ext_end :: "u64 \<Rightarrow> u64 \<Rightarrow> u64" where
  "ext_end base num = base + num * PAGE_SIZE"

definition extent_end :: "extent \<Rightarrow> u64" where
  "extent_end e = e_addr e + e_size e * PAGE_SIZE"

text \<open>
  The nodes a fresh page is cut into. The loop links each node to the one before it, so the list
  that starts at the last node runs downwards through the page.
\<close>

definition page_nodes :: "u64 \<Rightarrow> u64 list" where
  "page_nodes mem =
     map (\<lambda>i. mem + of_nat i * sizeof_extent) (rev [0..<unat (PAGE_SIZE div sizeof_extent)])"

definition push_extent :: "u64 \<Rightarrow> u64 \<Rightarrow> u64 \<Rightarrow> extmm \<Rightarrow> extmm" where
  "push_extent n addr sz st =
     st\<lparr>x_head := \<lparr>e_node = n, e_addr = addr, e_size = sz\<rparr> # x_head st,
        x_numExtents := x_numExtents st + 1\<rparr>"

definition addExtent ::
  "('w \<Rightarrow> (u64 \<times> 'w) res) \<Rightarrow> u64 \<Rightarrow> u64 \<Rightarrow> extmm \<Rightarrow> 'w \<Rightarrow> (extmm \<times> 'w) res" where
  "addExtent newpage addr sz st w =
     (case x_freeHead st of
        n # ns \<Rightarrow> Inr (push_extent n addr sz (st\<lparr>x_freeHead := ns\<rparr>), w)
      | [] \<Rightarrow>
         if x_bootstrapWatermark st + sizeof_extent \<le> x_bootstrapEnd st
         then Inr (push_extent (x_bootstrapWatermark st) addr sz
                     (st\<lparr>x_bootstrapWatermark := x_bootstrapWatermark st + sizeof_extent\<rparr>), w)
         else bindE (newpage w) (\<lambda>(mem, w').
                Inr (push_extent (hd (page_nodes mem)) addr sz
                       (st\<lparr>x_freeHead := tl (page_nodes mem),
                           x_extentMemory := x_extentMemory st @ [mem]\<rparr>), w')))"

text \<open>The search loop of \<^verbatim>\<open>allocate\<close>: first fit, taking pages from the bottom of the extent.\<close>

fun ext_take :: "(u64 \<Rightarrow> u64 \<Rightarrow> bool) \<Rightarrow> u64 \<Rightarrow> extent list \<Rightarrow> (u64 \<times> u64 option \<times> extent list) option"
where
  "ext_take satisfies num [] = None"
| "ext_take satisfies num (e # es) =
     (if num \<le> e_size e \<and> satisfies (e_addr e) num
      then (if e_size e - num = 0 then Some (e_addr e, Some (e_node e), es)
            else Some (e_addr e, None,
                       e\<lparr>e_addr := e_addr e + num * PAGE_SIZE, e_size := e_size e - num\<rparr> # es))
      else map_option (\<lambda>(ret, freed, es'). (ret, freed, e # es')) (ext_take satisfies num es))"

definition extmm_allocate ::
  "u64 \<Rightarrow> (u64 \<Rightarrow> u64 \<Rightarrow> bool) \<Rightarrow> extmm \<Rightarrow> (u64 \<times> extmm) res" where
  "extmm_allocate num satisfies st =
     (if num = 0 then Inl (Abort ''cannot allocate 0 pages'')
      else case ext_take satisfies num (x_head st) of
             None \<Rightarrow> Inr (0, st)
           | Some (ret, freed, es) \<Rightarrow>
               Inr (ret, st\<lparr>x_head := es,
                            x_freeHead := (case freed of None \<Rightarrow> x_freeHead st
                                                       | Some n \<Rightarrow> n # x_freeHead st)\<rparr>))"

text \<open>
  The loop of \<^verbatim>\<open>allocateSpecific\<close>: the list with the containing extent cut down, and the back
  part that needs an extent of its own when the range lies strictly inside.
\<close>

fun ext_carve :: "u64 \<Rightarrow> u64 \<Rightarrow> extent list \<Rightarrow> (extent list \<times> (u64 \<times> u64) option) option" where
  "ext_carve start num [] = None"
| "ext_carve start num (e # es) =
     (if e_addr e \<le> start \<and> ext_end start num \<le> extent_end e
      then (if e_addr e = start
            then Some (e\<lparr>e_addr := e_addr e + num * PAGE_SIZE, e_size := e_size e - num\<rparr> # es, None)
            else if ext_end start num = extent_end e
            then Some (e\<lparr>e_size := e_size e - num\<rparr> # es, None)
            else Some (e\<lparr>e_size := (start - e_addr e) div PAGE_SIZE\<rparr> # es,
                       Some (ext_end start num, (extent_end e - ext_end start num) div PAGE_SIZE)))
      else map_option (\<lambda>(es', back). (e # es', back)) (ext_carve start num es))"

definition extmm_allocateSpecific ::
  "('w \<Rightarrow> (u64 \<times> 'w) res) \<Rightarrow> u64 \<Rightarrow> u64 \<Rightarrow> extmm \<Rightarrow> 'w \<Rightarrow> (u64 \<times> extmm \<times> 'w) res" where
  "extmm_allocateSpecific newpage start num st w =
     (case ext_carve start num (x_head st) of
        None \<Rightarrow> Inr (0, st, w)
      | Some (es, None) \<Rightarrow> Inr (start, st\<lparr>x_head := es\<rparr>, w)
      | Some (es, Some (a, n)) \<Rightarrow>
          bindE (addExtent newpage a n (st\<lparr>x_head := es\<rparr>) w) (\<lambda>(st', w'). Inr (start, st', w')))"

text \<open>
  The loop of \<^verbatim>\<open>deallocate\<close>: \<open>Inl\<close> is the double-free abort, \<open>Inr None\<close> that no extent touches
  the block.
\<close>

fun ext_give :: "u64 \<Rightarrow> u64 \<Rightarrow> extent list \<Rightarrow> extent list option res" where
  "ext_give addr num [] = Inr None"
| "ext_give addr num (e # es) =
     (if ext_end addr num = e_addr e
      then Inr (Some (e\<lparr>e_addr := e_addr e - PAGE_SIZE * num\<rparr> # es))
      else if extent_end e = addr
      then Inr (Some (e\<lparr>e_size := e_size e + num\<rparr> # es))
      else if e_addr e = addr
      then Inl (Abort ''potential double free'')
      else bindE (ext_give addr num es) (\<lambda>r. Inr (map_option (Cons e) r)))"

definition extmm_deallocate ::
  "('w \<Rightarrow> (u64 \<times> 'w) res) \<Rightarrow> u64 \<Rightarrow> u64 \<Rightarrow> extmm \<Rightarrow> 'w \<Rightarrow> (extmm \<times> 'w) res" where
  "extmm_deallocate newpage addr num st w =
     bindE (ext_give addr num (x_head st)) (\<lambda>r.
       case r of Some es \<Rightarrow> Inr (st\<lparr>x_head := es\<rparr>, w)
               | None \<Rightarrow> addExtent newpage addr num st w)"

fun free_pages :: "(u64 \<Rightarrow> 'w \<Rightarrow> 'w res) \<Rightarrow> u64 list \<Rightarrow> 'w \<Rightarrow> 'w res" where
  "free_pages freepage [] w = Inr w"
| "free_pages freepage (m # ms) w = bindE (freepage m w) (free_pages freepage ms)"

definition extmm_destroy :: "(u64 \<Rightarrow> 'w \<Rightarrow> 'w res) \<Rightarrow> extmm \<Rightarrow> 'w \<Rightarrow> (extmm \<times> 'w) res" where
  "extmm_destroy freepage st w =
     bindE (free_pages freepage (x_extentMemory st) w) (\<lambda>w'.
       Inr (st\<lparr>x_head := [], x_freeHead := [], x_numExtents := 0,
               x_bootstrapWatermark := x_bootstrapStart st\<rparr>, w'))"

definition ext_intersects :: "extent \<Rightarrow> extent \<Rightarrow> bool" where
  "ext_intersects a b \<longleftrightarrow>
     (e_addr b \<le> e_addr a \<and> e_addr a < extent_end b) \<or>
     (e_addr a \<le> e_addr b \<and> e_addr b < extent_end a)"

fun ext_consistent :: "extent list \<Rightarrow> bool" where
  "ext_consistent [] = True"
| "ext_consistent (e # es) \<longleftrightarrow>
     \<not> list_ex (ext_intersects e) es \<and> e_size e \<noteq> 0 \<and> ext_consistent es"

definition extmm_checkConsistency :: "extmm \<Rightarrow> bool" where
  "extmm_checkConsistency st = ext_consistent (x_head st)"

section \<open>Free memory as a set of bytes\<close>

definition span :: "u64 \<Rightarrow> u64 \<Rightarrow> nat set" where
  "span a n = {unat a ..< unat a + unat n * 4096}"

definition fits :: "u64 \<Rightarrow> u64 \<Rightarrow> bool" where
  "fits a n \<longleftrightarrow> unat a + unat n * 4096 < 2 ^ 64"

abbreviation espan :: "extent \<Rightarrow> nat set" where
  "espan e \<equiv> span (e_addr e) (e_size e)"

definition ext_free :: "extent list \<Rightarrow> nat set" where
  "ext_free es = (\<Union>e\<in>set es. espan e)"

fun ext_wf :: "extent list \<Rightarrow> bool" where
  "ext_wf [] = True"
| "ext_wf (e # es) \<longleftrightarrow> fits (e_addr e) (e_size e) \<and> espan e \<inter> ext_free es = {} \<and> ext_wf es"

lemma ext_free_simps [simp]:
  "ext_free [] = {}" "ext_free (e # es) = espan e \<union> ext_free es"
  by (simp_all add: ext_free_def)

lemma unat_end: "fits a n \<Longrightarrow> unat (a + n * PAGE_SIZE) = unat a + unat n * 4096"
  by (simp add: fits_def word_nat)

lemma ext_end_nat: "fits a n \<Longrightarrow> unat (ext_end a n) = unat a + unat n * 4096"
  by (simp add: ext_end_def unat_end)

lemma extent_end_nat: "fits (e_addr e) (e_size e) \<Longrightarrow> unat (extent_end e) = unat (e_addr e) + unat (e_size e) * 4096"
  by (simp add: extent_end_def unat_end)

lemma fits_mono: "fits a n \<Longrightarrow> m \<le> n \<Longrightarrow> fits a m"
  by (simp add: fits_def word_le_nat_alt)

lemma span_split:
  assumes "fits a n" and "m \<le> n"
  shows "fits (a + m * PAGE_SIZE) (n - m)"
    and "span (a + m * PAGE_SIZE) (n - m) = span a n - span a m"
    and "span a m \<subseteq> span a n"
proof -
  have "unat m \<le> unat n" using assms(2) by (simp add: word_le_nat_alt)
  moreover have "unat (n - m) = unat n - unat m" using assms(2) by (simp add: word_nat word_le_nat_alt)
  moreover have "unat (a + m * PAGE_SIZE) = unat a + unat m * 4096"
    using fits_mono [OF assms] by (rule unat_end)
  ultimately show "fits (a + m * PAGE_SIZE) (n - m)"
    and "span (a + m * PAGE_SIZE) (n - m) = span a n - span a m"
    and "span a m \<subseteq> span a n"
    using assms(1) by (auto simp: fits_def span_def diff_mult_distrib)
qed

lemma ext_take_correct:
  assumes "ext_take sat num es = Some (ret, freed, es')" and "ext_wf es"
  shows "sat ret num \<and> fits ret num \<and> span ret num \<subseteq> ext_free es \<and>
         ext_free es' = ext_free es - span ret num \<and> ext_wf es'"
  using assms
proof (induction es arbitrary: es')
  case (Cons e es)
  let ?hit = "num \<le> e_size e \<and> sat (e_addr e) num"
  show ?case
  proof (cases ?hit)
    case True
    note sp = span_split [of "e_addr e" "e_size e" num]
    from Cons.prems(2) have wf: "fits (e_addr e) (e_size e)" "espan e \<inter> ext_free es = {}" "ext_wf es"
      by auto
    with True sp have "span (e_addr e) num \<inter> ext_free es = {}" by blast
    show ?thesis
    proof (cases "e_size e - num = 0")
      case 0: True
      then have "e_size e = num" by simp
      with Cons.prems(1) True have eq: "ret = e_addr e" "es' = es" by auto
      with \<open>e_size e = num\<close> True wf show ?thesis by auto
    next
      case False
      with Cons.prems(1) True
      have eq: "ret = e_addr e"
        "es' = e\<lparr>e_addr := e_addr e + num * PAGE_SIZE, e_size := e_size e - num\<rparr> # es" by auto
      with True wf sp fits_mono [OF wf(1)] show ?thesis by auto
    qed
  next
    case False
    with Cons.prems(1) obtain es1 where "ext_take sat num es = Some (ret, freed, es1)" "es' = e # es1"
      by auto
    with Cons.IH [of es1] Cons.prems(2) show ?thesis by auto
  qed
qed simp

lemma ext_take_None:
  "ext_take sat num es = None \<longleftrightarrow> (\<forall>e\<in>set es. \<not> (num \<le> e_size e \<and> sat (e_addr e) num))"
  by (induction es) auto

lemma ext_take_pos:
  "ext_take sat num es = Some (ret, freed, es') \<Longrightarrow> \<forall>e\<in>set es. e_size e \<noteq> 0 \<Longrightarrow> \<forall>e\<in>set es'. e_size e \<noteq> 0"
  by (induction es arbitrary: es') (auto split: if_splits)

lemma ext_take_nodes:
  "ext_take sat num es = Some (ret, freed, es') \<Longrightarrow>
   mset (map e_node es') + mset (case freed of None \<Rightarrow> [] | Some n \<Rightarrow> [n]) = mset (map e_node es)"
  by (induction es arbitrary: es') (auto split: if_splits)

text \<open>What the block below an extent costs: the top of the extent.\<close>

definition lost_top :: "u64 \<Rightarrow> extent \<Rightarrow> nat set" where
  "lost_top addr e = {unat addr + unat (e_size e) * 4096 ..< unat (e_addr e) + unat (e_size e) * 4096}"

lemma ext_give_below:
  assumes "ext_end addr num = e_addr e" and "fits addr num" and "fits (e_addr e) (e_size e)"
  shows "fits (e_addr e - PAGE_SIZE * num) (e_size e)"
    and "e_addr e - PAGE_SIZE * num = addr"
    and "span addr (e_size e) = (espan e \<union> span addr num) - lost_top addr e"
proof -
  have e: "e_addr e = addr + num * PAGE_SIZE" using assms(1) by (simp add: ext_end_def)
  then show a: "e_addr e - PAGE_SIZE * num = addr" by (simp add: mult.commute)
  have n: "unat (e_addr e) = unat addr + unat num * 4096" using assms by (metis ext_end_nat)
  show "fits (e_addr e - PAGE_SIZE * num) (e_size e)" unfolding a using n assms(3) by (simp add: fits_def)
  show "span addr (e_size e) = (espan e \<union> span addr num) - lost_top addr e"
    using n by (auto simp: span_def lost_top_def)
qed

lemma ext_give_above:
  assumes "extent_end e = addr" and "fits addr num" and "fits (e_addr e) (e_size e)"
  shows "fits (e_addr e) (e_size e + num)"
    and "span (e_addr e) (e_size e + num) = espan e \<union> span addr num"
proof -
  have n: "unat addr = unat (e_addr e) + unat (e_size e) * 4096" using assms by (metis extent_end_nat)
  then have s: "unat (e_size e + num) = unat (e_size e) + unat num"
    using assms(2) by (intro unat_add_nowrap) (simp add: fits_def)
  then show "fits (e_addr e) (e_size e + num)" using n assms(2) by (simp add: fits_def algebra_simps)
  show "span (e_addr e) (e_size e + num) = espan e \<union> span addr num"
    using n s by (auto simp: span_def algebra_simps)
qed

lemma lost_top_sub:
  assumes "ext_end addr num = e_addr e" and "fits addr num"
  shows "lost_top addr e \<subseteq> espan e \<union> span addr num"
proof -
  have "unat (e_addr e) = unat addr + unat num * 4096"
    using assms by (metis ext_end_nat)
  then show ?thesis by (auto simp: lost_top_def span_def)
qed

lemma espan_sub_free: "e \<in> set es \<Longrightarrow> espan e \<subseteq> ext_free es"
  by (auto simp: ext_free_def)

lemma ext_give_correct:
  assumes "ext_give addr num es = Inr (Some es')" and "ext_wf es" and "fits addr num"
    and "span addr num \<inter> ext_free es = {}"
  shows "ext_wf es' \<and>
    (ext_free es' = ext_free es \<union> span addr num \<or>
     (\<exists>e\<in>set es. e_addr e = ext_end addr num \<and>
        ext_free es' = ext_free es \<union> span addr num - lost_top addr e))"
  using assms
proof (induction es arbitrary: es')
  case (Cons e es)
  from Cons.prems have wf: "fits (e_addr e) (e_size e)" "espan e \<inter> ext_free es = {}" "ext_wf es"
    and dj: "span addr num \<inter> espan e = {}" "span addr num \<inter> ext_free es = {}" by auto
  consider (below) "ext_end addr num = e_addr e"
    | (above) "ext_end addr num \<noteq> e_addr e" "extent_end e = addr"
    | (rest) "ext_end addr num \<noteq> e_addr e" "extent_end e \<noteq> addr" "e_addr e \<noteq> addr"
    using Cons.prems(1) by (auto split: if_splits)
  then show ?case
  proof cases
    case below
    note g = ext_give_below [OF below Cons.prems(3) wf(1)]
    with Cons.prems(1) below have es': "es' = e\<lparr>e_addr := addr\<rparr> # es" by simp
    from lost_top_sub [OF below Cons.prems(3)]
    have "ext_free es' = ext_free (e # es) \<union> span addr num - lost_top addr e"
      using g es' wf dj by auto
    moreover have "ext_wf es'" using es' g wf dj by auto
    ultimately show ?thesis using below by auto
  next
    case above
    note g = ext_give_above [OF above(2) Cons.prems(3) wf(1)]
    with Cons.prems(1) above have es': "es' = e\<lparr>e_size := e_size e + num\<rparr> # es" by simp
    with g wf dj show ?thesis by auto
  next
    case rest
    with Cons.prems(1) obtain es1 where "ext_give addr num es = Inr (Some es1)" "es' = e # es1"
      by auto
    with Cons.IH [of es1] wf dj Cons.prems(3) have IH: "ext_wf es1 \<and>
       (ext_free es1 = ext_free es \<union> span addr num \<or>
     (\<exists>e\<in>set es. e_addr e = ext_end addr num \<and>
        ext_free es1 = ext_free es \<union> span addr num - lost_top addr e))" by auto
    show ?thesis
    proof (cases "ext_free es1 = ext_free es \<union> span addr num")
      case True
      with IH wf dj \<open>es' = e # es1\<close> show ?thesis by auto
    next
      case False
      with IH obtain f where f: "f \<in> set es" "ext_end addr num = e_addr f"
        "ext_free es1 = ext_free es \<union> span addr num - lost_top addr f" by metis
      have "lost_top addr f \<inter> espan e = {}"
        using lost_top_sub [OF f(2) Cons.prems(3)] espan_sub_free [OF f(1)] wf dj by blast
      with f have "ext_free es' = ext_free (e # es) \<union> span addr num - lost_top addr f"
        using \<open>es' = e # es1\<close> by auto
      moreover have "ext_wf es'" using IH wf dj f(3) \<open>es' = e # es1\<close> by auto
      ultimately show ?thesis using f by auto
    qed
  qed
qed simp

lemma ext_give_None:
  "ext_give addr num es = Inr None \<Longrightarrow>
   \<forall>e\<in>set es. e_addr e \<noteq> ext_end addr num \<and> extent_end e \<noteq> addr \<and> e_addr e \<noteq> addr"
  by (induction es) (auto split: if_splits)

lemma ext_give_Inl:
  "ext_give addr num es = Inl x \<Longrightarrow> x = Abort ''potential double free'' \<and> (\<exists>e\<in>set es. e_addr e = addr)"
  by (induction es) (auto split: if_splits simp: bindE_Inl_iff)

abbreviation ext_aligned :: "extent list \<Rightarrow> bool" where
  "ext_aligned es \<equiv> (\<forall>e\<in>set es. isPageAligned (e_addr e))"

definition back_span :: "(u64 \<times> u64) option \<Rightarrow> nat set" where
  "back_span b = (case b of None \<Rightarrow> {} | Some (a, n) \<Rightarrow> span a n)"

lemma back_span_simps [simp]: "back_span None = {}" "back_span (Some (a, n)) = span a n"
  by (simp_all add: back_span_def)

lemma unat_div_PAGE_SIZE: "unat (a div PAGE_SIZE) = unat a div 4096"
  by (simp add: unat_div)

lemma unat_aligned_div: "isPageAligned a \<Longrightarrow> unat (a div PAGE_SIZE) * 4096 = unat a"
  by (simp add: unat_div_PAGE_SIZE isPageAligned_dvd)

text \<open>One extent cut at its front, at its back, and in its middle.\<close>

lemma carve_inside:
  assumes wf: "fits (e_addr e) (e_size e)" and fit: "fits start num"
    and lo: "e_addr e \<le> start" and hi: "ext_end start num \<le> extent_end e"
  shows "span start num \<subseteq> espan e" and "unat (e_addr e) \<le> unat start"
    and "unat start + unat num * 4096 \<le> unat (e_addr e) + unat (e_size e) * 4096"
proof -
  show 1: "unat (e_addr e) \<le> unat start" using lo by (simp add: word_le_nat_alt)
  show 2: "unat start + unat num * 4096 \<le> unat (e_addr e) + unat (e_size e) * 4096"
    using hi ext_end_nat [OF fit] extent_end_nat [OF wf] by (simp add: word_le_nat_alt)
  show "span start num \<subseteq> espan e" using 1 2 by (auto simp: span_def)
qed

lemma carve_back:
  assumes wf: "fits (e_addr e) (e_size e)" and fit: "fits start num"
    and lo: "e_addr e \<le> start" and hi: "ext_end start num = extent_end e"
  shows "span (e_addr e) (e_size e - num) = espan e - span start num" and "fits (e_addr e) (e_size e - num)"
proof -
  have eq: "unat start + unat num * 4096 = unat (e_addr e) + unat (e_size e) * 4096"
    using hi ext_end_nat [OF fit] extent_end_nat [OF wf] by simp
  moreover have "unat (e_addr e) \<le> unat start" using lo by (simp add: word_le_nat_alt)
  ultimately have "unat num \<le> unat (e_size e)" by linarith
  then have "unat (e_size e - num) = unat (e_size e) - unat num" by (rule unat_sub_nowrap)
  with eq show "span (e_addr e) (e_size e - num) = espan e - span start num" "fits (e_addr e) (e_size e - num)"
    using wf \<open>unat num \<le> unat (e_size e)\<close> by (auto simp: span_def fits_def)
qed

lemma carve_middle:
  assumes wf: "fits (e_addr e) (e_size e)" and fit: "fits start num"
    and lo: "e_addr e \<le> start" and hi: "ext_end start num \<le> extent_end e"
    and al: "isPageAligned (e_addr e)" "isPageAligned start"
  defines "f \<equiv> (start - e_addr e) div PAGE_SIZE"
    and "a \<equiv> ext_end start num" and "n \<equiv> (extent_end e - ext_end start num) div PAGE_SIZE"
  shows "span (e_addr e) f \<union> span a n = espan e - span start num"
    and "span (e_addr e) f \<inter> span a n = {}" and "fits (e_addr e) f" and "fits a n"
proof -
  note c = carve_inside [OF wf fit lo hi]
  have f: "unat f * 4096 = unat start - unat (e_addr e)"
    unfolding f_def using al c(2) by (simp add: unat_aligned_div isPageAligned_diff unat_sub_nowrap)
  have "isPageAligned (extent_end e - ext_end start num)"
    using al by (auto simp: extent_end_def ext_end_def ofsPages_def [symmetric] intro!: isPageAligned_diff isPageAligned_add)
  then have n: "unat n * 4096 = (unat (e_addr e) + unat (e_size e) * 4096) - (unat start + unat num * 4096)"
    unfolding n_def using hi ext_end_nat [OF fit] extent_end_nat [OF wf]
    by (simp add: unat_aligned_div unat_sub_nowrap word_le_nat_alt)
  have a: "unat a = unat start + unat num * 4096" unfolding a_def by (rule ext_end_nat [OF fit])
  show "span (e_addr e) f \<union> span a n = espan e - span start num"
    and "span (e_addr e) f \<inter> span a n = {}"
    using f n a c(2,3) by (auto simp: span_def)
  show "fits (e_addr e) f" using f c(2) unat_u64_lt [of start] by (simp add: fits_def)
  show "fits a n" using a n c(3) wf by (simp add: fits_def)
qed

lemma ext_carve_correct:
  assumes "ext_carve start num es = Some (es', back)" and "ext_wf es" and "fits start num"
    and "ext_aligned es" and "isPageAligned start"
  shows "span start num \<subseteq> ext_free es \<and> ext_wf es' \<and>
     ext_free es' \<union> back_span back = ext_free es - span start num \<and>
     ext_free es' \<inter> back_span back = {} \<and> (\<forall>a n. back = Some (a, n) \<longrightarrow> fits a n)"
  using assms
proof (induction es arbitrary: es')
  case (Cons e es)
  from Cons.prems have wf: "fits (e_addr e) (e_size e)" "espan e \<inter> ext_free es = {}" "ext_wf es"
    and al: "isPageAligned (e_addr e)" by auto
  show ?case
  proof (cases "e_addr e \<le> start \<and> ext_end start num \<le> extent_end e")
    case True
    note in1 = carve_inside [OF wf(1) Cons.prems(3)]
    have sub: "span start num \<subseteq> espan e" using in1 True by blast
    consider (front) "e_addr e = start" | (rear) "e_addr e \<noteq> start" "ext_end start num = extent_end e"
      | (mid) "e_addr e \<noteq> start" "ext_end start num \<noteq> extent_end e" by blast
    then show ?thesis
    proof cases
      case front
      have "num \<le> e_size e" using in1(3) True front by (simp add: word_le_nat_alt)
      note sp = span_split [OF wf(1) this]
      have "es' = e\<lparr>e_addr := e_addr e + num * PAGE_SIZE, e_size := e_size e - num\<rparr> # es" "back = None"
        using Cons.prems(1) True front by auto
      with sp wf front show ?thesis by auto
    next
      case rear
      note sp = carve_back [OF wf(1) Cons.prems(3) conjunct1 [OF True] rear(2)]
      have "es' = e\<lparr>e_size := e_size e - num\<rparr> # es" "back = None"
        using Cons.prems(1) True rear by auto
      with sp wf sub show ?thesis by auto
    next
      case mid
      note sp = carve_middle [OF wf(1) Cons.prems(3) conjunct1 [OF True] conjunct2 [OF True] al Cons.prems(5)]
      have "es' = e\<lparr>e_size := (start - e_addr e) div PAGE_SIZE\<rparr> # es"
        "back = Some (ext_end start num, (extent_end e - ext_end start num) div PAGE_SIZE)"
        using Cons.prems(1) True mid by auto
      with sp wf sub show ?thesis by auto
    qed
  next
    case False
    with Cons.prems(1) obtain es1 where "ext_carve start num es = Some (es1, back)" "es' = e # es1"
      by auto
    with Cons.IH [of es1] Cons.prems show ?thesis by auto
  qed
qed simp

lemma ext_carve_None:
  assumes "ext_carve start num es = None"
  shows "\<forall>e\<in>set es. \<not> (e_addr e \<le> start \<and> ext_end start num \<le> extent_end e)"
  using assms by (induction es) (auto split: if_splits)

lemma ext_carve_Some:
  assumes "ext_carve start num es = Some (es', b)"
  shows "\<exists>e\<in>set es. e_addr e \<le> start \<and> ext_end start num \<le> extent_end e"
  using assms by (induction es arbitrary: es') (auto split: if_splits)

lemma ext_intersects_iff:
  assumes "fits (e_addr a) (e_size a)" "fits (e_addr b) (e_size b)" "e_size a \<noteq> 0" "e_size b \<noteq> 0"
  shows "ext_intersects a b \<longleftrightarrow> espan a \<inter> espan b \<noteq> {}"
proof -
  have "0 < unat (e_size a)" "0 < unat (e_size b)" using assms by (simp_all add: unat_gt_0)
  then show ?thesis
    by (auto simp: ext_intersects_def word_le_nat_alt word_less_nat_alt extent_end_nat assms span_def)
qed

lemma ext_consistent_iff:
  assumes "\<forall>e\<in>set es. fits (e_addr e) (e_size e)"
  shows "ext_consistent es \<longleftrightarrow> ext_wf es \<and> (\<forall>e\<in>set es. e_size e \<noteq> 0)"
  using assms
proof (induction es)
  case (Cons e es)
  then have IH: "ext_consistent es \<longleftrightarrow> ext_wf es \<and> (\<forall>e\<in>set es. e_size e \<noteq> 0)" by simp
  have "(\<not> list_ex (ext_intersects e) es) \<longleftrightarrow> espan e \<inter> ext_free es = {}"
    if "e_size e \<noteq> 0" "\<forall>e\<in>set es. e_size e \<noteq> 0"
    using that Cons.prems by (auto simp: list_ex_iff ext_intersects_iff ext_free_def)
  with IH Cons.prems show ?case by auto
qed simp

section \<open>The nodes of the lists\<close>

definition nbytes :: "u64 \<Rightarrow> nat set" where
  "nbytes n = {unat n ..< unat n + 24}"

definition ext_nodes :: "extmm \<Rightarrow> u64 list" where
  "ext_nodes st = map e_node (x_head st) @ x_freeHead st"

definition boot_rest :: "extmm \<Rightarrow> nat set" where
  "boot_rest st = {unat (x_bootstrapWatermark st) ..< unat (x_bootstrapEnd st)}"

definition apart :: "u64 set \<Rightarrow> bool" where
  "apart N \<longleftrightarrow> (\<forall>a\<in>N. \<forall>b\<in>N. a \<noteq> b \<longrightarrow> nbytes a \<inter> nbytes b = {})"

definition nodes_inv :: "nat set \<Rightarrow> extmm \<Rightarrow> bool" where
  "nodes_inv T st \<longleftrightarrow>
     distinct (ext_nodes st) \<and> apart (set (ext_nodes st)) \<and>
     (\<forall>n\<in>set (ext_nodes st). nbytes n \<subseteq> T - boot_rest st) \<and>
     boot_rest st \<subseteq> T \<and> unat (x_bootstrapWatermark st) \<le> unat (x_bootstrapEnd st) \<and>
     unat (x_bootstrapEnd st) + 24 < 2 ^ 64"

lemma apart_Un:
  "apart M \<Longrightarrow> apart N \<Longrightarrow> (\<And>a b. a \<in> M \<Longrightarrow> b \<in> N \<Longrightarrow> nbytes a \<inter> nbytes b = {}) \<Longrightarrow> apart (M \<union> N)"
  unfolding apart_def by (blast dest: sym)

lemma nbytes_nonempty [simp]: "unat n \<in> nbytes n"
  by (simp add: nbytes_def)

lemma page_size_div: "unat (PAGE_SIZE div sizeof_extent) = 170"
  by (simp add: PAGE_SIZE_def sizeof_extent_def)

lemma set_page_nodes: "set (page_nodes m) = (\<lambda>i. m + of_nat i * sizeof_extent) ` {..<170}"
  by (simp add: page_nodes_def page_size_div atLeast0LessThan)

lemma unat_page_node:
  assumes "isPageAligned m" and "i < 170"
  shows "unat (m + of_nat i * sizeof_extent) = unat m + i * 24"
proof -
  have i: "unat (of_nat i * sizeof_extent) = i * 24"
    using assms(2) by (simp add: sizeof_extent_def unat_word_ariths unat_of_nat)
  obtain k where k: "unat m = 4096 * k" using assms(1) by (auto simp: isPageAligned_dvd)
  then have "4096 * k < 4096 * 2 ^ 52" using unat_u64_lt [of m] by simp
  then have "unat m + 4096 \<le> 2 ^ 64" using k by simp
  with assms(2) i show ?thesis by (subst unat_add_nowrap) auto
qed

lemma page_nodes_apart:
  assumes "isPageAligned m"
  shows "distinct (page_nodes m)" and "apart (set (page_nodes m))"
    and "n \<in> set (page_nodes m) \<Longrightarrow> nbytes n \<subseteq> span m 1"
proof -
  have inj: "inj_on (\<lambda>i. m + of_nat i * sizeof_extent) {..<170}"
  proof (rule inj_onI)
    fix i j :: nat assume "i \<in> {..<170}" "j \<in> {..<170}"
      and "m + of_nat i * sizeof_extent = m + of_nat j * sizeof_extent"
    then have "unat m + i * 24 = unat m + j * 24"
      using unat_page_node [OF assms] by (metis lessThan_iff)
    then show "i = j" by simp
  qed
  show "distinct (page_nodes m)"
    using inj by (simp add: page_nodes_def page_size_div distinct_map atLeast0LessThan)
  show "apart (set (page_nodes m))"
  proof -
    have "i = j" if "i < 170" "j < 170"
      and "nbytes (m + of_nat i * sizeof_extent) \<inter> nbytes (m + of_nat j * sizeof_extent) \<noteq> {}" for i j
      using that(3) unfolding nbytes_def unat_page_node [OF assms that(1)] unat_page_node [OF assms that(2)]
      by auto
    then show ?thesis unfolding apart_def set_page_nodes by blast
  qed
  show "nbytes n \<subseteq> span m 1" if "n \<in> set (page_nodes m)"
    using that unfolding set_page_nodes by (auto simp: nbytes_def span_def unat_page_node [OF assms])
qed

lemma page_nodes_ne: "page_nodes m \<noteq> []"
  by (simp add: page_nodes_def page_size_div)

text \<open>Linking one more node into the list.\<close>

lemma nodes_inv_push:
  assumes "nodes_inv T st" and "n \<notin> set (ext_nodes st)" and "nbytes n \<subseteq> T - boot_rest st"
    and "\<forall>k\<in>set (ext_nodes st). nbytes k \<inter> nbytes n = {}"
  shows "nodes_inv T (push_extent n a s st)"
proof -
  have "apart (insert n (set (ext_nodes st)))"
    using assms(1,4) unfolding nodes_inv_def apart_def by (auto dest: sym)
  with assms show ?thesis
    by (auto simp: nodes_inv_def ext_nodes_def push_extent_def boot_rest_def)
qed

lemma ext_give_nodes: "ext_give a n es = Inr (Some es') \<Longrightarrow> map e_node es' = map e_node es"
  by (induction es arbitrary: es') (auto split: if_splits)

lemma ext_carve_nodes: "ext_carve a n es = Some (es', b) \<Longrightarrow> map e_node es' = map e_node es"
  by (induction es arbitrary: es') (auto split: if_splits)

locale node_pages =
  fixes newpage :: "'w \<Rightarrow> (u64 \<times> 'w) res" and ok :: "'w \<Rightarrow> bool" and taken :: "'w \<Rightarrow> nat set"
  assumes newpage_ok: "ok w \<Longrightarrow> newpage w = Inr (m, w') \<Longrightarrow> ok w'"
    and newpage_aligned: "ok w \<Longrightarrow> newpage w = Inr (m, w') \<Longrightarrow> isPageAligned m"
    and newpage_fresh: "ok w \<Longrightarrow> newpage w = Inr (m, w') \<Longrightarrow> span m 1 \<inter> taken w = {}"
    and newpage_taken: "ok w \<Longrightarrow> newpage w = Inr (m, w') \<Longrightarrow> taken w' = taken w \<union> span m 1"
begin

lemma addExtent_nodes:
  assumes ok: "ok w" and inv: "nodes_inv (taken w) st" and add: "addExtent newpage a s st w = Inr (st', w')"
  shows "nodes_inv (taken w') st'"
proof (cases "x_freeHead st")
  case (Cons n ns)
  let ?st = "st\<lparr>x_freeHead := ns\<rparr>"
  have st': "st' = push_extent n a s ?st" "w' = w" using add Cons by (auto simp: addExtent_def)
  have "nodes_inv (taken w) ?st" "n \<notin> set (ext_nodes ?st)" "nbytes n \<subseteq> taken w - boot_rest ?st"
    "\<forall>k\<in>set (ext_nodes ?st). nbytes k \<inter> nbytes n = {}"
    using inv Cons by (auto simp: nodes_inv_def ext_nodes_def boot_rest_def apart_def)
  then show ?thesis unfolding st' by (rule nodes_inv_push)
next
  case Nil
  let ?wm = "x_bootstrapWatermark st" and ?lim = "x_bootstrapEnd st"
  show ?thesis
  proof (cases "?wm + sizeof_extent \<le> ?lim")
    case True
    let ?st = "st\<lparr>x_bootstrapWatermark := ?wm + sizeof_extent\<rparr>"
    have st': "st' = push_extent ?wm a s ?st" "w' = w" using add Nil True by (auto simp: addExtent_def)
    have wm: "unat (?wm + sizeof_extent) = unat ?wm + 24"
      using inv by (subst unat_add_nowrap) (auto simp: nodes_inv_def sizeof_extent_def)
    then have le: "unat ?wm + 24 \<le> unat ?lim" using True by (simp add: word_le_nat_alt)
    have new: "nbytes ?wm \<subseteq> boot_rest st" "nbytes ?wm \<inter> boot_rest ?st = {}" "boot_rest ?st \<subseteq> boot_rest st"
      using wm le by (auto simp: nbytes_def boot_rest_def)
    have old: "\<forall>k\<in>set (ext_nodes ?st). nbytes k \<inter> nbytes ?wm = {}"
    proof
      fix k assume "k \<in> set (ext_nodes ?st)"
      then have "nbytes k \<subseteq> taken w - boot_rest st"
        using inv by (simp add: nodes_inv_def ext_nodes_def)
      with new(1) show "nbytes k \<inter> nbytes ?wm = {}" by blast
    qed
    have "nodes_inv (taken w) ?st"
    proof -
      have "ext_nodes ?st = ext_nodes st" by (simp add: ext_nodes_def)
      with inv wm le new(3) show ?thesis unfolding nodes_inv_def by (simp add: subset_iff) blast
    qed
    moreover have "?wm \<notin> set (ext_nodes ?st)" using old nbytes_nonempty by blast
    moreover have "nbytes ?wm \<subseteq> taken w - boot_rest ?st" using new inv by (auto simp: nodes_inv_def)
    ultimately show ?thesis unfolding st' using old by (rule nodes_inv_push)
  next
    case False
    with add Nil obtain m where m: "newpage w = Inr (m, w')" and
      st': "st' = push_extent (hd (page_nodes m)) a s
             (st\<lparr>x_freeHead := tl (page_nodes m), x_extentMemory := x_extentMemory st @ [m]\<rparr>)"
      by (auto simp: addExtent_def)
    note pn = page_nodes_apart [OF newpage_aligned [OF ok m]]
    have perm: "set (ext_nodes st') = set (page_nodes m) \<union> set (ext_nodes st)"
      "distinct (ext_nodes st') \<longleftrightarrow> distinct (page_nodes m @ ext_nodes st)"
      using page_nodes_ne [of m] Nil
      by (cases "page_nodes m"; auto simp: st' ext_nodes_def push_extent_def)+
    have far: "nbytes k \<inter> nbytes n = {}" if "k \<in> set (page_nodes m)" "n \<in> set (ext_nodes st)" for k n
      using pn(3) [OF that(1)] newpage_fresh [OF ok m] inv that(2) by (auto simp: nodes_inv_def)
    then have "set (page_nodes m) \<inter> set (ext_nodes st) = {}"
      using nbytes_nonempty by blast
    then have "distinct (ext_nodes st')" using perm(2) pn(1) inv by (auto simp: nodes_inv_def)
    moreover have "apart (set (ext_nodes st'))"
      unfolding perm(1) using pn(2) inv far by (intro apart_Un) (auto simp: nodes_inv_def)
    moreover have "boot_rest st' = boot_rest st" by (simp add: st' boot_rest_def push_extent_def)
    moreover have "nbytes n \<subseteq> taken w' - boot_rest st" if "n \<in> set (ext_nodes st')" for n
      using that pn(3) newpage_fresh [OF ok m] newpage_taken [OF ok m] inv
      unfolding perm(1) nodes_inv_def by blast
    ultimately show ?thesis
      using inv newpage_taken [OF ok m] by (auto simp: nodes_inv_def st' push_extent_def)
  qed
qed

lemma deallocate_nodes:
  assumes ok: "ok w" and inv: "nodes_inv (taken w) st"
    and d: "extmm_deallocate newpage a n st w = Inr (st', w')"
  shows "nodes_inv (taken w') st'"
proof -
  from d obtain r where r: "ext_give a n (x_head st) = Inr r"
    and eq: "(case r of Some es \<Rightarrow> Inr (st\<lparr>x_head := es\<rparr>, w) | None \<Rightarrow> addExtent newpage a n st w) = Inr (st', w')"
    by (auto simp: extmm_deallocate_def)
  show ?thesis
  proof (cases r)
    case None
    with eq inv show ?thesis by (auto intro: addExtent_nodes [OF ok])
  next
    case (Some es)
    with eq r ext_give_nodes have "ext_nodes st' = ext_nodes st" "st' = st\<lparr>x_head := es\<rparr>" "w' = w"
      by (fastforce simp: ext_nodes_def)+
    with inv show ?thesis by (simp add: nodes_inv_def boot_rest_def)
  qed
qed

lemma deallocate_taken:
  assumes "ok w" "extmm_deallocate newpage a n st w = Inr (st', w')"
  shows "taken w \<subseteq> taken w' \<and> ok w'"
proof (cases "w' = w")
  case False
  from assms(2) False obtain m where "newpage w = Inr (m, w')"
    by (auto simp: extmm_deallocate_def addExtent_def split: option.splits list.splits if_splits)
  then show ?thesis using newpage_taken [OF assms(1)] newpage_ok [OF assms(1)] by blast
qed (use assms(1) in simp)

lemma allocateSpecific_nodes:
  assumes ok: "ok w" and inv: "nodes_inv (taken w) st"
    and d: "extmm_allocateSpecific newpage a n st w = Inr (r, st', w')"
  shows "nodes_inv (taken w') st'"
proof (cases "ext_carve a n (x_head st)")
  case None
  with d inv show ?thesis by (auto simp: extmm_allocateSpecific_def)
next
  case (Some p)
  then obtain es b where p: "ext_carve a n (x_head st) = Some (es, b)" by (cases p) auto
  let ?st = "st\<lparr>x_head := es\<rparr>"
  have "ext_nodes ?st = ext_nodes st" using ext_carve_nodes [OF p] by (simp add: ext_nodes_def)
  with inv have "nodes_inv (taken w) ?st" by (simp add: nodes_inv_def boot_rest_def)
  with d p addExtent_nodes [OF ok] show ?thesis
    by (auto simp: extmm_allocateSpecific_def split: option.splits)
qed

end

lemma allocate_nodes:
  assumes inv: "nodes_inv T st" and a: "extmm_allocate n sat st = Inr (r, st')"
  shows "nodes_inv T st'"
proof (cases "ext_take sat n (x_head st)")
  case None
  with a inv show ?thesis by (auto simp: extmm_allocate_def split: if_splits)
next
  case (Some p)
  then obtain ret f es where p: "ext_take sat n (x_head st) = Some (ret, f, es)" by (cases p) auto
  with a have st': "st' = st\<lparr>x_head := es,
       x_freeHead := (case f of None \<Rightarrow> x_freeHead st | Some n \<Rightarrow> n # x_freeHead st)\<rparr>"
    by (auto simp: extmm_allocate_def split: if_splits)
  have "mset (ext_nodes st') = mset (ext_nodes st)"
    using ext_take_nodes [OF p] by (auto simp: st' ext_nodes_def split: option.splits)
  then have "set (ext_nodes st') = set (ext_nodes st)" "distinct (ext_nodes st') = distinct (ext_nodes st)"
    by (metis set_mset_mset, metis mset_eq_imp_distinct_iff)
  with inv show ?thesis by (simp add: nodes_inv_def boot_rest_def st')
qed

section \<open>What the operations do to the free memory\<close>

lemma addExtent_head:
  "addExtent newpage a n st w = Inr (st', w') \<Longrightarrow>
   \<exists>k. x_head st' = \<lparr>e_node = k, e_addr = a, e_size = n\<rparr> # x_head st"
  by (auto simp: addExtent_def push_extent_def split: list.splits if_splits)

lemma addExtent_Inl: "addExtent newpage a n st w = Inl x \<Longrightarrow> newpage w = Inl x"
  by (auto simp: addExtent_def bindE_Inl_iff split: list.splits if_splits)

lemma extmm_allocate_free:
  assumes "extmm_allocate num sat st = Inr (ret, st')" and "ext_wf (x_head st)"
  shows "(ret = 0 \<and> st' = st) \<or>
    (sat ret num \<and> fits ret num \<and> span ret num \<subseteq> ext_free (x_head st) \<and>
     ext_free (x_head st') = ext_free (x_head st) - span ret num \<and> ext_wf (x_head st'))"
proof (cases "ext_take sat num (x_head st)")
  case None
  with assms(1) show ?thesis by (auto simp: extmm_allocate_def split: if_splits)
next
  case (Some p)
  then obtain f es where "ext_take sat num (x_head st) = Some (ret, f, es)" "x_head st' = es"
    using assms(1) by (cases p) (auto simp: extmm_allocate_def split: if_splits)
  with ext_take_correct assms(2) show ?thesis by metis
qed

lemma isPageAligned_0 [simp]: "isPageAligned 0"
  by (simp add: isPageAligned_def)

lemma ext_take_aligned:
  "ext_take sat num es = Some (ret, f, es') \<Longrightarrow> ext_aligned es \<Longrightarrow> isPageAligned ret \<and> ext_aligned es'"
  by (induction es arbitrary: es') (auto split: if_splits simp flip: ofsPages_def)

lemma ext_give_aligned:
  "ext_give addr num es = Inr (Some es') \<Longrightarrow> ext_aligned es \<Longrightarrow> isPageAligned addr \<Longrightarrow> ext_aligned es'"
proof (induction es arbitrary: es')
  case (Cons e es)
  have "e_addr e - PAGE_SIZE * num = addr" if "ext_end addr num = e_addr e"
    using that by (simp add: ext_end_def mult.commute flip: that)
  with Cons show ?case by (auto split: if_splits)
qed simp

lemma ext_give_pos:
  assumes "ext_give addr num es = Inr (Some es')" and "\<forall>e\<in>set es. e_size e \<noteq> 0 \<and> fits (e_addr e) (e_size e)"
    and "fits addr num"
  shows "\<forall>e\<in>set es'. e_size e \<noteq> 0"
  using assms(1,2)
proof (induction es arbitrary: es')
  case (Cons e es)
  have "e_size e + num \<noteq> 0" if "extent_end e = addr"
  proof -
    have "unat (e_size e + num) = unat (e_size e) + unat num"
      using ext_give_above(1) [OF that assms(3)] that Cons.prems(2) assms(3) extent_end_nat [of e]
      by (intro unat_add_nowrap) (auto simp: fits_def)
    then show ?thesis using Cons.prems(2) by (metis add_is_0 list.set_intros(1) unat_0 unat_eq_zero)
  qed
  with Cons show ?case by (auto split: if_splits)
qed simp

lemma ext_wf_fits: "ext_wf es \<Longrightarrow> e \<in> set es \<Longrightarrow> fits (e_addr e) (e_size e)"
  by (induction es) auto

lemma extmm_allocate_shape:
  assumes "extmm_allocate num sat st = Inr (ret, st')"
  shows "ext_aligned (x_head st) \<Longrightarrow> ext_aligned (x_head st') \<and> isPageAligned ret"
    and "\<forall>e\<in>set (x_head st). e_size e \<noteq> 0 \<Longrightarrow> \<forall>e\<in>set (x_head st'). e_size e \<noteq> 0"
proof -
  have num: "num \<noteq> 0" using assms by (auto simp: extmm_allocate_def)
  have *: "(ret = 0 \<and> st' = st) \<or> (\<exists>f es. ext_take sat num (x_head st) = Some (ret, f, es) \<and> x_head st' = es)"
    using assms by (auto simp: extmm_allocate_def split: if_splits option.splits)
  show "ext_aligned (x_head st) \<Longrightarrow> ext_aligned (x_head st') \<and> isPageAligned ret"
    using * ext_take_aligned by (metis isPageAligned_0)
  show "\<forall>e\<in>set (x_head st). e_size e \<noteq> 0 \<Longrightarrow> \<forall>e\<in>set (x_head st'). e_size e \<noteq> 0"
    using * ext_take_pos [of sat num "x_head st"] by blast
qed

lemma extmm_deallocate_free:
  assumes "ext_wf (x_head st)" and "fits addr num" and "span addr num \<inter> ext_free (x_head st) = {}"
    and "extmm_deallocate newpage addr num st w = Inr (st', w')"
  shows "ext_wf (x_head st') \<and>
    (ext_free (x_head st') = ext_free (x_head st) \<union> span addr num \<or>
     (\<exists>e\<in>set (x_head st). e_addr e = ext_end addr num \<and>
        ext_free (x_head st') = ext_free (x_head st) \<union> span addr num - lost_top addr e))"
proof -
  from assms(4) obtain r where r: "ext_give addr num (x_head st) = Inr r"
    and eq: "(case r of Some es \<Rightarrow> Inr (st\<lparr>x_head := es\<rparr>, w)
                      | None \<Rightarrow> addExtent newpage addr num st w) = Inr (st', w')"
    by (auto simp: extmm_deallocate_def)
  show ?thesis
  proof (cases r)
    case None
    with eq obtain k where "x_head st' = \<lparr>e_node = k, e_addr = addr, e_size = num\<rparr> # x_head st"
      using addExtent_head [of newpage addr num st w st' w'] by auto
    with assms(1-3) show ?thesis by auto
  next
    case (Some es)
    with eq r ext_give_correct [of addr num "x_head st" es] assms(1-3) show ?thesis by auto
  qed
qed

lemma extmm_deallocate_shape:
  assumes "extmm_deallocate newpage addr num st w = Inr (st', w')"
  shows "ext_aligned (x_head st) \<Longrightarrow> isPageAligned addr \<Longrightarrow> ext_aligned (x_head st')"
    and "ext_wf (x_head st) \<Longrightarrow> fits addr num \<Longrightarrow> num \<noteq> 0 \<Longrightarrow> \<forall>e\<in>set (x_head st). e_size e \<noteq> 0 \<Longrightarrow>
           \<forall>e\<in>set (x_head st'). e_size e \<noteq> 0"
proof -
  from assms consider es where "ext_give addr num (x_head st) = Inr (Some es)" "x_head st' = es"
    | k where "x_head st' = \<lparr>e_node = k, e_addr = addr, e_size = num\<rparr> # x_head st"
    using addExtent_head [of newpage addr num st w st' w']
    by (fastforce simp: extmm_deallocate_def split: option.splits)
  note * = this
  show "ext_aligned (x_head st) \<Longrightarrow> isPageAligned addr \<Longrightarrow> ext_aligned (x_head st')"
    using * ext_give_aligned by cases auto
  show "ext_wf (x_head st) \<Longrightarrow> fits addr num \<Longrightarrow> num \<noteq> 0 \<Longrightarrow> \<forall>e\<in>set (x_head st). e_size e \<noteq> 0 \<Longrightarrow>
           \<forall>e\<in>set (x_head st'). e_size e \<noteq> 0"
    using * by cases (auto dest: ext_give_pos ext_wf_fits)
qed

lemma extmm_deallocate_stops:
  assumes "\<forall>e\<in>set (x_head st). e_size e \<noteq> 0" and "num \<noteq> 0"
    and "span addr num \<inter> ext_free (x_head st) = {}"
    and "extmm_deallocate newpage addr num st w = Inl err"
  shows "newpage w = Inl err"
proof (cases "ext_give addr num (x_head st)")
  case (Inl x)
  then obtain e where e: "e \<in> set (x_head st)" "e_addr e = addr" using ext_give_Inl by blast
  have "unat addr \<in> span addr num" "unat addr \<in> espan e"
    using assms(1,2) e by (auto simp: span_def unat_gt_0)
  with espan_sub_free [OF e(1)] assms(3) show ?thesis by blast
next
  case (Inr r)
  with assms(4) show ?thesis
    by (auto simp: extmm_deallocate_def intro: addExtent_Inl split: option.splits)
qed




text \<open>
  C7: \<^verbatim>\<open>extmm::State::allocateSpecific\<close> of a page-aligned range that does not wrap around the address
  space: if one extent contains the range it returns the range's start, removes exactly the range
  from the free memory and keeps the extents disjoint; otherwise it returns 0 and changes nothing.
\<close>

theorem extmm_allocateSpecific_exact:
  assumes "ext_wf (x_head st)" and "ext_aligned (x_head st)" and "fits start num"
    and "isPageAligned start"
    and "extmm_allocateSpecific newpage start num st w = Inr (ret, st', w')"
  shows "if \<exists>e\<in>set (x_head st). e_addr e \<le> start \<and> ext_end start num \<le> extent_end e
     then ret = start \<and> span start num \<subseteq> ext_free (x_head st) \<and>
          ext_free (x_head st') = ext_free (x_head st) - span start num \<and> ext_wf (x_head st')
     else ret = 0 \<and> st' = st \<and> w' = w"
proof (cases "ext_carve start num (x_head st)")
  case None
  with ext_carve_None [OF None] assms(5) show ?thesis
    by (auto simp: extmm_allocateSpecific_def)
next
  case (Some p)
  then obtain es b where p: "ext_carve start num (x_head st) = Some (es, b)" by (cases p) auto
  have ex: "\<exists>e\<in>set (x_head st). e_addr e \<le> start \<and> ext_end start num \<le> extent_end e"
    using p by (rule ext_carve_Some)
  note c = ext_carve_correct [OF p assms(1,3,2,4)]
  show ?thesis
  proof (cases b)
    case None
    with p assms(5) c ex show ?thesis by (auto simp: extmm_allocateSpecific_def)
  next
    case (Some an)
    then obtain a n where b: "b = Some (a, n)" by (cases an) auto
    with p assms(5) obtain st1 where ret: "ret = start"
      and add: "addExtent newpage a n (st\<lparr>x_head := es\<rparr>) w = Inr (st', w')"
      by (auto simp: extmm_allocateSpecific_def)
    obtain k where "x_head st' = \<lparr>e_node = k, e_addr = a, e_size = n\<rparr> # es"
      using addExtent_head [OF add] by auto
    with c b ret ex show ?thesis by auto
  qed
qed

text \<open>
  C8: \<^verbatim>\<open>checkConsistency\<close> returns true exactly when no extent is empty and no two extents share a
  byte, for extents that do not wrap around the address space.
\<close>

theorem extmm_checkConsistency_iff:
  assumes "\<forall>e\<in>set (x_head st). fits (e_addr e) (e_size e)"
  shows "extmm_checkConsistency st \<longleftrightarrow>
    ext_wf (x_head st) \<and> (\<forall>e\<in>set (x_head st). e_size e \<noteq> 0)"
  using ext_consistent_iff [OF assms] by (simp add: extmm_checkConsistency_def)


section \<open>A concrete allocator\<close>

definition ext_demo :: extmm where
  "ext_demo = (extmm_init ''demo'' 0x1000 0x2000 0)
     \<lparr>x_head := [\<lparr>e_node = 0x1000, e_addr = 0x10000, e_size = 4\<rparr>], x_bootstrapWatermark := 0x1018\<rparr>"

lemma ext_demo_head: "x_head ext_demo = [\<lparr>e_node = 0x1000, e_addr = 0x10000, e_size = 4\<rparr>]"
  by (simp add: ext_demo_def)

lemma ext_demo_wf: "ext_wf (x_head ext_demo)" "ext_aligned (x_head ext_demo)"
  "\<forall>e\<in>set (x_head ext_demo). e_size e \<noteq> 0"
  by (simp_all add: ext_demo_head fits_def isPageAligned_def)

lemma ext_demo_free: "ext_free (x_head ext_demo) = {0x10000..<0x14000}"
  by (simp add: ext_demo_head span_def)




theorem extmm_allocateSpecific_exact_witness:
  "\<exists>st'. extmm_allocateSpecific (\<lambda>w. Inr (0, w)) 0x11000 2 ext_demo () = Inr (0x11000, st', ()) \<and>
     ext_free (x_head st') = ext_free (x_head ext_demo) - span 0x11000 2"
proof -
  have f: "fits 0x11000 2" by (simp add: fits_def)
  have a: "isPageAligned 0x11000" by (simp add: isPageAligned_def)
  obtain st' where r: "extmm_allocateSpecific (\<lambda>w. Inr (0, w)) 0x11000 2 ext_demo () = Inr (0x11000, st', ())"
    by (simp add: extmm_allocateSpecific_def ext_demo_def extmm_init_def addExtent_def sizeof_extent_def
        ext_end_def extent_end_def PAGE_SIZE_def)
  from extmm_allocateSpecific_exact [OF ext_demo_wf(1,2) f a r] r show ?thesis
    by (auto simp: ext_demo_head ext_end_def extent_end_def PAGE_SIZE_def)
qed

theorem extmm_checkConsistency_iff_witness:
  "extmm_checkConsistency ext_demo"
proof -
  have "\<forall>e\<in>set (x_head ext_demo). fits (e_addr e) (e_size e)"
    by (simp add: ext_demo_head fits_def)
  from extmm_checkConsistency_iff [OF this] ext_demo_wf show ?thesis by simp
qed


end
