(* ===== verification/PageTable.thy ===== *)
theory PageTable
  imports Addr "HOL-Library.Sublist"
begin

text \<open>
  The index arithmetic and the recursive mapping of \<^verbatim>\<open>kernel/source/mm/virtmap.cpp\<close>, and
  \<^verbatim>\<open>vmm::bootstrap\<close>. Physical memory is a function from the address of a page to its 512
  quadwords (\<^verbatim>\<open>pml_t\<close>). The kernel reaches its tables through virtual addresses that go through
  the recursive slot of the top-level table; \<open>mmu_walk\<close> is the processor's four-level translation
  of such an address, so that a table access of the source is an access to the page its pointer
  translates to, and a fault when it translates to none.
\<close>

section \<open>Physical memory and the processor's translation\<close>

type_synonym physmem = "u64 \<Rightarrow> u64 \<Rightarrow> u64"

definition HIGHER_HALF_BASE :: u64 where
  "HIGHER_HALF_BASE = 0xFFFF000000000000"

definition PDPT_SIZE :: u64 where
  "PDPT_SIZE = 0x8000000000"

definition PDIR_SIZE :: u64 where
  "PDIR_SIZE = 0x40000000"

definition PTAB_SIZE :: u64 where
  "PTAB_SIZE = 0x200000"

definition indexPML4 :: "u64 \<Rightarrow> u64" where
  "indexPML4 addr = drop_bit 39 addr AND 0x1FF"

definition indexPDPT :: "u64 \<Rightarrow> u64" where
  "indexPDPT addr = drop_bit 30 addr AND 0x1FF"

definition indexPageDir :: "u64 \<Rightarrow> u64" where
  "indexPageDir addr = drop_bit 21 addr AND 0x1FF"

definition indexPageTable :: "u64 \<Rightarrow> u64" where
  "indexPageTable addr = drop_bit 12 addr AND 0x1FF"

definition indexToAddr :: "u64 \<Rightarrow> u64 \<Rightarrow> u64 \<Rightarrow> u64 \<Rightarrow> u64" where
  "indexToAddr p4idx p3idx p2idx p1idx =
     0x8000000000 * p4idx + 0x40000000 * p3idx + 0x200000 * p2idx + 0x1000 * p1idx"

text \<open>The physical page an entry points to: bits 12 to 51.\<close>

definition entry_frame :: "u64 \<Rightarrow> u64" where
  "entry_frame e = e AND 0x000FFFFFFFFFF000"

definition present :: "u64 \<Rightarrow> bool" where
  "present e \<longleftrightarrow> e AND PAGE_PRESENT \<noteq> 0"

definition mmu_step :: "physmem \<Rightarrow> u64 \<Rightarrow> u64 \<Rightarrow> u64 option" where
  "mmu_step mem table idx =
     (if present (mem table idx) then Some (entry_frame (mem table idx)) else None)"

definition mmu_walk :: "physmem \<Rightarrow> u64 \<Rightarrow> u64 \<Rightarrow> u64 option" where
  "mmu_walk mem cr3 v =
     Option.bind (mmu_step mem cr3 (indexPML4 v)) (\<lambda>pdpt.
     Option.bind (mmu_step mem pdpt (indexPDPT v)) (\<lambda>pdir.
     Option.bind (mmu_step mem pdir (indexPageDir v)) (\<lambda>ptab.
       mmu_step mem ptab (indexPageTable v))))"

section \<open>Table pointers through the recursive slot\<close>

definition recursive_pml4 :: "u64 \<Rightarrow> u64" where
  "recursive_pml4 r = HIGHER_HALF_BASE + r * PDPT_SIZE + r * PDIR_SIZE + r * PTAB_SIZE + r * PAGE_SIZE"

definition recursive_pdpt :: "u64 \<Rightarrow> u64" where
  "recursive_pdpt r = HIGHER_HALF_BASE + r * PDPT_SIZE + r * PDIR_SIZE + r * PTAB_SIZE"

definition recursive_pdir :: "u64 \<Rightarrow> u64" where
  "recursive_pdir r = HIGHER_HALF_BASE + r * PDPT_SIZE + r * PDIR_SIZE"

definition recursive_ptab :: "u64 \<Rightarrow> u64" where
  "recursive_ptab r = HIGHER_HALF_BASE + r * PDPT_SIZE"

definition getPML4 :: "u64 \<Rightarrow> u64" where
  "getPML4 r = recursive_pml4 r"

definition getPDPT :: "u64 \<Rightarrow> u64 \<Rightarrow> u64" where
  "getPDPT r p4idx = recursive_pdpt r + PAGE_SIZE * p4idx"

definition getPDir :: "u64 \<Rightarrow> u64 \<Rightarrow> u64 \<Rightarrow> u64" where
  "getPDir r p4idx p3idx = recursive_pdir r + PTAB_SIZE * p4idx + PAGE_SIZE * p3idx"

definition getPTab :: "u64 \<Rightarrow> u64 \<Rightarrow> u64 \<Rightarrow> u64 \<Rightarrow> u64" where
  "getPTab r p4idx p3idx p2idx =
     recursive_ptab r + PDIR_SIZE * p4idx + PTAB_SIZE * p3idx + PAGE_SIZE * p2idx"

section \<open>Table accesses\<close>

definition tab_read :: "physmem \<Rightarrow> u64 \<Rightarrow> u64 \<Rightarrow> u64 \<Rightarrow> u64 res" where
  "tab_read mem cr3 tab idx =
     (case mmu_walk mem cr3 tab of None \<Rightarrow> Inl (Fault tab) | Some f \<Rightarrow> Inr (mem f idx))"

definition tab_write :: "physmem \<Rightarrow> u64 \<Rightarrow> u64 \<Rightarrow> u64 \<Rightarrow> u64 \<Rightarrow> physmem res" where
  "tab_write mem cr3 tab idx x =
     (case mmu_walk mem cr3 tab of None \<Rightarrow> Inl (Fault tab)
      | Some f \<Rightarrow> Inr (mem(f := (mem f)(idx := x))))"

text \<open>\<^verbatim>\<open>memset(tab, 0, PAGE_SIZE)\<close>.\<close>

definition page_zero :: "physmem \<Rightarrow> u64 \<Rightarrow> u64 \<Rightarrow> physmem res" where
  "page_zero mem cr3 v =
     (case mmu_walk mem cr3 v of None \<Rightarrow> Inl (Fault v) | Some f \<Rightarrow> Inr (mem(f := \<lambda>_. 0)))"

section \<open>Bootstrapping one page\<close>

definition pt_end :: "u64 \<Rightarrow> u64 \<Rightarrow> u64" where
  "pt_end base num = base + num * PAGE_SIZE"

text \<open>
  One level of \<^verbatim>\<open>bootstrap\<close>: if the entry is absent it is filled with the next reserved page and
  the table below is cleared.
\<close>

definition bootstrap_level ::
  "u64 \<Rightarrow> u64 \<Rightarrow> u64 \<Rightarrow> u64 \<Rightarrow> u64 \<Rightarrow> physmem \<times> u64 \<Rightarrow> (physmem \<times> u64) res" where
  "bootstrap_level cr3 physBase tab idx child = (\<lambda>(mem, used).
     bindE (tab_read mem cr3 tab idx) (\<lambda>e.
       if present e then Inr (mem, used)
       else bindE (tab_write mem cr3 tab idx (pt_end physBase used OR PAGE_WRITE OR PAGE_PRESENT))
              (\<lambda>mem1. bindE (page_zero mem1 cr3 child) (\<lambda>mem2. Inr (mem2, used + 1)))))"

definition bootstrap :: "u64 \<Rightarrow> u64 \<Rightarrow> u64 \<Rightarrow> u64 \<Rightarrow> physmem \<Rightarrow> physmem res" where
  "bootstrap cr3 physBase v maxPages mem =
     (let p4idx = indexPML4 v; p3idx = indexPDPT v; p2idx = indexPageDir v; p1idx = indexPageTable v;
          pml4 = getPML4 510; pdpt = getPDPT 510 p4idx; pdir = getPDir 510 p4idx p3idx;
          ptab = getPTab 510 p4idx p3idx p2idx
      in bindE (bootstrap_level cr3 physBase pml4 p4idx pdpt (mem, 0)) (\<lambda>s1.
         bindE (bootstrap_level cr3 physBase pdpt p3idx pdir s1) (\<lambda>s2.
         bindE (bootstrap_level cr3 physBase pdir p2idx ptab s2) (\<lambda>(mem3, used).
         bindE (tab_write mem3 cr3 ptab p1idx (pt_end physBase used OR PAGE_WRITE OR PAGE_PRESENT)) (\<lambda>mem4.
         bindE (assertE (used + 1 \<le> maxPages) ''bootstrapUsed <= maxPages'') (\<lambda>_.
           page_zero mem4 cr3 v))))))"

lemma mask9: "(0x1FF::u64) = mask 9" by (simp add: mask_eq_exp_minus_1)

lemma unat_index: "unat (drop_bit k a AND 0x1FF :: u64) = unat a div 2 ^ k mod 512"
proof -
  have "unat (drop_bit k a AND 0x1FF) = take_bit 9 (unat (drop_bit k a))"
    unfolding mask9 take_bit_eq_mask [symmetric] by (rule unsigned_take_bit_eq)
  also have "unat (drop_bit k a) = drop_bit k (unat a)"
    by (rule unat_drop_bit_eq)
  finally show ?thesis by (simp add: take_bit_eq_mod drop_bit_eq_div)
qed

lemmas unat_indices [word_nat] =
  unat_index [of 39, folded indexPML4_def] unat_index [of 30, folded indexPDPT_def]
  unat_index [of 21, folded indexPageDir_def] unat_index [of 12, folded indexPageTable_def]

text \<open>An address put together from its canonical half and its four indices.\<close>

lemma unat_compose:
  fixes h a b c d :: u64
  assumes "unat h < 65536" "unat a < 512" "unat b < 512" "unat c < 512" "unat d < 512"
  shows "unat (h * 0x1000000000000 + a * 0x8000000000 + b * 0x40000000 + c * 0x200000 + d * 0x1000) =
    unat h * 0x1000000000000 + unat a * 0x8000000000 + unat b * 0x40000000 + unat c * 0x200000 + unat d * 0x1000"
  using assms by (simp add: unat_word_ariths)

lemma digit: "\<lbrakk>a < (512::nat); r < m\<rbrakk> \<Longrightarrow> ((h * 512 + a) * m + r) div m mod 512 = a"
  by (simp add: div_mult_self3)

lemma index_compose:
  fixes h a b c d :: u64
  assumes "unat h < 65536" "unat a < 512" "unat b < 512" "unat c < 512" "unat d < 512"
  defines "v \<equiv> h * 0x1000000000000 + a * 0x8000000000 + b * 0x40000000 + c * 0x200000 + d * 0x1000"
  shows "indexPML4 v = a" "indexPDPT v = b" "indexPageDir v = c" "indexPageTable v = d"
proof -
  let ?n = "unat h * 0x1000000000000 + unat a * 0x8000000000 + unat b * 0x40000000 + unat c * 0x200000 + unat d * 0x1000"
  have v: "unat v = ?n"
    unfolding v_def using assms(1-5) by (rule unat_compose)
  have "unat v = (unat h * 512 + unat a) * 2 ^ 39 + (unat b * 0x40000000 + unat c * 0x200000 + unat d * 0x1000)" "(unat b * 0x40000000 + unat c * 0x200000 + unat d * 0x1000) < 2 ^ 39"
    using assms(2-5) by (simp_all add: v)
  then have "unat v div 2 ^ 39 mod 512 = unat a"
    using digit [OF assms(2)] by metis
  then show "indexPML4 v = a"
    unfolding u64_eq_unat unat_indices .
  have "unat v = ((unat h * 512 + unat a) * 512 + unat b) * 2 ^ 30 + (unat c * 0x200000 + unat d * 0x1000)" "(unat c * 0x200000 + unat d * 0x1000) < 2 ^ 30"
    using assms(2-5) by (simp_all add: v)
  then have "unat v div 2 ^ 30 mod 512 = unat b"
    using digit [OF assms(3)] by metis
  then show "indexPDPT v = b"
    unfolding u64_eq_unat unat_indices .
  have "unat v = ((unat h * 0x40000 + unat a * 512 + unat b) * 512 + unat c) * 2 ^ 21 + (unat d * 0x1000)" "(unat d * 0x1000) < 2 ^ 21"
    using assms(2-5) by (simp_all add: v)
  then have "unat v div 2 ^ 21 mod 512 = unat c"
    using digit [OF assms(4)] by metis
  then show "indexPageDir v = c"
    unfolding u64_eq_unat unat_indices .
  have "unat v = ((unat h * 0x8000000 + unat a * 0x40000 + unat b * 512 + unat c) * 512 + unat d) * 2 ^ 12 + 0" "(0::nat) < 2 ^ 12"
    using assms(2-5) by (simp_all add: v)
  then have "unat v div 2 ^ 12 mod 512 = unat d"
    using digit [OF assms(5)] by metis
  then show "indexPageTable v = d"
    unfolding u64_eq_unat unat_indices .
qed

lemmas table_pointer_defs =
  getPML4_def getPDPT_def getPDir_def getPTab_def
  recursive_pml4_def recursive_pdpt_def recursive_pdir_def recursive_ptab_def
  HIGHER_HALF_BASE_def PDPT_SIZE_def PDIR_SIZE_def PTAB_SIZE_def PAGE_SIZE_def

lemma index_getPTab:
  assumes "unat r < 512" "unat a < 512" "unat b < 512" "unat c < 512"
  shows "indexPML4 (getPTab r a b c) = r" "indexPDPT (getPTab r a b c) = a"
    "indexPageDir (getPTab r a b c) = b" "indexPageTable (getPTab r a b c) = c"
proof -
  have "getPTab r a b c = 0xFFFF * 0x1000000000000 + r * 0x8000000000 + a * 0x40000000 + b * 0x200000 + c * 0x1000"
    by (simp add: table_pointer_defs mult.commute)
  with index_compose [of "0xFFFF" r a b c] assms
  show "indexPML4 (getPTab r a b c) = r" "indexPDPT (getPTab r a b c) = a"
    "indexPageDir (getPTab r a b c) = b" "indexPageTable (getPTab r a b c) = c"
    by simp_all
qed

text \<open>Every other table pointer is a page-table pointer with the recursive slot in front.\<close>

lemma getPDir_ptab: "getPDir r a b = getPTab r r a b"
  by (simp add: table_pointer_defs algebra_simps)

lemma getPDPT_ptab: "getPDPT r a = getPTab r r r a"
  by (simp add: table_pointer_defs algebra_simps)

lemma getPML4_ptab: "getPML4 r = getPTab r r r r"
  by (simp add: table_pointer_defs algebra_simps)

lemma index_lt:
  "unat (indexPML4 v) < 512" "unat (indexPDPT v) < 512"
  "unat (indexPageDir v) < 512" "unat (indexPageTable v) < 512"
  by (simp_all add: unat_indices)

lemma walk_getPTab:
  assumes "unat r < 512" "unat a < 512" "unat b < 512" "unat c < 512"
  shows "mmu_walk mem cr3 (getPTab r a b c) =
    Option.bind (mmu_step mem cr3 r) (\<lambda>t4. Option.bind (mmu_step mem t4 a) (\<lambda>t3.
      Option.bind (mmu_step mem t3 b) (\<lambda>t2. mmu_step mem t2 c)))"
  using assms by (simp add: mmu_walk_def index_getPTab)

lemma indexToAddr_inverse:
  assumes "unat a < 512" "unat b < 512" "unat c < 512" "unat d < 512"
  shows "indexPML4 (indexToAddr a b c d) = a \<and> indexPDPT (indexToAddr a b c d) = b \<and>
     indexPageDir (indexToAddr a b c d) = c \<and> indexPageTable (indexToAddr a b c d) = d"
  using index_compose [of 0 a b c d] assms by (simp add: indexToAddr_def mult.commute)

lemma split9:
  fixes n :: nat
  assumes "n < 2 ^ 48" "n mod 4096 = 0"
  shows "n div 2 ^ 39 mod 512 * 0x8000000000 + n div 2 ^ 30 mod 512 * 0x40000000 +
    n div 2 ^ 21 mod 512 * 0x200000 + n div 2 ^ 12 mod 512 * 0x1000 = n"
proof -
  define a where "a = n div 2 ^ 12"
  define b where "b = a div 512"
  define c where "c = b div 512"
  define d where "d = c div 512"
  have shifts: "n div 2 ^ 21 = b" "n div 2 ^ 30 = c" "n div 2 ^ 39 = d"
    by (simp_all add: a_def b_def c_def d_def div_mult2_eq [symmetric])
  have "d mod 512 = d" using assms(1) by (simp add: shifts [symmetric] div_less_iff_less_mult)
  moreover have "n = a * 4096" using assms(2) mult_div_mod_eq [of 4096 n] by (simp add: a_def)
  moreover have "a = b * 512 + a mod 512" "b = c * 512 + b mod 512" "c = d * 512 + c mod 512"
    by (simp_all add: b_def c_def d_def)
  ultimately show ?thesis unfolding shifts a_def [symmetric] by linarith
qed

lemma indexToAddr_of_indices:
  assumes "isPageAligned v" "unat v < 2 ^ 48"
  shows "indexToAddr (indexPML4 v) (indexPDPT v) (indexPageDir v) (indexPageTable v) = v"
proof -
  let ?a = "indexPML4 v" and ?b = "indexPDPT v" and ?c = "indexPageDir v" and ?d = "indexPageTable v"
  have al: "unat v mod 4096 = 0" using assms(1) by (simp add: isPageAligned_dvd dvd_eq_mod_eq_0)
  have "unat (indexToAddr ?a ?b ?c ?d) =
      unat ?a * 0x8000000000 + unat ?b * 0x40000000 + unat ?c * 0x200000 + unat ?d * 0x1000"
    using unat_compose [of 0 ?a ?b ?c ?d] index_lt [of v] by (simp add: indexToAddr_def mult.commute)
  also have "\<dots> = unat v"
    unfolding unat_indices by (rule split9 [OF assms(2) al])
  finally show ?thesis by (simp add: u64_eq_unat)
qed

section \<open>Walks along a path of indices\<close>

fun walk :: "physmem \<Rightarrow> u64 \<Rightarrow> u64 list \<Rightarrow> u64 option" where
  "walk mem t [] = Some t"
| "walk mem t (i # p) = Option.bind (mmu_step mem t i) (\<lambda>t'. walk mem t' p)"

definition vpath :: "u64 \<Rightarrow> u64 list" where
  "vpath v = [indexPML4 v, indexPDPT v, indexPageDir v, indexPageTable v]"

text \<open>The paths the kernel maps: every slot but the two that hold recursive mappings.\<close>

definition mappable :: "u64 list \<Rightarrow> bool" where
  "mappable p \<longleftrightarrow> (case p of [] \<Rightarrow> True | i # _ \<Rightarrow> i \<noteq> 509 \<and> i \<noteq> 510)"

text \<open>No page is a table twice: a table is reached by one path only.\<close>

definition pt_tree :: "physmem \<Rightarrow> u64 \<Rightarrow> bool" where
  "pt_tree mem root \<longleftrightarrow>
     (\<forall>p q t. mappable p \<and> mappable q \<and> length p \<le> 3 \<and> length q \<le> 3 \<and>
        walk mem root p = Some t \<and> walk mem root q = Some t \<longrightarrow> p = q)"

definition is_table :: "physmem \<Rightarrow> u64 \<Rightarrow> u64 \<Rightarrow> bool" where
  "is_table mem root t \<longleftrightarrow> (\<exists>p. mappable p \<and> length p \<le> 3 \<and> walk mem root p = Some t)"

lemma mmu_walk_path: "mmu_walk mem root v = walk mem root (vpath v)"
  by (simp add: mmu_walk_def vpath_def)

lemma walk_append: "walk mem t (p @ q) = Option.bind (walk mem t p) (\<lambda>t'. walk mem t' q)"
  by (induction p arbitrary: t) (auto simp: Option.bind_assoc)

lemma walk_getPTab':
  assumes "unat r < 512" "unat a < 512" "unat b < 512" "unat c < 512"
  shows "mmu_walk mem cr3 (getPTab r a b c) = walk mem cr3 [r, a, b, c]"
  using walk_getPTab [OF assms] by simp

lemma mappable_append: "mappable p \<Longrightarrow> p \<noteq> [] \<Longrightarrow> mappable (p @ q)"
  by (cases p) (auto simp: mappable_def)

lemma mappable_prefix: "mappable (p @ q) \<Longrightarrow> mappable p"
  by (cases p) (auto simp: mappable_def)

lemma walk_cong:
  assumes "\<And>p i s t. q = p @ i # s \<Longrightarrow> walk mem root p = Some t \<Longrightarrow> mmu_step mem' t i = mmu_step mem t i"
  shows "walk mem' root q = walk mem root q"
  using assms
proof (induction q arbitrary: root)
  case (Cons i q)
  have here: "mmu_step mem' root i = mmu_step mem root i"
    using Cons.prems [of "[]"] by simp
  show ?case
  proof (cases "mmu_step mem root i")
    case (Some t)
    have "walk mem' t q = walk mem t q"
      by (rule Cons.IH) (use Cons.prems [of "i # _"] Some in auto)
    with here Some show ?thesis by simp
  qed (use here in simp)
qed simp

lemma pt_treeD:
  "\<lbrakk>pt_tree mem root; walk mem root p = Some t; walk mem root q = Some t; mappable p; mappable q;
    length p \<le> 3; length q \<le> 3\<rbrakk> \<Longrightarrow> p = q"
  unfolding pt_tree_def by blast

text \<open>Writing one entry changes the walks through that entry and no others.\<close>

lemma walk_write_other:
  assumes "pt_tree mem root" "walk mem root p = Some t" "mappable p" "length p \<le> 3"
    and "mappable q" "length q \<le> 4" "\<not> prefix (p @ [i]) q"
  shows "walk (mem(t := (mem t)(i := e))) root q = walk mem root q"
proof (rule walk_cong)
  fix p' j s t' assume q: "q = p' @ j # s" and w: "walk mem root p' = Some t'"
  have "p' = p" if "t' = t"
    using pt_treeD [OF assms(1) w] assms(2-6) that q mappable_prefix [of p' "j # s"] by auto
  with assms(7) q have "\<not> (t' = t \<and> j = i)" by (auto simp: prefix_def)
  then show "mmu_step (mem(t := (mem t)(i := e))) t' j = mmu_step mem t' j"
    by (auto simp: mmu_step_def)
qed

lemma walk_fresh_page:
  assumes "\<not> is_table mem root f" "mappable q" "length q \<le> 4"
  shows "walk (mem(f := c)) root q = walk mem root q"
proof (rule walk_cong)
  fix p j s t' assume q: "q = p @ j # s" and w: "walk mem root p = Some t'"
  have "mappable p" "length p \<le> 3"
    using q assms mappable_prefix by auto
  with w assms(1) have "t' \<noteq> f" by (auto simp: is_table_def)
  then show "mmu_step (mem(f := c)) t' j = mmu_step mem t' j" by (simp add: mmu_step_def)
qed

lemma walk_write_here:
  assumes "pt_tree mem root" "walk mem root p = Some t" "mappable p" "length p \<le> 3"
  shows "walk (mem(t := (mem t)(i := e))) root (p @ [i]) = (if present e then Some (entry_frame e) else None)"
proof -
  have "walk (mem(t := (mem t)(i := e))) root p = walk mem root p"
    by (rule walk_write_other [OF assms]) (use assms in \<open>auto simp: prefix_def\<close>)
  then show ?thesis by (simp add: walk_append assms(2) mmu_step_def)
qed

text \<open>Hanging a cleared page that is no table yet into an absent entry.\<close>

definition link_table :: "physmem \<Rightarrow> u64 \<Rightarrow> u64 \<Rightarrow> u64 \<Rightarrow> physmem" where
  "link_table mem t i e = (mem(t := (mem t)(i := e)))(entry_frame e := \<lambda>_. 0)"

lemma link_table_walks:
  assumes tree: "pt_tree mem root" and p: "walk mem root p = Some t" "mappable (p @ [i])" "length p \<le> 2"
    and fresh: "\<not> is_table mem root (entry_frame e)" and e: "present e"
    and absent: "\<not> present (mem t i)"
  shows "\<And>q. mappable q \<Longrightarrow> length q \<le> 4 \<Longrightarrow> walk (link_table mem t i e) root q =
      (if q = p @ [i] then Some (entry_frame e) else walk mem root q)"
proof -
  fix q assume q: "mappable q" "length q \<le> 4"
  let ?m1 = "mem(t := (mem t)(i := e))" and ?f = "entry_frame e"
  note mp = mappable_prefix [OF p(2)]
  have ft: "t \<noteq> ?f" using fresh p mp by (auto simp: is_table_def)
  have other: "walk (link_table mem t i e) root q' = walk mem root q'"
    if q': "mappable q'" "length q' \<le> 4" "\<not> prefix (p @ [i]) q'" for q'
  proof -
    have "walk (link_table mem t i e) root q' = walk ?m1 root q'"
    proof (rule walk_cong)
      fix p' j s t' assume e': "q' = p' @ j # s" "walk ?m1 root p' = Some t'"
      then have "\<not> prefix (p @ [i]) p'" "mappable p'" "length p' \<le> 3"
        using q' mappable_prefix by (auto simp: prefix_def)
      then have "walk mem root p' = Some t'"
        using walk_write_other [OF tree p(1) mp, of p' i e] p(3) e'(2) by auto
      then have "t' \<noteq> ?f" using fresh \<open>mappable p'\<close> \<open>length p' \<le> 3\<close> by (auto simp: is_table_def)
      then show "mmu_step (link_table mem t i e) t' j = mmu_step ?m1 t' j"
        by (simp add: mmu_step_def link_table_def)
    qed
    also have "\<dots> = walk mem root q'"
      using walk_write_other [OF tree p(1) mp _ q'] p(3) by simp
    finally show ?thesis .
  qed
  have "walk (link_table mem t i e) root p = Some t"
    using other [of p] mp p by (auto simp: prefix_def)
  then have here: "walk (link_table mem t i e) root (p @ [i]) = Some ?f"
    using e ft by (simp add: walk_append mmu_step_def link_table_def)
  show "walk (link_table mem t i e) root q = (if q = p @ [i] then Some ?f else walk mem root q)"
  proof (cases "prefix (p @ [i]) q")
    case False
    then show ?thesis using other [OF q False] by auto
  next
    case True
    then obtain s where s: "q = (p @ [i]) @ s" by (auto simp: prefix_def)
    show ?thesis
    proof (cases s)
      case (Cons j s')
      have "walk mem root q = None"
        using absent p(1) by (simp add: s walk_append mmu_step_def)
      moreover have "walk (link_table mem t i e) root q = None"
        unfolding s walk_append [of _ _ "p @ [i]"] here
        by (simp add: Cons mmu_step_def link_table_def present_def)
      ultimately show ?thesis using s Cons by simp
    qed (use here s in simp)
  qed
qed

lemma link_table_tree:
  assumes tree: "pt_tree mem root" and p: "walk mem root p = Some t" "mappable (p @ [i])" "length p \<le> 2"
    and fresh: "\<not> is_table mem root (entry_frame e)" and e: "present e"
    and absent: "\<not> present (mem t i)"
  shows "pt_tree (link_table mem t i e) root"
  unfolding pt_tree_def
proof (intro allI impI, elim conjE)
  fix a b u assume ab: "mappable a" "mappable b" "length a \<le> 3" "length b \<le> 3"
    and w: "walk (link_table mem t i e) root a = Some u" "walk (link_table mem t i e) root b = Some u"
  note L = link_table_walks [OF assms]
  have wa: "if a = p @ [i] then u = entry_frame e else walk mem root a = Some u"
    using L [of a] w ab by (auto split: if_splits)
  have wb: "if b = p @ [i] then u = entry_frame e else walk mem root b = Some u"
    using L [of b] w ab by (auto split: if_splits)
  show "a = b"
    using wa wb pt_treeD [OF tree, of a u b] fresh ab
    by (auto split: if_splits simp: is_table_def)
qed

lemma link_table_is_table:
  assumes tree: "pt_tree mem root" and p: "walk mem root p = Some t" "mappable (p @ [i])" "length p \<le> 2"
    and fresh: "\<not> is_table mem root (entry_frame e)" and e: "present e"
    and absent: "\<not> present (mem t i)"
  shows "is_table (link_table mem t i e) root u \<longleftrightarrow> is_table mem root u \<or> u = entry_frame e"
proof -
  note L = link_table_walks [OF assms]
  have no: "walk mem root (p @ [i]) = None" using absent p(1) by (simp add: walk_append mmu_step_def)
  show ?thesis
  proof
    assume "is_table (link_table mem t i e) root u"
    then obtain q where q: "mappable q" "length q \<le> 3" "walk (link_table mem t i e) root q = Some u"
      by (auto simp: is_table_def)
    then show "is_table mem root u \<or> u = entry_frame e"
      using L [of q] by (auto simp: is_table_def split: if_splits)
  next
    assume r: "is_table mem root u \<or> u = entry_frame e"
    show "is_table (link_table mem t i e) root u"
    proof (cases "u = entry_frame e")
      case True
      then show ?thesis using L [of "p @ [i]"] p by (auto simp: is_table_def)
    next
      case False
      then obtain q where q: "mappable q" "length q \<le> 3" "walk mem root q = Some u"
        using r by (auto simp: is_table_def)
      with no have "q \<noteq> p @ [i]" by auto
      with q L [of q] show ?thesis by (auto simp: is_table_def)
    qed
  qed
qed

section \<open>The tables as the kernel sees them\<close>

definition slot :: "physmem \<Rightarrow> u64 \<Rightarrow> u64 \<Rightarrow> u64 \<Rightarrow> bool" where
  "slot mem cr3 r root \<longleftrightarrow>
     (r = 509 \<or> r = 510) \<and> mmu_step mem cr3 r = Some root \<and> mmu_step mem root r = Some root"

definition tab_ptr :: "u64 \<Rightarrow> u64 list \<Rightarrow> u64" where
  "tab_ptr r p = (case p of [] \<Rightarrow> getPML4 r | [a] \<Rightarrow> getPDPT r a | [a, b] \<Rightarrow> getPDir r a b
                          | a # b # c # _ \<Rightarrow> getPTab r a b c)"

abbreviation small_path :: "u64 list \<Rightarrow> bool" where
  "small_path p \<equiv> \<forall>i\<in>set p. unat i < 512"

lemma slot_lt: "slot mem cr3 r root \<Longrightarrow> unat r < 512"
  by (auto simp: slot_def)

lemma walk_tab_ptr:
  assumes s: "slot mem cr3 r root" and p: "small_path p" "length p \<le> 3"
  shows "mmu_walk mem cr3 (tab_ptr r p) = walk mem root p"
proof -
  have r: "unat r < 512" "mmu_step mem cr3 r = Some root" "mmu_step mem root r = Some root"
    using s slot_lt [OF s] by (auto simp: slot_def)
  consider "p = []" | a where "p = [a]" | a b where "p = [a, b]" | a b c where "p = [a, b, c]"
    using p(2) by (cases p; cases "tl p"; cases "tl (tl p)") auto
  then show ?thesis
    using p(1) r
    by cases (simp_all add: tab_ptr_def getPML4_ptab getPDPT_ptab getPDir_ptab walk_getPTab')
qed

text \<open>The kernel reaches the tables of \<open>root\<close> through slot \<open>r\<close> of the current address space \<open>cr3\<close>.\<close>

definition reach :: "physmem \<Rightarrow> u64 \<Rightarrow> u64 \<Rightarrow> u64 \<Rightarrow> bool" where
  "reach mem cr3 r root \<longleftrightarrow> slot mem cr3 r root \<and> pt_tree mem root \<and> (cr3 = root \<or> \<not> is_table mem root cr3)"

lemma is_table_root: "is_table mem root root"
  by (auto simp: is_table_def mappable_def intro!: exI [of _ "[]"])

lemma mmu_step_write: "\<not> (u = t \<and> j = i) \<Longrightarrow> mmu_step (mem(t := (mem t)(i := e))) u j = mmu_step mem u j"
  by (auto simp: mmu_step_def)

lemma mmu_step_page: "u \<noteq> f \<Longrightarrow> mmu_step (mem(f := c)) u j = mmu_step mem u j"
  by (simp add: mmu_step_def)

lemma slot_write:
  assumes "reach mem cr3 r root" "walk mem root p = Some t" "mappable (p @ [i])" "length p \<le> 3"
  shows "slot (mem(t := (mem t)(i := e))) cr3 r root"
proof -
  note mp = mappable_prefix [OF assms(3)]
  have tab: "is_table mem root t" using assms mp by (auto simp: is_table_def)
  have root: "i \<noteq> r" if "t = root"
  proof -
    have "p = []"
      using pt_treeD [of mem root p t "[]"] assms mp that by (simp add: reach_def mappable_def)
    with assms show ?thesis by (auto simp: mappable_def reach_def slot_def)
  qed
  have "\<not> (t = cr3 \<and> i = r)" using tab root assms(1) by (auto simp: reach_def)
  moreover have "\<not> (root = t \<and> r = i)" using root by auto
  ultimately show ?thesis using assms(1) by (auto simp: reach_def slot_def mmu_step_write)
qed

lemma slot_fresh:
  assumes "slot mem cr3 r root" "f \<noteq> cr3" "f \<noteq> root"
  shows "slot (mem(f := c)) cr3 r root"
  using assms by (auto simp: slot_def mmu_step_page)

lemma reach_link:
  assumes "reach mem cr3 r root" "walk mem root p = Some t" "mappable (p @ [i])" "length p \<le> 2"
    and "\<not> is_table mem root (entry_frame e)" "entry_frame e \<noteq> cr3" "present e" "\<not> present (mem t i)"
  shows "reach (link_table mem t i e) cr3 r root"
proof -
  have tree: "pt_tree mem root" using assms(1) by (simp add: reach_def)
  have "slot (mem(t := (mem t)(i := e))) cr3 r root"
    using slot_write [OF assms(1-3)] assms(4) by simp
  moreover have "entry_frame e \<noteq> root" using assms(5) is_table_root by metis
  ultimately have "slot (link_table mem t i e) cr3 r root"
    unfolding link_table_def using assms(6) by (metis slot_fresh)
  moreover note link_table_tree [OF tree assms(2-5,7,8)]
  moreover note link_table_is_table [OF tree assms(2-5,7,8)]
  ultimately show ?thesis using assms(1,6) by (auto simp: reach_def)
qed

text \<open>The three accesses that add one table.\<close>

lemma level_accesses:
  assumes "reach mem cr3 r root" "walk mem root p = Some t" "mappable (p @ [i])" "length p \<le> 2"
    and "small_path (p @ [i])"
  shows "tab_read mem cr3 (tab_ptr r p) i = Inr (mem t i)"
    and "tab_write mem cr3 (tab_ptr r p) i e = Inr (mem(t := (mem t)(i := e)))"
    and "present e \<Longrightarrow> page_zero (mem(t := (mem t)(i := e))) cr3 (tab_ptr r (p @ [i])) = Inr (link_table mem t i e)"
proof -
  note mp = mappable_prefix [OF assms(3)]
  have s: "slot mem cr3 r root" and tree: "pt_tree mem root" using assms(1) by (simp_all add: reach_def)
  have w: "mmu_walk mem cr3 (tab_ptr r p) = Some t"
    using walk_tab_ptr [OF s] assms by simp
  then show "tab_read mem cr3 (tab_ptr r p) i = Inr (mem t i)"
    "tab_write mem cr3 (tab_ptr r p) i e = Inr (mem(t := (mem t)(i := e)))"
    by (simp_all add: tab_read_def tab_write_def)
  have s': "slot (mem(t := (mem t)(i := e))) cr3 r root"
    using slot_write [OF assms(1-3)] assms(4) by simp
  assume "present e"
  then have "mmu_walk (mem(t := (mem t)(i := e))) cr3 (tab_ptr r (p @ [i])) = Some (entry_frame e)"
    using walk_tab_ptr [OF s', of "p @ [i]"] walk_write_here [OF tree assms(2) mp] assms(4,5) by simp
  then show "page_zero (mem(t := (mem t)(i := e))) cr3 (tab_ptr r (p @ [i])) = Inr (link_table mem t i e)"
    by (simp add: page_zero_def link_table_def)
qed

text \<open>
  \<open>extends mem0 mem root F\<close>: \<open>mem\<close> is \<open>mem0\<close> with the pages of \<open>F\<close> made into tables; no page is
  mapped differently.
\<close>

definition extends :: "physmem \<Rightarrow> physmem \<Rightarrow> u64 \<Rightarrow> u64 set \<Rightarrow> bool" where
  "extends mem0 mem root F \<longleftrightarrow>
     (\<forall>u. is_table mem root u \<longleftrightarrow> is_table mem0 root u \<or> u \<in> F) \<and>
     (\<forall>q. mappable q \<and> length q = 4 \<longrightarrow> walk mem root q = walk mem0 root q) \<and>
     (\<forall>t. \<not> is_table mem0 root t \<and> t \<notin> F \<longrightarrow> mem t = mem0 t)"

lemma extends_refl [simp]: "extends mem mem root {}"
  by (simp add: extends_def)

lemma extends_link:
  assumes ext: "extends mem0 mem root F" and tree: "pt_tree mem root"
    and p: "walk mem root p = Some t" "mappable (p @ [i])" "length p \<le> 2"
    and e: "\<not> is_table mem root (entry_frame e)" "present e" "\<not> present (mem t i)"
  shows "extends mem0 (link_table mem t i e) root (insert (entry_frame e) F)"
proof -
  note W = link_table_walks [OF tree p e] and T = link_table_is_table [OF tree p e]
  have tab: "is_table mem root t"
    using p mappable_prefix [OF p(2)] by (auto simp: is_table_def)
  show ?thesis
    unfolding extends_def
  proof (intro conjI allI impI)
    fix q assume q: "mappable q \<and> length q = 4"
    then have "q \<noteq> p @ [i]" using p(3) by auto
    then have "walk (link_table mem t i e) root q = walk mem root q" using W [of q] q by simp
    also have "\<dots> = walk mem0 root q" using ext q by (simp add: extends_def)
    finally show "walk (link_table mem t i e) root q = walk mem0 root q" .
  next
    fix u show "is_table (link_table mem t i e) root u =
        (is_table mem0 root u \<or> u \<in> insert (entry_frame e) F)"
      using T [of u] ext by (auto simp: extends_def)
  next
    fix u assume u: "\<not> is_table mem0 root u \<and> u \<notin> insert (entry_frame e) F"
    then have "\<not> is_table mem root u" using ext by (auto simp: extends_def)
    with tab u have "link_table mem t i e u = mem u" by (auto simp: link_table_def)
    with u ext show "link_table mem t i e u = mem0 u" by (auto simp: extends_def)
  qed
qed

section \<open>Entries\<close>

definition phys_ok :: "u64 \<Rightarrow> bool" where
  "phys_ok a \<longleftrightarrow> entry_frame a = a"

lemma entry_frame_or:
  "phys_ok a \<Longrightarrow> entry_frame fl = 0 \<Longrightarrow> entry_frame (a OR fl) = a"
  unfolding phys_ok_def entry_frame_def by (simp add: bit.conj_disj_distrib2)

lemma present_or: "present (a OR fl) \<longleftrightarrow> present a \<or> present fl"
  by (auto simp: present_def bit.conj_disj_distrib2 or_eq_0_iff)

definition frame_of :: "u64 \<Rightarrow> nat \<Rightarrow> u64" where
  "frame_of base k = base + of_nat k * PAGE_SIZE"

lemma frame_of_inj: "j < 4 \<Longrightarrow> k < 4 \<Longrightarrow> frame_of base j = frame_of base k \<longleftrightarrow> j = k"
proof -
  assume jk: "j < 4" "k < 4"
  have "unat (of_nat n * PAGE_SIZE :: u64) = n * 4096" if "n < 4" for n
    using that by (simp add: unat_word_ariths PAGE_SIZE_def unat_of_nat take_bit_nat_eq_self)
  with jk have "(of_nat j * PAGE_SIZE :: u64) = of_nat k * PAGE_SIZE \<longleftrightarrow> j = k"
    by (simp add: u64_eq_unat)
  then show ?thesis by (simp add: frame_of_def)
qed

lemma pt_end_frame: "pt_end base (of_nat k) = frame_of base k"
  by (simp add: pt_end_def frame_of_def)

lemma boot_entry:
  assumes "phys_ok a"
  shows "present (a OR PAGE_WRITE OR PAGE_PRESENT)" "entry_frame (a OR PAGE_WRITE OR PAGE_PRESENT) = a"
proof -
  have "present (PAGE_WRITE OR PAGE_PRESENT)" "entry_frame (PAGE_WRITE OR PAGE_PRESENT) = 0"
    by (simp_all add: present_def entry_frame_def PAGE_WRITE_def PAGE_PRESENT_def)
  then show "present (a OR PAGE_WRITE OR PAGE_PRESENT)" "entry_frame (a OR PAGE_WRITE OR PAGE_PRESENT) = a"
    using assms by (simp_all add: entry_frame_or present_or)
qed

text \<open>The state of \<^verbatim>\<open>bootstrap\<close> once the tables along \<open>p\<close> exist.\<close>

definition boot_inv :: "physmem \<Rightarrow> u64 \<Rightarrow> u64 \<Rightarrow> u64 list \<Rightarrow> physmem \<Rightarrow> nat \<Rightarrow> bool" where
  "boot_inv mem0 cr3 base p mem k \<longleftrightarrow>
     reach mem cr3 510 cr3 \<and> extends mem0 mem cr3 (frame_of base ` {..<k}) \<and> k \<le> length p \<and>
     walk mem cr3 p \<noteq> None"

lemma bootstrap_level_ok:
  assumes inv: "boot_inv mem0 cr3 base p mem k"
    and p: "mappable (p @ [i])" "length p \<le> 2" "small_path (p @ [i])"
    and frames: "\<forall>k<4. phys_ok (frame_of base k) \<and> \<not> is_table mem0 cr3 (frame_of base k)"
  shows "\<exists>mem' k'. bootstrap_level cr3 base (tab_ptr 510 p) i (tab_ptr 510 (p @ [i])) (mem, of_nat k) =
           Inr (mem', of_nat k') \<and> boot_inv mem0 cr3 base (p @ [i]) mem' k'"
proof -
  from inv obtain t where t: "walk mem cr3 p = Some t"
    and R: "reach mem cr3 510 cr3" and E: "extends mem0 mem cr3 (frame_of base ` {..<k})" and k: "k \<le> length p"
    by (auto simp: boot_inv_def)
  note acc = level_accesses [OF R t p]
  show ?thesis
  proof (cases "present (mem t i)")
    case True
    then have "bootstrap_level cr3 base (tab_ptr 510 p) i (tab_ptr 510 (p @ [i])) (mem, of_nat k) = Inr (mem, of_nat k)"
      by (simp add: bootstrap_level_def acc(1))
    moreover have "boot_inv mem0 cr3 base (p @ [i]) mem k"
      using True R E k t by (simp add: boot_inv_def walk_append mmu_step_def)
    ultimately show ?thesis by blast
  next
    case False
    let ?e = "frame_of base k OR PAGE_WRITE OR PAGE_PRESENT"
    have k4: "k < 4" using k p(2) by simp
    have e: "present ?e" "entry_frame ?e = frame_of base k" using boot_entry frames k4 by simp_all
    have "frame_of base k \<notin> frame_of base ` {..<k}" using k4 frame_of_inj by fastforce
    then have fresh: "\<not> is_table mem cr3 (entry_frame ?e)"
      using E frames k4 e(2) by (simp add: extends_def)
    then have "entry_frame ?e \<noteq> cr3" using is_table_root by metis
    have tree: "pt_tree mem cr3" using R by (simp add: reach_def)
    have "bootstrap_level cr3 base (tab_ptr 510 p) i (tab_ptr 510 (p @ [i])) (mem, of_nat k) =
        Inr (link_table mem t i ?e, of_nat (Suc k))"
      using False acc e(1) by (simp add: bootstrap_level_def pt_end_frame)
    moreover have "boot_inv mem0 cr3 base (p @ [i]) (link_table mem t i ?e) (Suc k)"
      unfolding boot_inv_def
    proof (intro conjI)
      show "reach (link_table mem t i ?e) cr3 510 cr3"
        by (rule reach_link [OF R t p(1,2) fresh]) fact+
      show "extends mem0 (link_table mem t i ?e) cr3 (frame_of base ` {..<Suc k})"
        using extends_link [OF E tree t p(1,2) fresh e(1) False] by (simp add: e(2) lessThan_Suc)
      show "walk (link_table mem t i ?e) cr3 (p @ [i]) \<noteq> None"
        using link_table_walks [OF tree t p(1,2) fresh e(1) False p(1)] p(2) by simp
    qed (use k in simp)
    ultimately show ?thesis by blast
  qed
qed

lemma small_vpath: "small_path (vpath v)"
  by (simp add: vpath_def index_lt)

lemma mappable_take: "mappable p \<Longrightarrow> mappable (take n p)"
  using mappable_prefix [of "take n p" "drop n p"] by simp

text \<open>
  Mapping a page: the entry is written through the table pointer, and the walks of all other pages
  stay.
\<close>

lemma map_entry:
  assumes R: "reach mem cr3 r root" and t: "walk mem root [a, b, c] = Some t"
    and p: "mappable [a, b, c, d]" "small_path [a, b, c, d]"
  shows "tab_write mem cr3 (tab_ptr r [a, b, c]) d e = Inr (mem(t := (mem t)(d := e)))"
    and "walk (mem(t := (mem t)(d := e))) root [a, b, c, d] = (if present e then Some (entry_frame e) else None)"
    and "\<And>q. mappable q \<Longrightarrow> length q \<le> 4 \<Longrightarrow> q \<noteq> [a, b, c, d] \<Longrightarrow>
           walk (mem(t := (mem t)(d := e))) root q = walk mem root q"
proof -
  have s: "slot mem cr3 r root" and tree: "pt_tree mem root" using R by (simp_all add: reach_def)
  have mp: "mappable [a, b, c]" using p(1) by (simp add: mappable_def)
  show "tab_write mem cr3 (tab_ptr r [a, b, c]) d e = Inr (mem(t := (mem t)(d := e)))"
    using walk_tab_ptr [OF s, of "[a, b, c]"] t p by (simp add: tab_write_def)
  show "walk (mem(t := (mem t)(d := e))) root [a, b, c, d] = (if present e then Some (entry_frame e) else None)"
    using walk_write_here [OF tree t mp, of d e] by simp
  show "walk (mem(t := (mem t)(d := e))) root q = walk mem root q"
    if "mappable q" "length q \<le> 4" "q \<noteq> [a, b, c, d]" for q
  proof (rule walk_write_other [OF tree t mp _ that(1,2)])
    show "\<not> prefix ([a, b, c] @ [d]) q"
      using that by (auto simp: prefix_def)
  qed simp
qed

lemma map_entry_tables:
  assumes R: "reach mem cr3 r root" and t: "walk mem root [a, b, c] = Some t"
    and p: "mappable [a, b, c, d]" "small_path [a, b, c, d]"
  shows "is_table (mem(t := (mem t)(d := e))) root u \<longleftrightarrow> is_table mem root u"
    and "reach (mem(t := (mem t)(d := e))) cr3 r root"
proof -
  let ?m = "mem(t := (mem t)(d := e))"
  have W: "walk ?m root q = walk mem root q" if "mappable q" "length q \<le> 3" for q
    using map_entry(3) [OF R t p, of q] that by fastforce
  then have T: "is_table ?m root u \<longleftrightarrow> is_table mem root u" for u
    unfolding is_table_def by metis
  then show "is_table ?m root u \<longleftrightarrow> is_table mem root u" .
  have "pt_tree ?m root"
    using R W unfolding reach_def pt_tree_def by metis
  moreover have "slot ?m cr3 r root"
    using slot_write [OF R t] p by simp
  ultimately show "reach ?m cr3 r root"
    using R T by (auto simp: reach_def)
qed

lemma length_vpath [simp]: "length (vpath v) = 4"
  by (simp add: vpath_def)

text \<open>The leaf entry written once the tables are there, seen from the memory before the call.\<close>

lemma map_leaf:
  fixes e :: u64
  assumes R: "reach mem cr3 r root" and t: "walk mem root [a, b, c] = Some t"
    and p: "mappable [a, b, c, d]" "small_path [a, b, c, d]" and E: "extends mem0 mem root F"
  defines "m \<equiv> mem(t := (mem t)(d := e))"
  shows "walk m root [a, b, c, d] = (if present e then Some (entry_frame e) else None)"
    and "\<And>q. mappable q \<Longrightarrow> length q = 4 \<Longrightarrow> q \<noteq> [a, b, c, d] \<Longrightarrow> walk m root q = walk mem0 root q"
    and "\<And>u. is_table m root u \<longleftrightarrow> is_table mem0 root u \<or> u \<in> F"
    and "\<And>u. \<not> is_table mem0 root u \<Longrightarrow> u \<notin> F \<Longrightarrow> m u = mem0 u"
    and "reach m cr3 r root"
proof -
  note wr = map_entry [where e = e, OF R t p, folded m_def]
  note tabs = map_entry_tables [where e = e, OF R t p, folded m_def]
  show "walk m root [a, b, c, d] = (if present e then Some (entry_frame e) else None)" by (rule wr(2))
  show "walk m root q = walk mem0 root q" if "mappable q" "length q = 4" "q \<noteq> [a, b, c, d]" for q
    using wr(3) [of q] E that by (simp add: extends_def)
  show T: "is_table m root u \<longleftrightarrow> is_table mem0 root u \<or> u \<in> F" for u
    using tabs(1) E by (simp add: extends_def)
  have "is_table mem root t"
    using t p by (auto simp: is_table_def mappable_def intro!: exI [of _ "[a, b, c]"])
  then show "m u = mem0 u" if "\<not> is_table mem0 root u" "u \<notin> F" for u
    using that E by (auto simp: m_def extends_def)
  show "reach m cr3 r root" by (rule tabs(2))
qed

lemma mappable_vpath: "mappable (vpath u) \<longleftrightarrow> indexPML4 u \<noteq> 509 \<and> indexPML4 u \<noteq> 510"
  by (simp add: mappable_def vpath_def)

lemma bootstrap_ptrs:
  "bootstrap cr3 base v maxPages mem =
     (let a = indexPML4 v; b = indexPDPT v; c = indexPageDir v; d = indexPageTable v
      in bindE (bootstrap_level cr3 base (tab_ptr 510 []) a (tab_ptr 510 [a]) (mem, 0)) (\<lambda>s1.
         bindE (bootstrap_level cr3 base (tab_ptr 510 [a]) b (tab_ptr 510 [a, b]) s1) (\<lambda>s2.
         bindE (bootstrap_level cr3 base (tab_ptr 510 [a, b]) c (tab_ptr 510 [a, b, c]) s2) (\<lambda>(mem3, used).
         bindE (tab_write mem3 cr3 (tab_ptr 510 [a, b, c]) d (pt_end base used OR PAGE_WRITE OR PAGE_PRESENT)) (\<lambda>mem4.
         bindE (assertE (used + 1 \<le> maxPages) ''bootstrapUsed <= maxPages'') (\<lambda>_.
           page_zero mem4 cr3 v))))))"
  by (simp add: bootstrap_def Let_def tab_ptr_def)

lemma boot_inv_start:
  "mmu_step mem cr3 510 = Some cr3 \<Longrightarrow> pt_tree mem cr3 \<Longrightarrow> boot_inv mem cr3 base [] mem 0"
  by (simp add: boot_inv_def reach_def slot_def)

lemma bootstrap_tables:
  assumes tree: "pt_tree mem cr3" and self: "mmu_step mem cr3 510 = Some cr3"
    and v: "vpath v = [a, b, c, d]" "mappable (vpath v)"
    and frames: "\<forall>k<4. phys_ok (frame_of base k) \<and> \<not> is_table mem cr3 (frame_of base k)"
  obtains mem3 k where "boot_inv mem cr3 base [a, b, c] mem3 k"
    and "bootstrap cr3 base v maxPages mem =
      bindE (tab_write mem3 cr3 (tab_ptr 510 [a, b, c]) d (frame_of base k OR PAGE_WRITE OR PAGE_PRESENT)) (\<lambda>mem4.
        bindE (assertE (of_nat k + 1 \<le> maxPages) ''bootstrapUsed <= maxPages'') (\<lambda>_. page_zero mem4 cr3 v))"
proof -
  have idx: "indexPML4 v = a" "indexPDPT v = b" "indexPageDir v = c" "indexPageTable v = d"
    using v(1) by (auto simp: vpath_def)
  have m: "mappable [a]" "mappable [a, b]" "mappable [a, b, c]"
    using v by (auto simp: mappable_def)
  have s: "small_path [a, b, c, d]" using small_vpath [of v] v(1) by simp
  obtain m1 k1 where 1: "bootstrap_level cr3 base (tab_ptr 510 []) a (tab_ptr 510 [a]) (mem, of_nat 0) = Inr (m1, of_nat k1)"
    "boot_inv mem cr3 base [a] m1 k1"
    using bootstrap_level_ok [OF boot_inv_start [OF self tree, where base = base], of a] frames m s by auto
  obtain m2 k2 where 2: "bootstrap_level cr3 base (tab_ptr 510 [a]) b (tab_ptr 510 [a, b]) (m1, of_nat k1) = Inr (m2, of_nat k2)"
    "boot_inv mem cr3 base [a, b] m2 k2"
    using bootstrap_level_ok [OF 1(2), of b] frames m s by auto
  obtain m3 k3 where 3: "bootstrap_level cr3 base (tab_ptr 510 [a, b]) c (tab_ptr 510 [a, b, c]) (m2, of_nat k2) = Inr (m3, of_nat k3)"
    "boot_inv mem cr3 base [a, b, c] m3 k3"
    using bootstrap_level_ok [OF 2(2), of c] frames m s by auto
  show thesis
    using that [OF 3(2)] 1(1) 2(1) 3(1) by (simp add: bootstrap_ptrs idx pt_end_frame)
qed

lemma bootstrap_result:
  assumes tree: "pt_tree mem cr3" and self: "mmu_step mem cr3 510 = Some cr3"
    and v: "indexPML4 v \<noteq> 509" "indexPML4 v \<noteq> 510" and max: "4 \<le> maxPages"
    and frames: "\<forall>k<4. phys_ok (frame_of base k) \<and> \<not> is_table mem cr3 (frame_of base k)"
  shows "\<exists>mem' k. bootstrap cr3 base v maxPages mem = Inr mem' \<and> k < 4 \<and>
    mmu_walk mem' cr3 v = Some (frame_of base k) \<and> mem' (frame_of base k) = (\<lambda>_. 0) \<and>
    (\<forall>u. indexPML4 u \<noteq> 509 \<and> indexPML4 u \<noteq> 510 \<and> vpath u \<noteq> vpath v \<longrightarrow>
       mmu_walk mem' cr3 u = mmu_walk mem cr3 u) \<and>
    (\<forall>t. \<not> is_table mem cr3 t \<and> (\<forall>j<4. t \<noteq> frame_of base j) \<longrightarrow> mem' t = mem t)"
proof -
  obtain a b c d where abcd: "vpath v = [a, b, c, d]" by (simp add: vpath_def)
  have mv: "mappable (vpath v)" using v by (simp add: mappable_vpath)
  obtain mem3 k where inv: "boot_inv mem cr3 base [a, b, c] mem3 k"
    and eq: "bootstrap cr3 base v maxPages mem =
      bindE (tab_write mem3 cr3 (tab_ptr 510 [a, b, c]) d (frame_of base k OR PAGE_WRITE OR PAGE_PRESENT)) (\<lambda>mem4.
        bindE (assertE (of_nat k + 1 \<le> maxPages) ''bootstrapUsed <= maxPages'') (\<lambda>_. page_zero mem4 cr3 v))"
    using bootstrap_tables [OF tree self abcd mv frames] by metis
  let ?f = "frame_of base k" and ?e = "frame_of base k OR PAGE_WRITE OR PAGE_PRESENT"
  from inv obtain t where t: "walk mem3 cr3 [a, b, c] = Some t"
    and R: "reach mem3 cr3 510 cr3" and E: "extends mem mem3 cr3 (frame_of base ` {..<k})" and k: "k < 4"
    by (fastforce simp: boot_inv_def)
  let ?m4 = "mem3(t := (mem3 t)(d := ?e))"
  have M: "mappable [a, b, c, d]" "small_path [a, b, c, d]" using mv small_vpath [of v] abcd by simp_all
  note leaf = map_leaf [where e = ?e, OF R t M E]
  have w4: "mmu_walk ?m4 cr3 v = Some ?f"
    using leaf(1) boot_entry [of ?f] frames k by (simp add: mmu_walk_path abcd)
  have "of_nat k + 1 \<le> maxPages"
    using k max by (auto simp: word_le_nat_alt unat_word_ariths unat_of_nat take_bit_nat_eq_self)
  then have res: "bootstrap cr3 base v maxPages mem = Inr (?m4(?f := \<lambda>_. 0))"
    unfolding eq map_entry(1) [OF R t M] using w4 by (simp add: page_zero_def)
  have nf: "?f \<notin> frame_of base ` {..<k}" using k frame_of_inj by fastforce
  then have fresh: "\<not> is_table ?m4 cr3 ?f" using leaf(3) frames k by simp
  have W: "mmu_walk (?m4(?f := \<lambda>_. 0)) cr3 u = mmu_walk ?m4 cr3 u" if "mappable (vpath u)" for u
    unfolding mmu_walk_path by (rule walk_fresh_page [OF fresh that]) simp
  moreover have "mmu_walk ?m4 cr3 u = mmu_walk mem cr3 u" if "mappable (vpath u)" "vpath u \<noteq> vpath v" for u
    unfolding mmu_walk_path by (rule leaf(2)) (use that abcd in simp_all)
  moreover have "(?m4(?f := \<lambda>_. 0)) u = mem u" if u: "\<not> is_table mem cr3 u" "\<forall>j<4. u \<noteq> frame_of base j" for u
  proof -
    have "u \<notin> frame_of base ` {..<k}" "u \<noteq> ?f" using u(2) k by (metis imageE lessThan_iff order_less_trans)+
    then show ?thesis using leaf(4) [OF u(1)] by simp
  qed
  ultimately show ?thesis
    by (intro exI [of _ "?m4(?f := \<lambda>_. 0)"] exI [of _ k] conjI)
      (use res k mv w4 in \<open>simp_all add: mappable_vpath\<close>)
qed

section \<open>Properties\<close>

text \<open>
  C10: The recursive mapping is right: when slot \<open>r\<close> (510 for the current address space, 509 for
  another one) leads to \<open>root\<close> and \<open>root\<close> maps itself there, the pointers \<^verbatim>\<open>getPML4\<close>,
  \<^verbatim>\<open>getPDPT\<close>, \<^verbatim>\<open>getPDir\<close> and \<^verbatim>\<open>getPTab\<close> computed for the indices of any address translate to
  exactly the four tables the processor visits when it translates that address under \<open>root\<close>.
\<close>

theorem recursive_pointers_reach_tables:
  assumes "slot mem cr3 r root"
  shows "mmu_walk mem cr3 (getPML4 r) = Some root \<and>
    mmu_walk mem cr3 (getPDPT r (indexPML4 v)) = mmu_step mem root (indexPML4 v) \<and>
    mmu_walk mem cr3 (getPDir r (indexPML4 v) (indexPDPT v)) =
      Option.bind (mmu_step mem root (indexPML4 v)) (\<lambda>pdpt. mmu_step mem pdpt (indexPDPT v)) \<and>
    mmu_walk mem root v =
      Option.bind (mmu_walk mem cr3 (getPTab r (indexPML4 v) (indexPDPT v) (indexPageDir v)))
        (\<lambda>ptab. mmu_step mem ptab (indexPageTable v))"
proof -
  note W = walk_tab_ptr [OF assms]
  have "mmu_walk mem root v =
      Option.bind (walk mem root [indexPML4 v, indexPDPT v, indexPageDir v]) (\<lambda>t. mmu_step mem t (indexPageTable v))"
    by (simp add: mmu_walk_def Option.bind_assoc)
  then show ?thesis
    using W [of "[]"] W [of "[indexPML4 v]"] W [of "[indexPML4 v, indexPDPT v]"]
      W [of "[indexPML4 v, indexPDPT v, indexPageDir v]"]
    by (simp add: index_lt tab_ptr_def)
qed

lemma all_less_4: "(\<forall>k<4. P k) \<longleftrightarrow> P 0 \<and> P 1 \<and> P 2 \<and> P (3::nat)"
  by (auto simp: numeral_eq_Suc less_Suc_eq)

definition pt_demo :: physmem where
  "pt_demo = (\<lambda>_ _. 0)(0x1000 := (\<lambda>_. 0)(510 := 0x1003))"

lemma pt_demo_step: "mmu_step pt_demo 0x1000 i = (if i = 510 then Some 0x1000 else None)"
  by (simp add: mmu_step_def pt_demo_def present_def PAGE_PRESENT_def entry_frame_def)

lemma pt_demo_walk: "mappable p \<Longrightarrow> walk pt_demo 0x1000 p = Some t \<longleftrightarrow> p = [] \<and> t = 0x1000"
  by (cases p) (auto simp: pt_demo_step mappable_def)

lemma pt_demo_tree: "pt_tree pt_demo 0x1000"
  unfolding pt_tree_def by (metis pt_demo_walk)

lemma pt_demo_is_table: "is_table pt_demo 0x1000 t \<longleftrightarrow> t = 0x1000"
  unfolding is_table_def using pt_demo_walk by (auto simp: mappable_def intro!: exI [of _ "[]"])

lemma pt_demo_frames: "\<forall>k<4. phys_ok (frame_of 0x10000 k) \<and> \<not> is_table pt_demo 0x1000 (frame_of 0x10000 k)"
  by (simp add: pt_demo_is_table frame_of_def phys_ok_def entry_frame_def PAGE_SIZE_def all_less_4)

theorem recursive_pointers_reach_tables_witness:
  "mmu_walk pt_demo 0x1000 (getPML4 510) = Some 0x1000 \<and> mmu_walk pt_demo 0x1000 (getPDPT 510 511) = None"
  using recursive_pointers_reach_tables [of pt_demo "0x1000" 510 "0x1000" "0xFFFFFFFFF7F00000"]
  by (simp add: slot_def pt_demo_step indexPML4_def)

text \<open>
  C11: The four indices and \<^verbatim>\<open>indexToAddr\<close> are inverse to each other: an address of the lower half
  is the sum of its indices times the table sizes, and the indices of such a sum are its parts.
\<close>

theorem indexToAddr_round_trip:
  "(unat a < 512 \<and> unat b < 512 \<and> unat c < 512 \<and> unat d < 512 \<longrightarrow>
      vpath (indexToAddr a b c d) = [a, b, c, d]) \<and>
   (isPageAligned v \<and> unat v < 2 ^ 48 \<longrightarrow>
      indexToAddr (indexPML4 v) (indexPDPT v) (indexPageDir v) (indexPageTable v) = v)"
  using indexToAddr_inverse [of a b c d] indexToAddr_of_indices [of v] by (simp add: vpath_def)

theorem indexToAddr_round_trip_witness:
  "vpath (indexToAddr 1 2 3 4) = [1, 2, 3, 4] \<and>
   indexToAddr (indexPML4 0x401000) (indexPDPT 0x401000) (indexPageDir 0x401000) (indexPageTable 0x401000) = 0x401000"
  using indexToAddr_round_trip [of 1 2 3 4 "0x401000"]
  by (simp add: isPageAligned_dvd)

text \<open>
  C12: \<^verbatim>\<open>bootstrap\<close> maps exactly one page. With four reserved pages that are not tables it never
  faults or trips its assertion; afterwards \<open>v\<close> translates to one of the reserved pages, which is
  cleared, every other page translates as before, and no page but the reserved ones and the
  tables already there has changed.
\<close>

theorem bootstrap_maps_one_page:
  assumes tree: "pt_tree mem cr3" and self: "mmu_step mem cr3 510 = Some cr3"
    and v: "indexPML4 v \<noteq> 509" "indexPML4 v \<noteq> 510" and max: "4 \<le> maxPages"
    and frames: "\<forall>k<4. phys_ok (frame_of base k) \<and> \<not> is_table mem cr3 (frame_of base k)"
  shows "\<exists>mem' k. bootstrap cr3 base v maxPages mem = Inr mem' \<and> k < 4 \<and>
    mmu_walk mem' cr3 v = Some (frame_of base k) \<and> mem' (frame_of base k) = (\<lambda>_. 0) \<and>
    (\<forall>u. indexPML4 u \<noteq> 509 \<and> indexPML4 u \<noteq> 510 \<and> vpath u \<noteq> vpath v \<longrightarrow>
       mmu_walk mem' cr3 u = mmu_walk mem cr3 u) \<and>
    (\<forall>t. \<not> is_table mem cr3 t \<and> (\<forall>j<4. t \<noteq> frame_of base j) \<longrightarrow> mem' t = mem t)"
  by (rule bootstrap_result [OF assms])

theorem bootstrap_maps_one_page_witness:
  "\<exists>mem' k. bootstrap 0x1000 0x10000 0xFFFFFFFFF7F00000 8 pt_demo = Inr mem' \<and> k < 4 \<and>
    mmu_walk mem' 0x1000 0xFFFFFFFFF7F00000 = Some (frame_of 0x10000 k) \<and>
    mem' (frame_of 0x10000 k) = (\<lambda>_. 0)"
proof -
  show ?thesis
    using bootstrap_maps_one_page [of pt_demo "0x1000" "0xFFFFFFFFF7F00000" 8 "0x10000"] pt_demo_frames
    by (simp add: pt_demo_tree pt_demo_step indexPML4_def) blast
qed

end
