(* ===== verification/Hashmap.thy ===== *)
theory Hashmap
  imports Prelude "HOL-Library.Multiset"
begin

text \<open>
  The chained hash map \<^verbatim>\<open>krt::bucket_hashmap\<close> of
  \<^verbatim>\<open>libs/libkrt/include/krt/types/impl/bucket_hashmap.h\<close>. The bucket array is a list of chains
  (\<open>None\<close> while \<^verbatim>\<open>ptr\<close> is null), a chain the list of its (key, value) nodes from the head; an
  iterator is the bucket and the position of its node in the chain, \<open>None\<close> for \<^verbatim>\<open>end()\<close>. The
  template's hasher is the argument \<open>h\<close>. Node and array allocation succeeds, and \<^verbatim>\<open>allocate(0)\<close>
  is null.
\<close>

section \<open>State and operations\<close>

record ('k, 'v) hashmap =
  hm_ptr :: "('k \<times> 'v) list list option"
  hm_cnt :: u64
  hm_numBuckets :: u64

type_synonym hm_iterator = "(u64 \<times> nat) option"

definition hm_new :: "('k, 'v) hashmap" where
  "hm_new = \<lparr>hm_ptr = None, hm_cnt = 0, hm_numBuckets = 0\<rparr>"

definition STARTING_SIZE :: u64 where
  "STARTING_SIZE = 16"

definition indexForKey :: "('k \<Rightarrow> u64) \<Rightarrow> 'k \<Rightarrow> u64 \<Rightarrow> u64" where
  "indexForKey h key len = h key mod len"

fun chain_find :: "'k \<Rightarrow> ('k \<times> 'v) list \<Rightarrow> nat option" where
  "chain_find key [] = None"
| "chain_find key (n # ns) = (if fst n = key then Some 0 else map_option Suc (chain_find key ns))"

definition hm_find :: "('k \<Rightarrow> u64) \<Rightarrow> 'k \<Rightarrow> ('k, 'v) hashmap \<Rightarrow> hm_iterator" where
  "hm_find h key m =
     (case hm_ptr m of
        None \<Rightarrow> None
      | Some bs \<Rightarrow> let idx = indexForKey h key (hm_numBuckets m)
                  in map_option (Pair idx) (chain_find key (bs ! unat idx)))"

definition hm_node :: "('k, 'v) hashmap \<Rightarrow> u64 \<times> nat \<Rightarrow> 'k \<times> 'v" where
  "hm_node m it = (the (hm_ptr m) ! unat (fst it)) ! snd it"

definition hm_at :: "('k \<Rightarrow> u64) \<Rightarrow> 'k \<Rightarrow> ('k, 'v) hashmap \<Rightarrow> 'v option" where
  "hm_at h key m = map_option (\<lambda>it. snd (hm_node m it)) (hm_find h key m)"

definition hm_contains :: "('k \<Rightarrow> u64) \<Rightarrow> 'k \<Rightarrow> ('k, 'v) hashmap \<Rightarrow> bool" where
  "hm_contains h key m \<longleftrightarrow> hm_find h key m \<noteq> None"

text \<open>\<^verbatim>\<open>__internal_begin\<close>, \<^verbatim>\<open>operator ++\<close> and the order in which they visit the nodes.\<close>

fun first_bucket :: "('k \<times> 'v) list list \<Rightarrow> nat \<Rightarrow> hm_iterator" where
  "first_bucket [] i = None"
| "first_bucket (b # bs) i = (if b \<noteq> [] then Some (of_nat i, 0) else first_bucket bs (Suc i))"

definition hm_begin :: "('k, 'v) hashmap \<Rightarrow> hm_iterator" where
  "hm_begin m = (case hm_ptr m of None \<Rightarrow> None | Some bs \<Rightarrow> first_bucket bs 0)"

definition hm_next :: "('k, 'v) hashmap \<Rightarrow> u64 \<times> nat \<Rightarrow> hm_iterator" where
  "hm_next m it =
     (let bs = the (hm_ptr m); (b, i) = it
      in if Suc i < length (bs ! unat b) then Some (b, Suc i)
         else first_bucket (drop (Suc (unat b)) bs) (Suc (unat b)))"

definition hm_nodes :: "('k, 'v) hashmap \<Rightarrow> ('k \<times> 'v) list" where
  "hm_nodes m = (case hm_ptr m of None \<Rightarrow> [] | Some bs \<Rightarrow> concat bs)"

definition insert_internal ::
  "('k \<Rightarrow> u64) \<Rightarrow> u64 \<Rightarrow> 'k \<times> 'v \<Rightarrow> ('k \<times> 'v) list list \<Rightarrow> ('k \<times> 'v) list list" where
  "insert_internal h cap node bs =
     (let idx = unat (indexForKey h (fst node) cap) in bs[idx := node # bs ! idx])"

definition nextSize :: "u64 \<Rightarrow> u64" where
  "nextSize n = (if n = 0 then STARTING_SIZE else n * 2)"

definition prevSize :: "u64 \<Rightarrow> u64" where
  "prevSize n = n div 2"

definition ensure_cap :: "('k, 'v) hashmap \<Rightarrow> u64" where
  "ensure_cap m =
     (if hm_numBuckets m * 2 div 3 \<le> hm_cnt m then nextSize (hm_numBuckets m)
      else if STARTING_SIZE < hm_numBuckets m \<and> hm_cnt m \<le> hm_numBuckets m * 1 div 5
      then prevSize (hm_numBuckets m)
      else hm_numBuckets m)"

definition ensureSize :: "('k \<Rightarrow> u64) \<Rightarrow> ('k, 'v) hashmap \<Rightarrow> ('k, 'v) hashmap" where
  "ensureSize h m =
     (let newcap = ensure_cap m
      in if newcap \<noteq> hm_numBuckets m
         then m\<lparr>hm_ptr := Some (fold (insert_internal h newcap) (hm_nodes m) (replicate (unat newcap) [])),
                hm_numBuckets := newcap\<rparr>
         else m)"

definition hm_insert :: "('k \<Rightarrow> u64) \<Rightarrow> 'k \<Rightarrow> 'v \<Rightarrow> ('k, 'v) hashmap \<Rightarrow> ('k, 'v) hashmap" where
  "hm_insert h key v m =
     (let m' = ensureSize h m
      in m'\<lparr>hm_ptr := Some (insert_internal h (hm_numBuckets m') (key, v) (the (hm_ptr m'))),
            hm_cnt := hm_cnt m' + 1\<rparr>)"

text \<open>
  \<^verbatim>\<open>operator []\<close> returns a reference: reading through it is \<open>hm_subscript\<close>, which inserts a default
  value for an absent key, and assigning through it is \<open>hm_assign\<close>.
\<close>

definition hm_subscript ::
  "('k \<Rightarrow> u64) \<Rightarrow> 'v \<Rightarrow> 'k \<Rightarrow> ('k, 'v) hashmap \<Rightarrow> 'v \<times> ('k, 'v) hashmap" where
  "hm_subscript h dflt key m =
     (case hm_find h key m of
        Some it \<Rightarrow> (snd (hm_node m it), m)
      | None \<Rightarrow> (dflt, hm_insert h key dflt m))"

definition hm_store :: "u64 \<times> nat \<Rightarrow> 'v \<Rightarrow> ('k, 'v) hashmap \<Rightarrow> ('k, 'v) hashmap" where
  "hm_store it v m =
     (let bs = the (hm_ptr m); b = bs ! unat (fst it)
      in m\<lparr>hm_ptr := Some (bs[unat (fst it) := b[snd it := (fst (b ! snd it), v)]])\<rparr>)"

definition hm_assign :: "('k \<Rightarrow> u64) \<Rightarrow> 'v \<Rightarrow> 'k \<Rightarrow> 'v \<Rightarrow> ('k, 'v) hashmap \<Rightarrow> ('k, 'v) hashmap" where
  "hm_assign h dflt key v m =
     (case hm_find h key m of
        Some it \<Rightarrow> hm_store it v m
      | None \<Rightarrow> let m' = hm_insert h key dflt m
                in hm_store (indexForKey h key (hm_numBuckets m'), 0) v m')"

definition hm_erase :: "hm_iterator \<Rightarrow> ('k, 'v) hashmap \<Rightarrow> ('k, 'v) hashmap res" where
  "hm_erase it m =
     (case it of
        None \<Rightarrow> Inl (Abort ''trying to erase invalid iterator'')
      | Some (b, i) \<Rightarrow>
          if hm_numBuckets m \<le> b then Inl (Abort ''trying to erase invalid iterator'')
          else let bs = the (hm_ptr m); c = bs ! unat b
               in if c = [] then Inl (Abort ''no node at bucket'')
                  else Inr (m\<lparr>hm_ptr := Some (bs[unat b := take i c @ drop (Suc i) c]),
                              hm_cnt := hm_cnt m - 1\<rparr>))"

definition hm_remove :: "('k \<Rightarrow> u64) \<Rightarrow> 'k \<Rightarrow> ('k, 'v) hashmap \<Rightarrow> (bool \<times> ('k, 'v) hashmap) res" where
  "hm_remove h key m =
     (case hm_find h key m of
        None \<Rightarrow> Inr (False, m)
      | it \<Rightarrow> bindE (hm_erase it m) (\<lambda>m'. Inr (True, m')))"

definition hm_clear :: "('k \<Rightarrow> u64) \<Rightarrow> ('k, 'v) hashmap \<Rightarrow> ('k, 'v) hashmap" where
  "hm_clear h m =
     ensureSize h (m\<lparr>hm_ptr := map_option (map (\<lambda>_. [])) (hm_ptr m), hm_cnt := 0\<rparr>)"

definition hm_copy :: "('k, 'v) hashmap \<Rightarrow> ('k, 'v) hashmap" where
  "hm_copy m =
     \<lparr>hm_ptr = (if hm_numBuckets m = 0 then None else hm_ptr m),
      hm_cnt = hm_cnt m, hm_numBuckets = hm_numBuckets m\<rparr>"

definition hm_size :: "('k, 'v) hashmap \<Rightarrow> u64" where
  "hm_size m = hm_cnt m"

definition hm_empty :: "('k, 'v) hashmap \<Rightarrow> bool" where
  "hm_empty m \<longleftrightarrow> hm_cnt m = 0"

section \<open>Invariant and abstraction\<close>

text \<open>Every node sits in the bucket of its key, and no key has two nodes.\<close>

definition buckets_ok :: "('k \<Rightarrow> u64) \<Rightarrow> u64 \<Rightarrow> ('k \<times> 'v) list list \<Rightarrow> bool" where
  "buckets_ok h cap bs \<longleftrightarrow>
     length bs = unat cap \<and> 0 < cap \<and>
     (\<forall>i<length bs. distinct (map fst (bs ! i)) \<and> (\<forall>e\<in>set (bs ! i). unat (indexForKey h (fst e) cap) = i))"

definition hm_wf :: "('k \<Rightarrow> u64) \<Rightarrow> ('k, 'v) hashmap \<Rightarrow> bool" where
  "hm_wf h m \<longleftrightarrow>
     (case hm_ptr m of
        None \<Rightarrow> hm_numBuckets m = 0 \<and> hm_cnt m = 0
      | Some bs \<Rightarrow> buckets_ok h (hm_numBuckets m) bs \<and> 16 \<le> hm_numBuckets m \<and>
                  (\<exists>k. unat (hm_numBuckets m) = 2 ^ k) \<and> unat (hm_cnt m) = length (concat bs))"

definition hm_map :: "('k \<Rightarrow> u64) \<Rightarrow> ('k, 'v) hashmap \<Rightarrow> 'k \<rightharpoonup> 'v" where
  "hm_map h m key =
     (case hm_ptr m of None \<Rightarrow> None
                     | Some bs \<Rightarrow> map_of (bs ! unat (indexForKey h key (hm_numBuckets m))) key)"

text \<open>Room for one more doubling of the bucket array.\<close>

definition hm_room :: "('k, 'v) hashmap \<Rightarrow> bool" where
  "hm_room m \<longleftrightarrow> unat (hm_numBuckets m) < 2 ^ 62"

lemma chain_find_None: "chain_find key c = None \<longleftrightarrow> map_of c key = None"
  by (induction c) (auto split: if_splits)

lemma chain_find_Some:
  "chain_find key c = Some i \<Longrightarrow> i < length c \<and> fst (c ! i) = key \<and> map_of c key = Some (snd (c ! i))"
  by (induction c arbitrary: i) (auto split: if_splits)

lemma indexForKey_lt: "0 < cap \<Longrightarrow> unat (indexForKey h key cap) < unat cap"
  by (simp add: indexForKey_def unat_mod word_less_nat_alt)

lemma hm_find_map: "hm_find h key m = None \<longleftrightarrow> hm_map h m key = None"
  by (simp add: hm_find_def hm_map_def chain_find_None Let_def split: option.splits)

lemma hm_at_map: "hm_at h key m = hm_map h m key"
proof (cases "hm_ptr m")
  case (Some bs)
  let ?c = "bs ! unat (indexForKey h key (hm_numBuckets m))"
  show ?thesis
    using Some chain_find_None [of key ?c] chain_find_Some [of key ?c]
    by (cases "chain_find key ?c") (auto simp: hm_at_def hm_find_def hm_map_def hm_node_def Let_def)
qed (simp add: hm_at_def hm_find_def hm_map_def)

definition buckets_map :: "('k \<Rightarrow> u64) \<Rightarrow> u64 \<Rightarrow> ('k \<times> 'v) list list \<Rightarrow> 'k \<rightharpoonup> 'v" where
  "buckets_map h cap bs key = map_of (bs ! unat (indexForKey h key cap)) key"

lemma buckets_okD:
  assumes "buckets_ok h cap bs"
  shows "length bs = unat cap" "0 < cap" "unat (indexForKey h key cap) < length bs"
    and "i < length bs \<Longrightarrow> distinct (map fst (bs ! i))"
    and "i < length bs \<Longrightarrow> e \<in> set (bs ! i) \<Longrightarrow> unat (indexForKey h (fst e) cap) = i"
  using assms indexForKey_lt [of cap h key] by (auto simp: buckets_ok_def)

lemma concat_elem: "x \<in> set (concat bs) \<longleftrightarrow> (\<exists>i<length bs. x \<in> set (bs ! i))"
  by (metis in_set_conv_nth set_concat UN_iff)

text \<open>In a well-formed array the map is that of the list of all nodes.\<close>

lemma buckets_map_elem:
  assumes "buckets_ok h cap bs"
  shows "buckets_map h cap bs key = Some v \<longleftrightarrow> (key, v) \<in> set (concat bs)"
proof
  note ok = buckets_okD [OF assms]
  let ?i = "unat (indexForKey h key cap)"
  assume "buckets_map h cap bs key = Some v"
  then have "(key, v) \<in> set (bs ! ?i)" by (auto simp: buckets_map_def dest: map_of_SomeD)
  then show "(key, v) \<in> set (concat bs)" using ok(3) by auto
next
  note ok = buckets_okD [OF assms]
  assume "(key, v) \<in> set (concat bs)"
  then obtain i where i: "i < length bs" "(key, v) \<in> set (bs ! i)"
    by (auto simp only: concat_elem)
  with ok(5) [of i "(key, v)"] ok(4) show "buckets_map h cap bs key = Some v"
    by (simp add: buckets_map_def)
qed

lemma buckets_distinct:
  assumes "buckets_ok h cap bs"
  shows "distinct (map fst (concat bs))"
proof -
  note ok = buckets_okD [OF assms]
  have "distinct (map fst (concat (take n bs)))" if "n \<le> length bs" for n
    using that
  proof (induction n)
    case (Suc n)
    have "fst a \<noteq> fst b" if ab: "a \<in> set (concat (take n bs))" "b \<in> set (bs ! n)" for a b
    proof -
      obtain j where "j < n" "a \<in> set (bs ! j)"
        using ab(1) Suc.prems unfolding concat_elem by auto
      with ok(5) [of j a] ok(5) [of n b] ab(2) Suc.prems show ?thesis by fastforce
    qed
    with Suc ok(4) [of n] show ?case
      by (fastforce simp: take_Suc_conv_app_nth)
  qed simp
  from this [of "length bs"] show ?thesis by simp
qed

lemma length_concat_update:
  "i < length bs \<Longrightarrow> length (concat (bs[i := c])) + length (bs ! i) = length (concat bs) + length c"
  by (induction bs arbitrary: i) (auto split: nat.splits)

lemma insert_internal_ok:
  assumes "buckets_ok h cap bs" and "buckets_map h cap bs (fst n) = None"
  shows "buckets_ok h cap (insert_internal h cap n bs)"
    and "buckets_map h cap (insert_internal h cap n bs) = (buckets_map h cap bs)(fst n \<mapsto> snd n)"
    and "length (concat (insert_internal h cap n bs)) = Suc (length (concat bs))"
proof -
  note ok = buckets_okD [OF assms(1)]
  let ?i = "unat (indexForKey h (fst n) cap)"
  have new: "fst n \<notin> fst ` set (bs ! ?i)"
    using assms(2) by (simp add: buckets_map_def map_of_eq_None_iff)
  show "buckets_ok h cap (insert_internal h cap n bs)"
    using assms(1) new ok(3)
    by (auto simp: buckets_ok_def insert_internal_def Let_def nth_list_update)
  show "buckets_map h cap (insert_internal h cap n bs) = (buckets_map h cap bs)(fst n \<mapsto> snd n)"
    using ok(3) by (auto simp: buckets_map_def insert_internal_def Let_def nth_list_update fun_eq_iff)
  show "length (concat (insert_internal h cap n bs)) = Suc (length (concat bs))"
    using length_concat_update [OF ok(3) [of "fst n"], of "n # bs ! ?i"]
    by (simp add: insert_internal_def Let_def)
qed

lemma rehash_ok:
  assumes "buckets_ok h cap bs" and "distinct (map fst ns)" and "\<forall>n\<in>set ns. buckets_map h cap bs (fst n) = None"
  shows "buckets_ok h cap (fold (insert_internal h cap) ns bs) \<and>
     buckets_map h cap (fold (insert_internal h cap) ns bs) = buckets_map h cap bs ++ map_of ns \<and>
     length (concat (fold (insert_internal h cap) ns bs)) = length (concat bs) + length ns"
  using assms
proof (induction ns arbitrary: bs)
  case (Cons n ns)
  note ins = insert_internal_ok [OF Cons.prems(1), of n]
  have "fst k \<noteq> fst n" if "k \<in> set ns" for k
    using Cons.prems(2) that by (metis distinct.simps(2) image_eqI list.set_map list.simps(9))
  then have "\<forall>k\<in>set ns. buckets_map h cap (insert_internal h cap n bs) (fst k) = None"
    using ins(2) Cons.prems by auto
  moreover have "map_of ns (fst n) = None"
    using Cons.prems(2) by (simp add: map_of_eq_None_iff)
  then have eq: "buckets_map h cap bs ++ map_of (n # ns) = (buckets_map h cap bs)(fst n \<mapsto> snd n) ++ map_of ns"
    by (auto simp: fun_eq_iff map_add_def split: option.splits)
  ultimately have IH: "buckets_ok h cap (fold (insert_internal h cap) ns (insert_internal h cap n bs)) \<and>
     buckets_map h cap (fold (insert_internal h cap) ns (insert_internal h cap n bs)) =
       buckets_map h cap (insert_internal h cap n bs) ++ map_of ns \<and>
     length (concat (fold (insert_internal h cap) ns (insert_internal h cap n bs))) =
       length (concat (insert_internal h cap n bs)) + length ns"
    using Cons.IH [OF ins(1)] Cons.prems by simp
  have none: "buckets_map h cap bs (fst n) = None" using Cons.prems(3) by simp
  from IH show ?case
    unfolding eq ins(2) [OF none, symmetric] using ins(3) [OF none] by simp
qed simp

lemma hm_wf_Some:
  assumes "hm_wf h m" "hm_ptr m = Some bs"
  shows "buckets_ok h (hm_numBuckets m) bs" "16 \<le> hm_numBuckets m" "\<exists>k. unat (hm_numBuckets m) = 2 ^ k"
    "unat (hm_cnt m) = length (concat bs)"
  using assms by (auto simp: hm_wf_def)

lemma hm_map_buckets: "hm_ptr m = Some bs \<Longrightarrow> hm_map h m = buckets_map h (hm_numBuckets m) bs"
  by (simp add: hm_map_def buckets_map_def fun_eq_iff)

lemma option_eqI: "(\<And>v. a = Some v \<longleftrightarrow> b = Some v) \<Longrightarrow> a = b"
  by (cases a; cases b) auto

lemma hm_nodes_map: "hm_wf h m \<Longrightarrow> map_of (hm_nodes m) = hm_map h m"
proof (cases "hm_ptr m")
  case (Some bs)
  assume wf: "hm_wf h m"
  note b = hm_wf_Some(1) [OF wf Some]
  show ?thesis
  proof
    fix key show "map_of (hm_nodes m) key = hm_map h m key"
      unfolding hm_map_buckets [OF Some] hm_nodes_def
      using Some buckets_map_elem [OF b, of key] map_of_eq_Some_iff [OF buckets_distinct [OF b], of key]
      by (intro option_eqI) simp
  qed
qed (simp add: hm_nodes_def hm_map_def fun_eq_iff)

lemma hm_nodes_wf: "hm_wf h m \<Longrightarrow> distinct (map fst (hm_nodes m)) \<and> unat (hm_cnt m) = length (hm_nodes m)"
  by (auto simp: hm_wf_def hm_nodes_def buckets_distinct split: option.splits)

lemma empty_buckets_ok: "0 < cap \<Longrightarrow> buckets_ok h cap (replicate (unat cap) [])"
  by (simp add: buckets_ok_def)

lemma empty_buckets_map: "0 < cap \<Longrightarrow> buckets_map h cap (replicate (unat cap) []) = Map.empty"
  by (simp add: buckets_map_def fun_eq_iff indexForKey_lt)

lemma ensure_cap_ok:
  assumes "hm_wf h m" "hm_room m"
  shows "16 \<le> ensure_cap m \<and> (\<exists>k. unat (ensure_cap m) = 2 ^ k)"
proof (cases "hm_ptr m")
  case None
  with assms show ?thesis
    by (auto simp: hm_wf_def ensure_cap_def nextSize_def STARTING_SIZE_def intro: exI [of _ 4])
next
  case (Some bs)
  note wf = hm_wf_Some [OF assms(1) Some]
  obtain k where k: "unat (hm_numBuckets m) = 2 ^ k" using wf(3) by blast
  have n16: "16 \<le> unat (hm_numBuckets m)" using wf(2) by (simp add: word_le_nat_alt)
  have "unat (hm_numBuckets m * 2) = unat (hm_numBuckets m) * 2"
    using assms(2) by (subst unat_mul_nowrap) (simp_all add: hm_room_def)
  then have up: "16 \<le> hm_numBuckets m * 2 \<and> (\<exists>j. unat (hm_numBuckets m * 2) = 2 ^ j)"
    using n16 k by (auto simp: word_le_nat_alt intro!: exI [of _ "Suc k"])
  have down: "16 \<le> hm_numBuckets m div 2 \<and> (\<exists>j. unat (hm_numBuckets m div 2) = 2 ^ j)"
    if "16 < hm_numBuckets m"
  proof -
    have "(2::nat) ^ 4 < 2 ^ k" using that k by (simp add: word_less_nat_alt)
    then have "4 < k" by (simp only: power_strict_increasing_iff)
    then obtain j where j: "k = Suc j" "4 \<le> j" by (cases k) auto
    have "(2::nat) ^ 4 \<le> 2 ^ j" using j(2) by (intro power_increasing) auto
    then show ?thesis using j k by (auto simp: word_le_nat_alt unat_div)
  qed
  show ?thesis
    using up down wf(2,3) n16 by (auto simp: ensure_cap_def nextSize_def prevSize_def STARTING_SIZE_def)
qed

lemma ensureSize_ok:
  assumes "hm_wf h m" "hm_room m"
  shows "hm_wf h (ensureSize h m)" "hm_map h (ensureSize h m) = hm_map h m"
    "hm_cnt (ensureSize h m) = hm_cnt m" "hm_ptr (ensureSize h m) \<noteq> None"
proof -
  let ?c = "ensure_cap m" and ?bs = "fold (insert_internal h (ensure_cap m)) (hm_nodes m) (replicate (unat (ensure_cap m)) [])"
  note cap = ensure_cap_ok [OF assms]
  then have pos: "0 < ?c" by (auto simp: word_less_nat_alt word_le_nat_alt)
  note nodes = hm_nodes_wf [OF assms(1)]
  have re: "buckets_ok h ?c ?bs" "buckets_map h ?c ?bs = hm_map h m" "length (concat ?bs) = unat (hm_cnt m)"
    using rehash_ok [OF empty_buckets_ok [OF pos], of "hm_nodes m" h] nodes
    by (simp_all add: empty_buckets_map [OF pos] hm_nodes_map [OF assms(1)])
  have "hm_wf h (ensureSize h m) \<and> hm_map h (ensureSize h m) = hm_map h m \<and>
      hm_cnt (ensureSize h m) = hm_cnt m \<and> hm_ptr (ensureSize h m) \<noteq> None"
  proof (cases "?c = hm_numBuckets m")
    case True
    then have "hm_ptr m \<noteq> None" using assms(1) cap by (cases "hm_ptr m") (auto simp: hm_wf_def)
    with True assms(1) show ?thesis by (simp add: ensureSize_def)
  next
    case False
    let ?m = "m\<lparr>hm_ptr := Some ?bs, hm_numBuckets := ?c\<rparr>"
    have "ensureSize h m = ?m" using False by (simp add: ensureSize_def Let_def)
    moreover have "hm_wf h ?m" using re cap by (simp add: hm_wf_def)
    moreover have "hm_map h ?m = hm_map h m" using re(2) by (simp add: hm_map_buckets)
    ultimately show ?thesis by simp
  qed
  then show "hm_wf h (ensureSize h m)" "hm_map h (ensureSize h m) = hm_map h m"
    "hm_cnt (ensureSize h m) = hm_cnt m" "hm_ptr (ensureSize h m) \<noteq> None" by auto
qed

text \<open>The count cannot wrap: there are far fewer nodes than \<open>2 ^ 64\<close>.\<close>

definition hm_count_ok :: "('k, 'v) hashmap \<Rightarrow> bool" where
  "hm_count_ok m \<longleftrightarrow> unat (hm_cnt m) < 2 ^ 64 - 1"

lemma hm_insert_ok:
  assumes "hm_wf h m" "hm_room m" "hm_count_ok m" "hm_map h m key = None"
  shows "hm_wf h (hm_insert h key v m)" "hm_map h (hm_insert h key v m) = (hm_map h m)(key \<mapsto> v)"
    and "hm_cnt (hm_insert h key v m) = hm_cnt m + 1"
proof -
  note en = ensureSize_ok [OF assms(1,2)]
  let ?m = "ensureSize h m"
  obtain bs where bs: "hm_ptr ?m = Some bs" using en(4) by blast
  note wf = hm_wf_Some [OF en(1) bs]
  have "buckets_map h (hm_numBuckets ?m) bs = hm_map h m" using en(2) hm_map_buckets [OF bs] by metis
  then have ins: "buckets_ok h (hm_numBuckets ?m) (insert_internal h (hm_numBuckets ?m) (key, v) bs)"
    "buckets_map h (hm_numBuckets ?m) (insert_internal h (hm_numBuckets ?m) (key, v) bs) = (hm_map h m)(key \<mapsto> v)"
    "length (concat (insert_internal h (hm_numBuckets ?m) (key, v) bs)) = Suc (length (concat bs))"
    using insert_internal_ok [OF wf(1), of "(key, v)"] assms(4) by simp_all
  have "unat (hm_cnt m + 1) = Suc (length (concat bs))"
    using wf(4) en(3) assms(3) by (subst unat_add_nowrap) (simp_all add: hm_count_ok_def)
  then show "hm_wf h (hm_insert h key v m)"
    using ins wf by (simp add: hm_wf_def hm_insert_def Let_def bs en(3))
  show "hm_map h (hm_insert h key v m) = (hm_map h m)(key \<mapsto> v)"
    using ins(2) by (simp add: hm_insert_def Let_def bs hm_map_buckets)
  show "hm_cnt (hm_insert h key v m) = hm_cnt m + 1"
    by (simp add: hm_insert_def Let_def en(3))
qed

text \<open>A chain may be replaced by one over a part of its keys.\<close>

lemma buckets_ok_update:
  assumes "buckets_ok h cap bs" "i < length bs" "distinct (map fst c)" "fst ` set c \<subseteq> fst ` set (bs ! i)"
  shows "buckets_ok h cap (bs[i := c])"
proof -
  have "unat (indexForKey h (fst e) cap) = i" if e: "e \<in> set c" for e
  proof -
    obtain e' where "e' \<in> set (bs ! i)" "fst e' = fst e"
      using subsetD [OF assms(4), of "fst e"] e by (auto simp del: imageE)
    with buckets_okD(5) [OF assms(1,2)] show ?thesis by metis
  qed
  with assms show ?thesis by (auto simp: buckets_ok_def nth_list_update)
qed

lemma map_of_update_at:
  "\<lbrakk>distinct (map fst c); i < length c; fst (c ! i) = key\<rbrakk> \<Longrightarrow> map_of (c[i := (key, v)]) = (map_of c)(key \<mapsto> v)"
proof (induction c arbitrary: i)
  case (Cons x c)
  show ?case
  proof (cases i)
    case (Suc j)
    then have "fst x \<noteq> key" using Cons.prems by (auto dest: nth_mem)
    with Suc Cons show ?thesis by (auto simp: fun_eq_iff)
  qed (use Cons.prems in auto)
qed simp

lemma hm_store_ok:
  assumes "hm_wf h m" "hm_ptr m = Some bs" "b = indexForKey h key (hm_numBuckets m)"
    and "i < length (bs ! unat b)" "fst (bs ! unat b ! i) = key"
  shows "hm_wf h (hm_store (b, i) v m)" "hm_map h (hm_store (b, i) v m) = (hm_map h m)(key \<mapsto> v)"
    "hm_cnt (hm_store (b, i) v m) = hm_cnt m" "hm_numBuckets (hm_store (b, i) v m) = hm_numBuckets m"
proof -
  note wf = hm_wf_Some [OF assms(1,2)]
  note ok = buckets_okD [OF wf(1)]
  let ?c = "bs ! unat b" and ?cap = "hm_numBuckets m"
  let ?c' = "?c[i := (key, v)]" and ?bs' = "bs[unat b := ?c[i := (key, v)]]"
  have b: "unat b < length bs" using ok(3) assms(3) by simp
  have keys: "map fst ?c' = map fst ?c"
    using assms(4,5) by (metis fst_conv list_update_id map_update nth_map)
  have len: "length (concat ?bs') = length (concat bs)"
    using length_concat_update [OF b, of ?c'] by simp
  have bok: "buckets_ok h ?cap ?bs'"
    using buckets_ok_update [OF wf(1) b, of ?c'] ok(4) [OF b] keys by (metis image_set order_refl)
  have m': "hm_store (b, i) v m = m\<lparr>hm_ptr := Some ?bs'\<rparr>"
    using assms(2,5) by (simp add: hm_store_def Let_def)
  show "hm_wf h (hm_store (b, i) v m)" unfolding m' using bok wf len by (simp add: hm_wf_def)
  have "map_of ?c' = (map_of ?c)(key \<mapsto> v)"
    using map_of_update_at [OF ok(4) [OF b] assms(4,5)] .
  then show "hm_map h (hm_store (b, i) v m) = (hm_map h m)(key \<mapsto> v)"
    unfolding m' using b assms(2,3) by (auto simp: hm_map_def fun_eq_iff nth_list_update)
  show "hm_cnt (hm_store (b, i) v m) = hm_cnt m" "hm_numBuckets (hm_store (b, i) v m) = hm_numBuckets m"
    unfolding m' by simp_all
qed

section \<open>The operations on the abstract map\<close>

text \<open>
  The invariant clients keep: a well-formed map whose keys all come from \<open>K\<close>. With fewer than
  \<open>2 ^ 60\<close> keys the count and the bucket array cannot wrap.
\<close>

definition hm_inv :: "('k \<Rightarrow> u64) \<Rightarrow> 'k set \<Rightarrow> ('k, 'v) hashmap \<Rightarrow> bool" where
  "hm_inv h K m \<longleftrightarrow> hm_wf h m \<and> hm_room m \<and> dom (hm_map h m) \<subseteq> K \<and> finite K \<and> card K < 2 ^ 60"

lemma hm_cnt_dom: "hm_wf h m \<Longrightarrow> unat (hm_cnt m) = card (dom (hm_map h m))"
proof -
  assume wf: "hm_wf h m"
  have "dom (hm_map h m) = fst ` set (hm_nodes m)"
    using hm_nodes_map [OF wf] by (metis dom_map_of_conv_image_fst)
  with hm_nodes_wf [OF wf] show ?thesis
    by (metis distinct_card length_map list.set_map)
qed

lemma hm_inv_cnt: "hm_inv h K m \<Longrightarrow> unat (hm_cnt m) < 2 ^ 60"
  unfolding hm_inv_def using hm_cnt_dom card_mono by (metis order_le_less_trans)

lemma hm_inv_count_ok: "hm_inv h K m \<Longrightarrow> hm_count_ok m"
  using hm_inv_cnt [of h K m] by (simp add: hm_count_ok_def)

lemma ensureSize_room:
  assumes "hm_inv h K m"
  shows "hm_room (ensureSize h m)"
proof -
  have c: "unat (hm_cnt m) < 2 ^ 60" and r: "unat (hm_numBuckets m) < 2 ^ 62"
    using hm_inv_cnt [OF assms] assms by (auto simp: hm_inv_def hm_room_def)
  have two: "unat (hm_numBuckets m * 2) = unat (hm_numBuckets m) * 2"
    using r by (subst unat_mul_nowrap) simp_all
  have "unat (nextSize (hm_numBuckets m)) < 2 ^ 62" if "hm_numBuckets m * 2 div 3 \<le> hm_cnt m"
  proof -
    have "unat (hm_numBuckets m) * 2 div 3 \<le> unat (hm_cnt m)"
      using that two by (simp add: word_le_nat_alt unat_div)
    then have "unat (hm_numBuckets m) * 2 < Suc (unat (hm_cnt m)) * 3"
      by (simp flip: div_less_iff_less_mult add: less_Suc_eq_le)
    with c two show ?thesis by (simp add: nextSize_def STARTING_SIZE_def)
  qed
  moreover have "unat (prevSize (hm_numBuckets m)) < 2 ^ 62"
    using r by (simp add: prevSize_def unat_div)
  ultimately have "unat (ensure_cap m) < 2 ^ 62" using r by (simp add: ensure_cap_def)
  then show ?thesis using r by (simp add: ensureSize_def Let_def hm_room_def)
qed

lemma hm_insert_inv:
  assumes "hm_inv h K m" "key \<in> K" "hm_map h m key = None"
  shows "hm_inv h K (hm_insert h key v m)" "hm_map h (hm_insert h key v m) = (hm_map h m)(key \<mapsto> v)"
proof -
  have wf: "hm_wf h m" "hm_room m" using assms(1) by (simp_all add: hm_inv_def)
  note ins = hm_insert_ok [OF wf hm_inv_count_ok [OF assms(1)] assms(3)]
  have "hm_room (hm_insert h key v m)"
    using ensureSize_room [OF assms(1)] by (simp add: hm_room_def hm_insert_def Let_def)
  with ins assms show "hm_inv h K (hm_insert h key v m)" by (auto simp: hm_inv_def)
  show "hm_map h (hm_insert h key v m) = (hm_map h m)(key \<mapsto> v)" by (rule ins(2))
qed

lemma hm_find_Some:
  assumes "hm_find h key m = Some it"
  obtains bs i where "hm_ptr m = Some bs" "it = (indexForKey h key (hm_numBuckets m), i)"
    "i < length (bs ! unat (indexForKey h key (hm_numBuckets m)))"
    "fst (bs ! unat (indexForKey h key (hm_numBuckets m)) ! i) = key"
    "hm_map h m key = Some (snd (hm_node m it))"
proof -
  from assms obtain bs i where bs: "hm_ptr m = Some bs" "it = (indexForKey h key (hm_numBuckets m), i)"
    and i: "chain_find key (bs ! unat (indexForKey h key (hm_numBuckets m))) = Some i"
    by (auto simp: hm_find_def Let_def split: option.splits)
  with chain_find_Some [OF i] that show thesis
    by (auto simp: hm_map_def hm_node_def)
qed

lemma hm_store_inv:
  assumes "hm_inv h K m" "hm_ptr m = Some bs" "b = indexForKey h key (hm_numBuckets m)"
    and "i < length (bs ! unat b)" "fst (bs ! unat b ! i) = key" "key \<in> K"
  shows "hm_inv h K (hm_store (b, i) v m)" "hm_map h (hm_store (b, i) v m) = (hm_map h m)(key \<mapsto> v)"
  using hm_store_ok [OF _ assms(2-5), of v] assms(1,6) by (auto simp: hm_inv_def hm_room_def)

lemma hm_assign_ok:
  assumes "hm_inv h K m" "key \<in> K"
  shows "hm_inv h K (hm_assign h d key v m) \<and> hm_map h (hm_assign h d key v m) = (hm_map h m)(key \<mapsto> v)"
proof (cases "hm_find h key m")
  case (Some it)
  then obtain bs i where "hm_ptr m = Some bs" "it = (indexForKey h key (hm_numBuckets m), i)"
    "i < length (bs ! unat (indexForKey h key (hm_numBuckets m)))"
    "fst (bs ! unat (indexForKey h key (hm_numBuckets m)) ! i) = key"
    by (rule hm_find_Some)
  with hm_store_inv [OF assms(1) this(1) refl this(3,4) assms(2)] Some show ?thesis
    by (simp add: hm_assign_def)
next
  case None
  then have none: "hm_map h m key = None" by (simp add: hm_find_map)
  let ?m = "hm_insert h key d m"
  note ins = hm_insert_inv [OF assms none, of d]
  obtain bs where bs: "hm_ptr ?m = Some bs" by (simp add: hm_insert_def Let_def)
  let ?b = "indexForKey h key (hm_numBuckets ?m)"
  have head: "bs ! unat ?b = (key, d) # tl (bs ! unat ?b)"
  proof -
    have wf: "hm_wf h ?m" using ins(1) by (simp add: hm_inv_def)
    from buckets_okD(3) [OF hm_wf_Some(1) [OF wf bs], of key] show ?thesis
      using bs by (auto simp: hm_insert_def Let_def insert_internal_def)
  qed
  then have "0 < length (bs ! unat ?b)" "fst (bs ! unat ?b ! 0) = key" by (metis length_greater_0_conv list.discI, metis fst_conv nth_Cons_0)
  from hm_store_inv [OF ins(1) bs refl this assms(2), of v] ins(2) None show ?thesis
    by (simp add: hm_assign_def Let_def)
qed

lemma hm_subscript_ok:
  assumes "hm_inv h K m" "key \<in> K"
  shows "fst (hm_subscript h d key m) = (case hm_map h m key of None \<Rightarrow> d | Some v \<Rightarrow> v) \<and>
    hm_inv h K (snd (hm_subscript h d key m)) \<and>
    hm_map h (snd (hm_subscript h d key m)) =
      (hm_map h m)(key \<mapsto> (case hm_map h m key of None \<Rightarrow> d | Some v \<Rightarrow> v))"
proof (cases "hm_find h key m")
  case None
  then have "hm_map h m key = None" by (simp add: hm_find_map)
  with None hm_insert_inv [OF assms this, of d] show ?thesis by (simp add: hm_subscript_def)
next
  case (Some it)
  then have "hm_map h m key = Some (snd (hm_node m it))" by (rule hm_find_Some)
  with Some assms(1) show ?thesis by (simp add: hm_subscript_def map_upd_triv)
qed

lemma take_drop_del:
  assumes "distinct (map fst c)" "i < length c"
  shows "map_of (take i c @ drop (Suc i) c) = (map_of c)(fst (c ! i) := None)"
    and "distinct (map fst (take i c @ drop (Suc i) c))"
    and "set (take i c @ drop (Suc i) c) \<subseteq> set c"
    and "Suc (length (take i c @ drop (Suc i) c)) = length c"
proof -
  have c: "c = take i c @ c ! i # drop (Suc i) c" using assms(2) by (rule id_take_nth_drop)
  then have "distinct (map fst (take i c @ c ! i # drop (Suc i) c))" using assms(1) by simp
  then have d: "distinct (map fst (take i c @ drop (Suc i) c))"
    and new: "fst (c ! i) \<notin> set (map fst (take i c @ drop (Suc i) c))" by auto
  show "distinct (map fst (take i c @ drop (Suc i) c))" by (rule d)
  show "set (take i c @ drop (Suc i) c) \<subseteq> set c" by (auto dest: in_set_takeD in_set_dropD)
  show "Suc (length (take i c @ drop (Suc i) c)) = length c" using assms(2) by simp
  show "map_of (take i c @ drop (Suc i) c) = (map_of c)(fst (c ! i) := None)"
  proof (rule ext, rule option_eqI)
    fix k v
    have "(k, v) \<in> set c \<longleftrightarrow> (k, v) \<in> set (take i c @ drop (Suc i) c) \<or> (k, v) = c ! i"
      by (subst (1) c) auto
    then show "map_of (take i c @ drop (Suc i) c) k = Some v \<longleftrightarrow> ((map_of c)(fst (c ! i) := None)) k = Some v"
      using map_of_eq_Some_iff [OF d, of k v] map_of_eq_Some_iff [OF assms(1), of k v] new
      by (cases "c ! i") (auto simp: rev_image_eqI)
  qed
qed

lemma hm_remove_ok:
  assumes "hm_inv h K m"
  shows "\<exists>m'. hm_remove h key m = Inr (hm_map h m key \<noteq> None, m') \<and> hm_inv h K m' \<and>
    hm_map h m' = (hm_map h m)(key := None)"
proof (cases "hm_find h key m")
  case None
  then have none: "hm_map h m key = None" by (simp add: hm_find_map)
  then have "(hm_map h m)(key := None) = hm_map h m" by (simp add: fun_upd_idem)
  with None none assms show ?thesis by (simp add: hm_remove_def)
next
  case (Some it)
  then obtain bs i where bs: "hm_ptr m = Some bs" and it: "it = (indexForKey h key (hm_numBuckets m), i)"
    and i: "i < length (bs ! unat (indexForKey h key (hm_numBuckets m)))"
      "fst (bs ! unat (indexForKey h key (hm_numBuckets m)) ! i) = key"
    and hit: "hm_map h m key = Some (snd (hm_node m it))"
    by (rule hm_find_Some)
  have wf: "hm_wf h m" using assms by (simp add: hm_inv_def)
  note w = hm_wf_Some [OF wf bs]
  note ok = buckets_okD [OF w(1)]
  let ?n = "hm_numBuckets m"
  let ?b = "indexForKey h key ?n"
  let ?c = "bs ! unat ?b"
  let ?c' = "take i ?c @ drop (Suc i) ?c"
  let ?m = "m\<lparr>hm_ptr := Some (bs[unat ?b := ?c']), hm_cnt := hm_cnt m - 1\<rparr>"
  note del = take_drop_del [OF ok(4) [OF ok(3)] i(1)]
  have "?b < ?n" using ok(1,3) by (simp add: word_less_nat_alt)
  then have rem: "hm_remove h key m = Inr (True, ?m)"
    using Some i(1) bs by (auto simp: hm_remove_def hm_erase_def it Let_def)
  have bok: "buckets_ok h ?n (bs[unat ?b := ?c'])"
    using buckets_ok_update [OF w(1) ok(3) del(2)] del(3) by (simp add: image_mono)
  have len: "Suc (length (concat (bs[unat ?b := ?c']))) = length (concat bs)"
    using length_concat_update [OF ok(3) [of key], of ?c'] del(4) by simp
  then have "unat (hm_cnt m - 1) = length (concat (bs[unat ?b := ?c']))"
    using w(4) by (subst unat_sub_nowrap) (simp_all add: word_le_nat_alt)
  with bok w have "hm_wf h ?m" by (simp add: hm_wf_def)
  moreover have map: "hm_map h ?m = (hm_map h m)(key := None)"
    using del(1) ok(3) bs i(2) by (auto simp: hm_map_def fun_eq_iff nth_list_update)
  ultimately have "hm_inv h K ?m" using assms by (auto simp: hm_inv_def hm_room_def)
  with rem map hit show ?thesis by auto
qed

lemma hm_map_new [simp]: "hm_map h hm_new = Map.empty"
  by (simp add: hm_new_def hm_map_def fun_eq_iff)

lemma hm_inv_new: "finite K \<Longrightarrow> card K < 2 ^ 60 \<Longrightarrow> hm_inv h K hm_new"
  by (simp add: hm_inv_def) (simp add: hm_wf_def hm_new_def hm_room_def)

lemma hm_copy_ok: "hm_inv h K m \<Longrightarrow> hm_copy m = m"
  by (cases m) (auto simp: hm_copy_def hm_inv_def hm_wf_def split: option.splits)

lemma hm_clear_ok:
  assumes "hm_inv h K m"
  shows "hm_inv h K (hm_clear h m) \<and> hm_map h (hm_clear h m) = Map.empty \<and> hm_cnt (hm_clear h m) = 0"
proof -
  let ?m = "m\<lparr>hm_ptr := map_option (map (\<lambda>_. [])) (hm_ptr m), hm_cnt := 0\<rparr>"
  have "hm_map h ?m = Map.empty"
    using assms
    by (auto simp: hm_map_def fun_eq_iff hm_inv_def hm_wf_def buckets_ok_def indexForKey_lt split: option.splits)
  moreover have "hm_wf h ?m"
    using assms
    by (auto simp: hm_inv_def hm_wf_def buckets_ok_def split: option.splits)
  ultimately have inv: "hm_inv h K ?m" using assms by (auto simp: hm_inv_def hm_room_def)
  have "hm_wf h ?m" "hm_room ?m" using inv by (simp_all add: hm_inv_def)
  from ensureSize_ok [OF this] ensureSize_room [OF inv] \<open>hm_map h ?m = Map.empty\<close> inv
  show ?thesis by (auto simp: hm_clear_def hm_inv_def)
qed

section \<open>Iteration\<close>

fun hm_advance :: "('k, 'v) hashmap \<Rightarrow> nat \<Rightarrow> hm_iterator" where
  "hm_advance m 0 = hm_begin m"
| "hm_advance m (Suc n) = Option.bind (hm_advance m n) (hm_next m)"

text \<open>The first node at or after bucket \<open>i\<close>, and the nodes before it.\<close>

lemma first_bucket_drop:
  assumes "i + length bs < 2 ^ 64"
  shows "case first_bucket bs i of
           None \<Rightarrow> concat bs = []
         | Some (b, j) \<Rightarrow> j = 0 \<and> i \<le> unat b \<and> unat b - i < length bs \<and> bs ! (unat b - i) \<noteq> [] \<and>
                         concat (take (unat b - i) bs) = []"
  using assms
proof (induction bs arbitrary: i)
  case (Cons b bs)
  show ?case
  proof (cases "b = []")
    case True
    have "case first_bucket bs (Suc i) of
           None \<Rightarrow> concat bs = []
         | Some (b, j) \<Rightarrow> j = 0 \<and> Suc i \<le> unat b \<and> unat b - Suc i < length bs \<and> bs ! (unat b - Suc i) \<noteq> [] \<and>
                         concat (take (unat b - Suc i) bs) = []"
      using Cons.IH [of "Suc i"] Cons.prems by simp
    moreover have "unat b' - i = Suc (unat b' - Suc i)" if "Suc i \<le> unat b'" for b' :: u64
      using that by simp
    ultimately show ?thesis
      using True by (auto split: option.splits)
  next
    case False
    then show ?thesis
      using Cons.prems by (simp add: unat_of_nat take_bit_nat_eq_self)
  qed
qed simp

definition hm_before :: "('k \<times> 'v) list list \<Rightarrow> u64 \<times> nat \<Rightarrow> nat" where
  "hm_before bs it = length (concat (take (unat (fst it)) bs)) + snd it"

definition hm_valid :: "('k \<times> 'v) list list \<Rightarrow> u64 \<times> nat \<Rightarrow> bool" where
  "hm_valid bs it \<longleftrightarrow> unat (fst it) < length bs \<and> snd it < length (bs ! unat (fst it))"

lemma concat_nth:
  assumes "hm_valid bs it"
  shows "concat bs ! hm_before bs it = bs ! unat (fst it) ! snd it" "hm_before bs it < length (concat bs)"
proof -
  let ?b = "unat (fst it)"
  have "concat bs = concat (take ?b bs) @ bs ! ?b @ concat (drop (Suc ?b) bs)"
    using assms by (metis append_assoc concat.simps(2) concat_append hm_valid_def id_take_nth_drop)
  with assms show "concat bs ! hm_before bs it = bs ! ?b ! snd it" "hm_before bs it < length (concat bs)"
    by (simp_all add: hm_before_def hm_valid_def nth_append)
qed

lemma first_bucket_at:
  assumes "length bs < 2 ^ 64" "k \<le> length bs"
  shows "case first_bucket (drop k bs) k of
           None \<Rightarrow> length (concat (take k bs)) = length (concat bs)
         | Some it \<Rightarrow> hm_valid bs it \<and> hm_before bs it = length (concat (take k bs))"
proof -
  have split: "concat bs = concat (take k bs) @ concat (drop k bs)"
    by (metis append_take_drop_id concat_append)
  show ?thesis
  proof (cases "first_bucket (drop k bs) k")
    case None
    with first_bucket_drop [of k "drop k bs"] assms have "concat (drop k bs) = []" by simp
    with None split show ?thesis by simp
  next
    case (Some it)
    obtain b j where it: "it = (b, j)" by (cases it)
    with Some first_bucket_drop [of k "drop k bs"] assms
    have f: "j = 0" "k \<le> unat b" "unat b - k < length bs - k" "drop k bs ! (unat b - k) \<noteq> []"
      "concat (take (unat b - k) (drop k bs)) = []" by auto
    then have "take (unat b) bs = take k bs @ take (unat b - k) (drop k bs)"
      by (metis le_add_diff_inverse take_add)
    then have "concat (take (unat b) bs) = concat (take k bs)" using f(5) by simp
    with f Some it assms(2) show ?thesis
      by (simp add: hm_valid_def hm_before_def)
  qed
qed

lemma hm_next_at:
  assumes "hm_ptr m = Some bs" "hm_valid bs it" "length bs < 2 ^ 64"
  shows "case hm_next m it of None \<Rightarrow> Suc (hm_before bs it) = length (concat bs)
         | Some it' \<Rightarrow> hm_valid bs it' \<and> hm_before bs it' = Suc (hm_before bs it)"
proof (cases "Suc (snd it) < length (bs ! unat (fst it))")
  case True
  with assms show ?thesis
    by (cases it) (simp add: hm_next_def hm_valid_def hm_before_def)
next
  case False
  let ?k = "Suc (unat (fst it))"
  have k: "?k \<le> length bs" and last: "Suc (snd it) = length (bs ! unat (fst it))"
    using assms(2) False by (auto simp: hm_valid_def)
  have "Suc (hm_before bs it) = length (concat (take ?k bs))"
    using k last by (simp add: hm_before_def take_Suc_conv_app_nth)
  moreover have "hm_next m it = first_bucket (drop ?k bs) ?k"
    using False assms(1) by (cases it) (simp add: hm_next_def)
  ultimately show ?thesis
    using first_bucket_at [OF assms(3) k] by (auto split: option.splits)
qed

lemma hm_advance_at:
  assumes "hm_ptr m = Some bs" "length bs < 2 ^ 64"
  shows "case hm_advance m n of None \<Rightarrow> length (concat bs) \<le> n
         | Some it \<Rightarrow> hm_valid bs it \<and> hm_before bs it = n"
proof (induction n)
  case 0
  show ?case using first_bucket_at [OF assms(2), of 0] assms(1) by (auto simp: hm_begin_def split: option.splits)
next
  case (Suc n)
  show ?case
  proof (cases "hm_advance m n")
    case (Some it)
    then show ?thesis
      using Suc hm_next_at [OF assms(1) _ assms(2), of it] by (auto split: option.splits)
  qed (use Suc in simp)
qed

section \<open>Interface\<close>

text \<open>What the kernel relies on of a map from \<open>keys\<close>, and the loops it runs over one.\<close>

locale krt_map =
  fixes inv :: "'m \<Rightarrow> bool" and keys :: "'k set"
    and lookup :: "'m \<Rightarrow> 'k \<rightharpoonup> 'v" and assign :: "'k \<Rightarrow> 'v \<Rightarrow> 'm \<Rightarrow> 'm"
    and remove :: "'k \<Rightarrow> 'm \<Rightarrow> (bool \<times> 'm) res" and new :: 'm
  assumes inv_new: "inv new" and lookup_new: "lookup new = Map.empty"
    and inv_assign: "\<lbrakk>inv m; k \<in> keys\<rbrakk> \<Longrightarrow> inv (assign k v m)"
    and lookup_assign: "\<lbrakk>inv m; k \<in> keys\<rbrakk> \<Longrightarrow> lookup (assign k v m) = (lookup m)(k \<mapsto> v)"
    and remove_law: "inv m \<Longrightarrow> \<exists>m'. remove k m = Inr (lookup m k \<noteq> None, m') \<and> inv m' \<and> lookup m' = (lookup m)(k := None)"
begin

lemma assign_all:
  assumes "inv m" "set ks \<subseteq> keys" "distinct ks"
  shows "inv (fold (\<lambda>k. assign k (f k)) ks m) \<and>
    lookup (fold (\<lambda>k. assign k (f k)) ks m) = (\<lambda>k. if k \<in> set ks then Some (f k) else lookup m k)"
  using assms
proof (induction ks arbitrary: m)
  case (Cons k ks)
  then show ?case
    using inv_assign [of m k "f k"] lookup_assign [of m k "f k"] by (auto simp: fun_eq_iff)
qed simp

lemma remove_all:
  assumes "inv m"
  shows "\<exists>m'. foldE (\<lambda>k m. bindE (remove k m) (\<lambda>(_, m'). Inr m')) ks m = Inr m' \<and> inv m' \<and>
    lookup m' = (\<lambda>k. if k \<in> set ks then None else lookup m k)"
  using assms
proof (induction ks arbitrary: m)
  case (Cons k ks)
  obtain m1 where m1: "remove k m = Inr (lookup m k \<noteq> None, m1)" "inv m1" "lookup m1 = (lookup m)(k := None)"
    using remove_law [OF Cons.prems] by blast
  from Cons.IH [OF m1(2)] obtain m2 where
    "foldE (\<lambda>k m. bindE (remove k m) (\<lambda>(_, m'). Inr m')) ks m1 = Inr m2" "inv m2"
    "lookup m2 = (\<lambda>k. if k \<in> set ks then None else lookup m1 k)" by blast
  with m1 show ?case by (auto simp: fun_eq_iff)
qed simp

end

lemma hashmap_is_krt_map:
  assumes "finite K" "card K < 2 ^ 60"
  shows "krt_map (hm_inv h K) K (hm_map h) (hm_assign h d) (hm_remove h) (hm_new :: ('k, 'v) hashmap)"
proof unfold_locales
  show "hm_inv h K (hm_new :: ('k, 'v) hashmap)" by (rule hm_inv_new [OF assms])
  show "hm_map h (hm_new :: ('k, 'v) hashmap) = Map.empty" by simp
  show "hm_inv h K (hm_assign h d k v m)" "hm_map h (hm_assign h d k v m) = (hm_map h m)(k \<mapsto> v)"
    if "hm_inv h K m" "k \<in> K" for m k v
    using hm_assign_ok [OF that] by simp_all
  show "\<exists>m'. hm_remove h k m = Inr (hm_map h m k \<noteq> None, m') \<and> hm_inv h K m' \<and>
      hm_map h m' = (hm_map h m)(k := None)" if "hm_inv h K m" for m k
    using hm_remove_ok [OF that] .
qed

section \<open>Properties\<close>

text \<open>The contract: a partial function from keys to values under the same calls.\<close>

datatype ('k, 'v) map_call = Assign 'k 'v | Remove 'k | Clear

fun hm_call :: "('k \<Rightarrow> u64) \<Rightarrow> 'v \<Rightarrow> ('k, 'v) map_call \<Rightarrow> ('k, 'v) hashmap \<Rightarrow> ('k, 'v) hashmap res" where
  "hm_call h d (Assign k v) m = Inr (hm_assign h d k v m)"
| "hm_call h d (Remove k) m = bindE (hm_remove h k m) (\<lambda>(_, m'). Inr m')"
| "hm_call h d Clear m = Inr (hm_clear h m)"

fun call_map :: "('k, 'v) map_call \<Rightarrow> ('k \<rightharpoonup> 'v) \<Rightarrow> 'k \<rightharpoonup> 'v" where
  "call_map (Assign k v) f = f(k \<mapsto> v)"
| "call_map (Remove k) f = f(k := None)"
| "call_map Clear f = Map.empty"

fun call_keys :: "('k, 'v) map_call \<Rightarrow> 'k set" where
  "call_keys (Assign k v) = {k}"
| "call_keys (Remove k) = {}"
| "call_keys Clear = {}"

lemma hm_call_refines:
  assumes "hm_inv h K m" "call_keys c \<subseteq> K"
  shows "\<exists>m'. hm_call h d c m = Inr m' \<and> hm_inv h K m' \<and> hm_map h m' = call_map c (hm_map h m)"
proof (cases c)
  case (Assign k v)
  then show ?thesis using hm_assign_ok [OF assms(1), of k] assms(2) by simp
next
  case (Remove k)
  then show ?thesis using hm_remove_ok [OF assms(1), of k] by auto
next
  case Clear
  then show ?thesis using hm_clear_ok [OF assms(1)] by simp
qed

lemma hm_calls_refine:
  assumes "hm_inv h K m" "\<forall>c\<in>set cs. call_keys c \<subseteq> K"
  shows "\<exists>m'. foldE (hm_call h d) cs m = Inr m' \<and> hm_inv h K m' \<and> hm_map h m' = fold call_map cs (hm_map h m)"
  using assms
proof (induction cs arbitrary: m)
  case (Cons c cs)
  then obtain m1 where m1: "hm_call h d c m = Inr m1" "hm_inv h K m1" "hm_map h m1 = call_map c (hm_map h m)"
    using hm_call_refines [of h K m c d] by auto
  with Cons.IH [OF m1(2)] Cons.prems(2) show ?case by simp
qed simp

text \<open>
  C3: \<^verbatim>\<open>bucket_hashmap\<close> implements a map. Whatever the hash function, after any sequence of
  assignments through \<^verbatim>\<open>operator []\<close>, removals and clears starting from a fresh map, no call has
  aborted, \<^verbatim>\<open>at\<close> answers as the partial function under the same calls does, \<^verbatim>\<open>contains\<close> tells its
  domain and \<^verbatim>\<open>size\<close> is the number of its keys, through every growth and shrinking of the bucket
  array. The key type may have up to \<open>2 ^ 60\<close> values.
\<close>

theorem hashmap_refines_map:
  assumes "finite K" "card K < 2 ^ 60" "\<forall>c\<in>set cs. call_keys c \<subseteq> K"
  shows "\<exists>m. foldE (hm_call h d) cs hm_new = Inr m \<and>
    (\<forall>k. hm_at h k m = fold call_map cs Map.empty k) \<and>
    (\<forall>k. hm_contains h k m \<longleftrightarrow> k \<in> dom (fold call_map cs Map.empty)) \<and>
    unat (hm_size m) = card (dom (fold call_map cs Map.empty))"
proof -
  obtain m where m: "foldE (hm_call h d) cs hm_new = Inr m" "hm_inv h K m" "hm_map h m = fold call_map cs Map.empty"
    using hm_calls_refine [OF hm_inv_new [OF assms(1,2)] assms(3), of h d] by auto
  have "hm_wf h m" using m(2) by (simp add: hm_inv_def)
  from hm_cnt_dom [OF this] m show ?thesis
    by (auto simp: hm_at_map hm_contains_def hm_find_map hm_size_def)
qed

theorem hashmap_refines_map_witness:
  "\<exists>m. foldE (hm_call id (0::nat)) [Assign 5 7, Assign 21 8, Remove 5] hm_new = Inr m \<and>
    hm_at id 21 m = Some 8 \<and> \<not> hm_contains id 5 m \<and> unat (hm_size m) = 1"
proof -
  have "card {5::u64, 21} < 2 ^ 60" by simp
  from hashmap_refines_map [of "{5::u64, 21}" "[Assign 5 7, Assign 21 8, Remove 5]" id "0::nat"] this
  show ?thesis by auto
qed

text \<open>
  C16: Iterating from \<^verbatim>\<open>begin()\<close> with \<^verbatim>\<open>++\<close> visits every node exactly once and then reaches
  \<^verbatim>\<open>end()\<close>: after \<open>n\<close> steps the iterator stands at the \<open>n\<close>-th node of the chains taken in bucket
  order, and the keys it visits are those of the map, without repetition.
\<close>

theorem hashmap_iteration_complete:
  assumes "hm_wf h m"
  shows "(\<forall>n<length (hm_nodes m). \<exists>it. hm_advance m n = Some it \<and> hm_node m it = hm_nodes m ! n) \<and>
    hm_advance m (length (hm_nodes m)) = None \<and>
    distinct (map fst (hm_nodes m)) \<and> map_of (hm_nodes m) = hm_map h m"
proof (cases "hm_ptr m")
  case None
  then show ?thesis
    using hm_nodes_map [OF assms] by (simp add: hm_nodes_def hm_begin_def)
next
  case (Some bs)
  have len: "length bs < 2 ^ 64"
    using buckets_okD(1) [OF hm_wf_Some(1) [OF assms Some]] unat_u64_lt by simp
  note at = hm_advance_at [OF Some len]
  have nodes: "hm_nodes m = concat bs" using Some by (simp add: hm_nodes_def)
  have "\<exists>it. hm_advance m n = Some it \<and> hm_node m it = concat bs ! n" if "n < length (concat bs)" for n
    using at [of n] that concat_nth(1) by (fastforce simp: hm_node_def Some split: option.splits)
  moreover have "hm_advance m (length (concat bs)) = None"
    using at [of "length (concat bs)"] concat_nth(2) by (fastforce split: option.splits)
  ultimately show ?thesis
    using hm_nodes_wf [OF assms] hm_nodes_map [OF assms] by (simp add: nodes)
qed

lemma hm_demo_wf: "hm_wf id (hm_assign id 0 21 8 (hm_assign id 0 (5::u64) (7::nat) hm_new))"
proof -
  have "hm_inv id {5, 21} (hm_new :: (u64, nat) hashmap)" by (rule hm_inv_new) simp_all
  then have "hm_inv id {5::u64, 21} (hm_assign id 0 21 8 (hm_assign id 0 5 (7::nat) hm_new))"
    by (simp add: hm_assign_ok)
  then show ?thesis by (simp add: hm_inv_def)
qed

theorem hashmap_iteration_complete_witness:
  "let m = hm_assign id 0 21 8 (hm_assign id 0 (5::u64) (7::nat) hm_new)
   in length (hm_nodes m) = 2 \<and> (\<forall>n<2. \<exists>it. hm_advance m n = Some it \<and> hm_node m it = hm_nodes m ! n) \<and>
      hm_advance m 2 = None"
proof -
  let ?m = "hm_assign id 0 21 8 (hm_assign id 0 (5::u64) (7::nat) hm_new)"
  have "length (hm_nodes ?m) = 2" by code_simp
  with hashmap_iteration_complete [OF hm_demo_wf] show ?thesis by (simp add: Let_def)
qed

text \<open>
  \<^verbatim>\<open>insert\<close> does not look for the key: a second \<^verbatim>\<open>insert\<close> of a key shadows the first node, and the
  next growth of the array, which moves the nodes front to back, brings the old value back.
\<close>

lemma hm_insert_twice:
  "let m = fold (\<lambda>(k, v). hm_insert id k v) [(0::u64, 1::nat), (0, 2), (1, 0), (2, 0), (3, 0), (4, 0), (5, 0), (6, 0), (7, 0), (8, 0)] hm_new
   in hm_at id 0 m = Some 2 \<and> hm_at id 0 (hm_insert id 9 0 m) = Some 1"
  by code_simp

end
