(* ===== verification/Pmm.thy ===== *)
theory Pmm
  imports Extmm PageTable
begin

text \<open>
  The physical memory manager \<^verbatim>\<open>kernel/source/mm/pmm.cpp\<close>: an extent allocator over the memory the
  bootloader reports (\<^verbatim>\<open>kernel/include/bootinfo.h\<close>), with the shared zero page and the counters.
  The static variables are the record \<open>pmm\<close>; \<open>newpage\<close> is \<^verbatim>\<open>vmm::allocate\<close> as in the extent
  allocator. The memory map is the list of \<^verbatim>\<open>mmEntries\<close>. Logging is left out.
\<close>

section \<open>State and operations\<close>

datatype MemoryType =
    Reserved | Available | ACPI | MMIO | Faulty | NonVolatile | Framebuffer
  | LoadedKernel | BootInfoMem | MemoryMap | Initrd | KernelElf
  | EFIRuntimeCode | EFIRuntimeData | AvailableAfterUnmap

record MemMapEntry =
  mm_address :: u64
  mm_numPages :: u64
  mm_memoryType :: MemoryType
  mm_efiAttributes :: u64

record BootInfo =
  bi_addr :: u64
  bi_mmEntries :: "MemMapEntry list"
  bi_maximumIdentityMap :: u64

record pmm =
  p_ext :: extmm
  p_total :: u64
  p_allocated :: u64
  p_zero :: u64

definition NumReservedPages :: u64 where
  "NumReservedPages = 8"

definition pmm_end :: "u64 \<Rightarrow> u64 \<Rightarrow> u64" where
  "pmm_end base num = base + num * PAGE_SIZE"

definition getZeroPage :: "pmm \<Rightarrow> u64" where
  "getZeroPage p = p_zero p"

text \<open>The search of \<^verbatim>\<open>init\<close> for a chunk to bootstrap with: its base, and the map without it.\<close>

fun pmm_steal :: "MemMapEntry list \<Rightarrow> (u64 \<times> MemMapEntry list) option" where
  "pmm_steal [] = None"
| "pmm_steal (m # ms) =
     (if mm_memoryType m = Available \<and> NumReservedPages \<le> mm_numPages m
      then Some (mm_address m,
                 m\<lparr>mm_address := mm_address m + NumReservedPages * 0x1000,
                   mm_numPages := mm_numPages m - NumReservedPages\<rparr> # ms)
      else map_option (\<lambda>(base, ms'). (base, m # ms')) (pmm_steal ms))"

text \<open>One round of the loop that hands the available entries to the allocator.\<close>

definition pmm_add_entry ::
  "('w \<Rightarrow> (u64 \<times> 'w) res) \<Rightarrow> MemMapEntry \<Rightarrow> pmm \<times> 'w \<Rightarrow> (pmm \<times> 'w) res" where
  "pmm_add_entry newpage m = (\<lambda>(p, w).
     if mm_memoryType m = Available \<and> mm_address m > 0
     then bindE (extmm_deallocate newpage (mm_address m) (mm_numPages m) (p_ext p) w) (\<lambda>(x, w').
            Inr (p\<lparr>p_ext := x, p_total := p_total p + mm_numPages m * 0x1000\<rparr>, w'))
     else Inr (p, w))"

definition pmm_init ::
  "('w \<Rightarrow> (u64 \<times> 'w) res) \<Rightarrow> u64 \<Rightarrow> u64 \<Rightarrow> BootInfo \<Rightarrow> physmem \<Rightarrow> 'w \<Rightarrow> (pmm \<times> BootInfo \<times> physmem \<times> 'w) res"
where
  "pmm_init newpage kproc cr3 bi mem w =
     (case pmm_steal (bi_mmEntries bi) of
        None \<Rightarrow> Inl (Abort ''failed to bootstrap pmm!!'')
      | Some (base, ms) \<Rightarrow>
          bindE (bootstrap cr3 base PMM_STACK_BASE NumReservedPages mem) (\<lambda>mem1.
          bindE (assertE (kproc \<noteq> 0) ''kproc'') (\<lambda>_.
          bindE (foldE (pmm_add_entry newpage) ms
                   (\<lparr>p_ext = extmm_init ''pmm'' PMM_STACK_BASE PMM_STACK_END kproc,
                     p_total = 0, p_allocated = 0, p_zero = 0\<rparr>, w)) (\<lambda>(p, w').
          bindE (extmm_allocate 1 (\<lambda>x l. pmm_end x l < bi_maximumIdentityMap bi) (p_ext p)) (\<lambda>(zp, x).
          if zp = 0 then Inl (Abort ''pmm: failed to allocate zero page!'')
          else bindE (assertE (zp < bi_maximumIdentityMap bi) ''zp < maximumIdentityMap'') (\<lambda>_.
               bindE (page_zero mem1 cr3 zp) (\<lambda>mem2.
               if \<not> extmm_checkConsistency x then Inl (Abort ''inconsistent memory map from bootloader!'')
               else Inr (p\<lparr>p_ext := x, p_zero := zp\<rparr>, bi\<lparr>bi_mmEntries := ms\<rparr>, mem2, w'))))))))"

definition freeEarlyMemory :: "MemoryType \<Rightarrow> BootInfo \<Rightarrow> BootInfo res" where
  "freeEarlyMemory type bi =
     (if \<exists>m\<in>set (bi_mmEntries bi). mm_memoryType m = type \<and> type = MemoryMap
      then Inl (AssertFail ''type != MemoryType::MemoryMap'')
      else Inr (bi\<lparr>bi_mmEntries := map (\<lambda>m. if mm_memoryType m = type then m\<lparr>mm_memoryType := Reserved\<rparr> else m)
                                     (bi_mmEntries bi)\<rparr>))"

definition pmm_allocate :: "u64 \<Rightarrow> bool \<Rightarrow> pmm \<Rightarrow> (u64 \<times> pmm) res" where
  "pmm_allocate num below4G p =
     bindE (extmm_allocate num (\<lambda>a l. if below4G then pmm_end a l < 0xFFFFFFFF else True) (p_ext p)) (\<lambda>(ret, x).
     bindE (assertE (ret \<noteq> 0) ''ret'') (\<lambda>_.
       Inr (ret, p\<lparr>p_ext := x, p_allocated := p_allocated p + num * PAGE_SIZE\<rparr>)))"

definition pmm_deallocate ::
  "('w \<Rightarrow> (u64 \<times> 'w) res) \<Rightarrow> u64 \<Rightarrow> u64 \<Rightarrow> pmm \<Rightarrow> 'w \<Rightarrow> (pmm \<times> 'w) res" where
  "pmm_deallocate newpage addr num p w =
     bindE (assertE (nonZero addr) ''addr.nonZero()'') (\<lambda>_.
     bindE (assertE (num \<noteq> 0) ''num'') (\<lambda>_.
     bindE (assertE (isPageAligned addr) ''addr.isPageAligned()'') (\<lambda>_.
     if addr = p_zero p \<and> num = 1 then Inr (p, w)
     else bindE (extmm_deallocate newpage addr num (p_ext p) w) (\<lambda>(x, w').
            Inr (p\<lparr>p_ext := x, p_allocated := p_allocated p - num * PAGE_SIZE\<rparr>, w')))))"

text \<open>
  \<^verbatim>\<open>freeAllEarlyMemory\<close>: \<open>unmap\<close> is \<^verbatim>\<open>vmm::unmapAddress(addr, num, true)\<close> on the world.
\<close>

definition pmm_free_late ::
  "('w \<Rightarrow> (u64 \<times> 'w) res) \<Rightarrow> (u64 \<Rightarrow> u64 \<Rightarrow> 'w \<Rightarrow> 'w res) \<Rightarrow> u64 \<Rightarrow> MemMapEntry \<Rightarrow> pmm \<times> 'w \<Rightarrow> (pmm \<times> 'w) res" where
  "pmm_free_late newpage unmap maxIdentMem m = (\<lambda>(p, w).
     if maxIdentMem \<le> mm_address m \<and> (mm_memoryType m = AvailableAfterUnmap \<or> mm_memoryType m = MemoryMap)
     then bindE (extmm_deallocate newpage (mm_address m) (mm_numPages m) (p_ext p) w) (\<lambda>(x, w').
          bindE (unmap (mm_address m) (mm_numPages m) w') (\<lambda>w''.
            Inr (p\<lparr>p_ext := x, p_total := p_total p + mm_numPages m * 0x1000\<rparr>, w'')))
     else Inr (p, w))"

definition freeAllEarlyMemory ::
  "('w \<Rightarrow> (u64 \<times> 'w) res) \<Rightarrow> (u64 \<Rightarrow> u64 \<Rightarrow> 'w \<Rightarrow> 'w res) \<Rightarrow> BootInfo \<Rightarrow> pmm \<Rightarrow> 'w \<Rightarrow> (pmm \<times> 'w) res" where
  "freeAllEarlyMemory newpage unmap bi p w =
     bindE (foldE (pmm_free_late newpage unmap (bi_maximumIdentityMap bi)) (bi_mmEntries bi) (p, w)) (\<lambda>(p1, w1).
     bindE (unmap 0 (bi_maximumIdentityMap bi div PAGE_SIZE) w1) (\<lambda>w2.
     bindE (assertE (isPageAligned (bi_addr bi)) ''isPageAligned(addr)'') (\<lambda>_.
     bindE (pmm_deallocate newpage (bi_addr bi) 1 p1 w2) (\<lambda>(p2, w3).
     if \<not> extmm_checkConsistency (p_ext p2) then Inl (Abort ''pmm inconsistent!'')
     else Inr (p2\<lparr>p_allocated := 0\<rparr>, w3)))))"

section \<open>What a client holds\<close>

text \<open>
  A client of the allocator and the blocks it holds: it frees only a block it got, whole.
\<close>

datatype pmm_call = PAlloc u64 bool | PFree nat

fun pmm_step ::
  "('w \<Rightarrow> (u64 \<times> 'w) res) \<Rightarrow> pmm_call \<Rightarrow> pmm \<times> (u64 \<times> u64) list \<times> 'w \<Rightarrow> (pmm \<times> (u64 \<times> u64) list \<times> 'w) res"
where
  "pmm_step newpage (PAlloc num below) (p, held, w) =
     bindE (pmm_allocate num below p) (\<lambda>(a, p'). Inr (p', (a, num) # held, w))"
| "pmm_step newpage (PFree i) (p, held, w) =
     (if i < length held
      then bindE (pmm_deallocate newpage (fst (held ! i)) (snd (held ! i)) p w) (\<lambda>(p', w').
             Inr (p', take i held @ drop (Suc i) held, w'))
      else Inr (p, held, w))"

abbreviation pmm_free :: "pmm \<Rightarrow> nat set" where
  "pmm_free p \<equiv> ext_free (x_head (p_ext p))"

fun held_ok :: "(u64 \<times> u64) list \<Rightarrow> bool" where
  "held_ok [] = True"
| "held_ok ((a, n) # bs) \<longleftrightarrow>
     fits a n \<and> isPageAligned a \<and> a \<noteq> 0 \<and> n \<noteq> 0 \<and> (\<forall>(b, m)\<in>set bs. span a n \<inter> span b m = {}) \<and> held_ok bs"

definition pmm_inv :: "nat set \<Rightarrow> pmm \<Rightarrow> (u64 \<times> u64) list \<Rightarrow> bool" where
  "pmm_inv M p held \<longleftrightarrow>
     ext_wf (x_head (p_ext p)) \<and> ext_aligned (x_head (p_ext p)) \<and> (\<forall>e\<in>set (x_head (p_ext p)). e_size e \<noteq> 0) \<and>
     pmm_free p \<subseteq> M \<and> held_ok held \<and> (\<forall>(a, n)\<in>set held. span a n \<subseteq> M \<and> span a n \<inter> pmm_free p = {})"

lemma held_ok_append:
  "held_ok (xs @ ys) \<longleftrightarrow> held_ok xs \<and> held_ok ys \<and> (\<forall>x\<in>set xs. \<forall>y\<in>set ys. span (fst x) (snd x) \<inter> span (fst y) (snd y) = {})"
  by (induction xs rule: held_ok.induct) (auto simp: split_beta)

lemma held_ok_split:
  assumes "held_ok (xs @ (a, n) # ys)"
  shows "held_ok (xs @ ys)" "fits a n" "isPageAligned a" "a \<noteq> 0" "n \<noteq> 0"
    "\<forall>x\<in>set (xs @ ys). span a n \<inter> span (fst x) (snd x) = {}"
  using assms by (auto simp: held_ok_append split_beta Int_commute)

lemma pmm_allocate_inv:
  assumes inv: "pmm_inv M p held" and al: "pmm_allocate num below p = Inr (a, p')"
  shows "pmm_inv M p' ((a, num) # held)" "span a num \<subseteq> pmm_free p"
    "pmm_free p' = pmm_free p - span a num"
    "p_allocated p' = p_allocated p + num * PAGE_SIZE" "p_zero p' = p_zero p"
proof -
  let ?sat = "\<lambda>a l. if below then pmm_end a l < 0xFFFFFFFF else True"
  from al obtain x where x: "extmm_allocate num ?sat (p_ext p) = Inr (a, x)" "a \<noteq> 0"
    and p': "p' = p\<lparr>p_ext := x, p_allocated := p_allocated p + num * PAGE_SIZE\<rparr>"
    by (auto simp: pmm_allocate_def)
  have wf: "ext_wf (x_head (p_ext p))" "ext_aligned (x_head (p_ext p))" "\<forall>e\<in>set (x_head (p_ext p)). e_size e \<noteq> 0"
    using inv by (auto simp: pmm_inv_def)
  have num: "num \<noteq> 0" using x(1) by (auto simp: extmm_allocate_def)
  have f: "fits a num" "span a num \<subseteq> pmm_free p" "ext_free (x_head x) = pmm_free p - span a num" "ext_wf (x_head x)"
    using extmm_allocate_free [OF x(1) wf(1)] x(2) by auto
  note sh = extmm_allocate_shape [OF x(1)]
  show "span a num \<subseteq> pmm_free p" "pmm_free p' = pmm_free p - span a num"
    using f p' by auto
  show "pmm_inv M p' ((a, num) # held)"
    unfolding pmm_inv_def
  proof (intro conjI)
    have old: "\<forall>x\<in>set held. span (fst x) (snd x) \<subseteq> M \<and> span (fst x) (snd x) \<inter> pmm_free p = {}"
      using inv unfolding pmm_inv_def split_beta by blast
    then show "held_ok ((a, num) # held)"
      using inv f(1,2) sh(1) wf(2) x(2) num by (auto simp: pmm_inv_def split_beta)
    show "\<forall>(b, n)\<in>set ((a, num) # held). span b n \<subseteq> M \<and> span b n \<inter> pmm_free p' = {}"
      using old f(2,3) inv p' by (auto simp: pmm_inv_def split_beta)
  qed (use inv f sh wf p' in \<open>auto simp: pmm_inv_def\<close>)
qed (use al in \<open>auto simp: pmm_allocate_def\<close>)

lemma pmm_deallocate_inv:
  assumes inv: "pmm_inv M p (xs @ (a, n) # ys)" and zero: "span (p_zero p) 1 \<inter> M = {}"
    and de: "pmm_deallocate newpage a n p w = Inr (p', w')"
  shows "pmm_inv M p' (xs @ ys)" "p_allocated p' = p_allocated p - n * PAGE_SIZE" "p_zero p' = p_zero p"
    "pmm_free p' \<subseteq> pmm_free p \<union> span a n"
proof -
  have held: "held_ok (xs @ (a, n) # ys)" and wf: "ext_wf (x_head (p_ext p))" "ext_aligned (x_head (p_ext p))"
    "\<forall>e\<in>set (x_head (p_ext p)). e_size e \<noteq> 0" and free: "pmm_free p \<subseteq> M"
    and blk: "span a n \<subseteq> M" "span a n \<inter> pmm_free p = {}"
    and oth: "\<forall>(b, m)\<in>set (xs @ ys). span b m \<subseteq> M \<and> span b m \<inter> pmm_free p = {}"
    using inv by (auto simp: pmm_inv_def)
  note h = held_ok_split [OF held]
  have "a \<noteq> p_zero p"
  proof
    assume "a = p_zero p"
    moreover have "unat a \<in> span a n" "unat a \<in> span a 1" using h(5) by (auto simp: span_def unat_gt_0)
    ultimately show False using blk(1) zero by auto
  qed
  with de obtain x where x: "extmm_deallocate newpage a n (p_ext p) w = Inr (x, w')"
    and p': "p' = p\<lparr>p_ext := x, p_allocated := p_allocated p - n * PAGE_SIZE\<rparr>"
    by (auto simp: pmm_deallocate_def split: if_splits)
  note f = extmm_deallocate_free [OF wf(1) h(2) blk(2) x]
  note sh = extmm_deallocate_shape [OF x]
  show sub: "pmm_free p' \<subseteq> pmm_free p \<union> span a n" using f p' by auto
  have "\<forall>(b, m)\<in>set (xs @ ys). span b m \<subseteq> M \<and> span b m \<inter> pmm_free p' = {}"
    using oth h(6) sub by (fastforce simp: split_beta)
  then show "pmm_inv M p' (xs @ ys)"
    unfolding pmm_inv_def using f sh wf h free blk(1) sub p' by auto
  show "p_allocated p' = p_allocated p - n * PAGE_SIZE" "p_zero p' = p_zero p" using p' by auto
qed

definition held_bytes :: "(u64 \<times> u64) list \<Rightarrow> u64" where
  "held_bytes held = sum_list (map (\<lambda>(a, n). n * PAGE_SIZE) held)"

lemma pmm_step_inv:
  assumes inv: "pmm_inv M p held" and zero: "span (p_zero p) 1 \<inter> M = {}"
    and st: "pmm_step newpage c (p, held, w) = Inr (p', held', w')"
  shows "pmm_inv M p' held' \<and> p_zero p' = p_zero p \<and>
    p_allocated p' - held_bytes held' = p_allocated p - held_bytes held"
proof (cases c)
  case (PAlloc num below)
  with st obtain a where "pmm_allocate num below p = Inr (a, p')" "held' = (a, num) # held" by auto
  with pmm_allocate_inv [OF inv this(1)] show ?thesis by (simp add: held_bytes_def)
next
  case (PFree i)
  show ?thesis
  proof (cases "i < length held")
    case True
    obtain a n where an: "held ! i = (a, n)" by (cases "held ! i")
    have sp: "held = take i held @ (a, n) # drop (Suc i) held"
      using id_take_nth_drop [OF True] an by simp
    from st True PFree an have de: "pmm_deallocate newpage a n p w = Inr (p', w')"
      and held': "held' = take i held @ drop (Suc i) held" by auto
    note d = pmm_deallocate_inv [OF _ zero de, of "take i held" "drop (Suc i) held"]
    have "held_bytes held = n * PAGE_SIZE + held_bytes held'"
      unfolding held' by (subst sp) (simp add: held_bytes_def)
    with d inv sp held' show ?thesis by (simp add: algebra_simps)
  next
    case False
    with st PFree inv show ?thesis by simp
  qed
qed

lemma pmm_steps_inv:
  assumes "pmm_inv M p held" "span (p_zero p) 1 \<inter> M = {}" "foldE (pmm_step newpage) cs (p, held, w) = Inr (p', held', w')"
  shows "pmm_inv M p' held' \<and> p_zero p' = p_zero p \<and> p_allocated p' - held_bytes held' = p_allocated p - held_bytes held"
  using assms
proof (induction cs arbitrary: p held w)
  case (Cons c cs)
  from Cons.prems(3) obtain p1 held1 w1 where st: "pmm_step newpage c (p, held, w) = Inr (p1, held1, w1)"
    and rest: "foldE (pmm_step newpage) cs (p1, held1, w1) = Inr (p', held', w')"
    by (auto simp: bindE_Inr_iff)
  note i = pmm_step_inv [OF Cons.prems(1,2) st]
  with Cons.IH [of p1 held1 w1] Cons.prems(2) rest show ?case by simp
qed simp

text \<open>The ways a client's call can stop.\<close>

lemma pmm_step_stops:
  assumes inv: "pmm_inv M p held" and st: "pmm_step newpage c (p, held, w) = Inl err"
  shows "err = Abort ''cannot allocate 0 pages'' \<or> err = AssertFail ''ret'' \<or> newpage w = Inl err"
proof (cases c)
  case (PAlloc num below)
  with st show ?thesis
    by (auto simp: pmm_allocate_def bindE_Inl_iff assertE_def extmm_allocate_def split: if_splits option.splits)
next
  case (PFree i)
  show ?thesis
  proof (cases "i < length held")
    case True
    obtain a n where an: "held ! i = (a, n)" by (cases "held ! i")
    have sp: "held = take i held @ (a, n) # drop (Suc i) held"
      using id_take_nth_drop [OF True] an by simp
    have "held_ok (take i held @ (a, n) # drop (Suc i) held)" using inv sp by (simp add: pmm_inv_def)
    note h = held_ok_split [OF this]
    have "(a, n) \<in> set held" using True an by (metis nth_mem)
    then have dj: "span a n \<inter> pmm_free p = {}" using inv by (auto simp: pmm_inv_def)
    from st True PFree an h have "extmm_deallocate newpage a n (p_ext p) w = Inl err"
      by (auto simp: pmm_deallocate_def bindE_Inl_iff nonZero_def split: if_splits)
    then have "newpage w = Inl err"
      using extmm_deallocate_stops [OF _ h(5) dj, of newpage w err] inv by (simp add: pmm_inv_def)
    then show ?thesis by simp
  qed (use st PFree in simp)
qed

section \<open>The memory map\<close>

definition mm_avail :: "MemMapEntry \<Rightarrow> bool" where
  "mm_avail m \<longleftrightarrow> mm_memoryType m = Available \<and> mm_address m > 0"

abbreviation mm_span :: "MemMapEntry \<Rightarrow> nat set" where
  "mm_span m \<equiv> span (mm_address m) (mm_numPages m)"

definition mm_memory :: "MemMapEntry list \<Rightarrow> nat set" where
  "mm_memory ms = (\<Union>m\<in>set (filter mm_avail ms). mm_span m)"

text \<open>A memory map in ascending order, with whole nonempty entries.\<close>

definition mm_ok :: "MemMapEntry list \<Rightarrow> bool" where
  "mm_ok ms \<longleftrightarrow>
     sorted_wrt (\<lambda>m m'. unat (mm_address m) + unat (mm_numPages m) * 4096 \<le> unat (mm_address m')) (filter mm_avail ms) \<and>
     (\<forall>m\<in>set (filter mm_avail ms). fits (mm_address m) (mm_numPages m) \<and> isPageAligned (mm_address m) \<and> mm_numPages m \<noteq> 0)"

lemma mm_memory_simps [simp]:
  "mm_memory [] = {}" "mm_memory (m # ms) = (if mm_avail m then mm_span m else {}) \<union> mm_memory ms"
  by (auto simp: mm_memory_def)

text \<open>Freeing a block above all free memory: nothing is lost.\<close>

lemma extmm_deallocate_above:
  assumes wf: "ext_wf (x_head st)" "\<forall>e\<in>set (x_head st). e_size e \<noteq> 0" and f: "fits a n"
    and above: "\<forall>x\<in>ext_free (x_head st). x < unat a"
    and de: "extmm_deallocate newpage a n st w = Inr (st', w')"
  shows "ext_wf (x_head st') \<and> ext_free (x_head st') = ext_free (x_head st) \<union> span a n"
proof -
  have dj: "span a n \<inter> ext_free (x_head st) = {}" using above by (auto simp: span_def)
  have "e_addr e \<noteq> ext_end a n" if e: "e \<in> set (x_head st)" for e
  proof -
    have "unat (e_addr e) \<in> espan e" using wf(2) e by (simp add: span_def unat_gt_0)
    with e above espan_sub_free have "unat (e_addr e) < unat a" by blast
    then show ?thesis using ext_end_nat [OF f] by auto
  qed
  with extmm_deallocate_free [OF wf(1) f dj de] show ?thesis by blast
qed

definition pool_ok :: "pmm \<Rightarrow> bool" where
  "pool_ok p \<longleftrightarrow> ext_wf (x_head (p_ext p)) \<and> ext_aligned (x_head (p_ext p)) \<and> (\<forall>e\<in>set (x_head (p_ext p)). e_size e \<noteq> 0)"

lemma pmm_add_entry_ok:
  assumes "pool_ok p" "mm_avail m" "fits (mm_address m) (mm_numPages m)" "isPageAligned (mm_address m)" "mm_numPages m \<noteq> 0"
    and "\<forall>x\<in>pmm_free p. x < unat (mm_address m)" and "pmm_add_entry newpage m (p, w) = Inr (p', w')"
  shows "pool_ok p' \<and> pmm_free p' = pmm_free p \<union> mm_span m"
proof -
  from assms(2,7) obtain x where x: "extmm_deallocate newpage (mm_address m) (mm_numPages m) (p_ext p) w = Inr (x, w')"
    and p': "p' = p\<lparr>p_ext := x, p_total := p_total p + mm_numPages m * 0x1000\<rparr>"
    by (auto simp: pmm_add_entry_def mm_avail_def)
  have wf: "ext_wf (x_head (p_ext p))" "\<forall>e\<in>set (x_head (p_ext p)). e_size e \<noteq> 0" "ext_aligned (x_head (p_ext p))"
    using assms(1) by (auto simp: pool_ok_def)
  have "ext_wf (x_head x) \<and> ext_free (x_head x) = pmm_free p \<union> mm_span m"
    using extmm_deallocate_above [OF wf(1,2) assms(3,6) x] by simp
  with extmm_deallocate_shape [OF x] wf assms(3-5) p' show ?thesis
    by (simp add: pool_ok_def)
qed

lemma pmm_add_entries_ok:
  assumes "pool_ok p" "mm_ok ms" "\<forall>x\<in>pmm_free p. \<forall>m\<in>set (filter mm_avail ms). x < unat (mm_address m)"
    and "foldE (pmm_add_entry newpage) ms (p, w) = Inr (p', w')"
  shows "pool_ok p' \<and> pmm_free p' = pmm_free p \<union> mm_memory ms \<and> p_allocated p' = p_allocated p"
  using assms
proof (induction ms arbitrary: p w)
  case (Cons m ms)
  from Cons.prems(4) obtain p1 w1 where st: "pmm_add_entry newpage m (p, w) = Inr (p1, w1)"
    and rest: "foldE (pmm_add_entry newpage) ms (p1, w1) = Inr (p', w')" by auto
  have ok: "mm_ok ms" using Cons.prems(2) by (simp add: mm_ok_def split: if_splits)
  show ?case
  proof (cases "mm_avail m")
    case False
    then have "p1 = p" using st by (auto simp: pmm_add_entry_def mm_avail_def split: if_splits)
    with Cons.IH [of p w1] Cons.prems(1,3) ok rest False show ?thesis by auto
  next
    case True
    then have m: "fits (mm_address m) (mm_numPages m)" "isPageAligned (mm_address m)" "mm_numPages m \<noteq> 0"
      and le: "\<forall>m'\<in>set (filter mm_avail ms). unat (mm_address m) + unat (mm_numPages m) * 4096 \<le> unat (mm_address m')"
      using Cons.prems(2) by (auto simp: mm_ok_def)
    have "\<forall>x\<in>pmm_free p. x < unat (mm_address m)" using Cons.prems(3) True by simp
    note a = pmm_add_entry_ok [OF Cons.prems(1) True m this st]
    have al: "p_allocated p1 = p_allocated p"
      using st True by (auto simp: pmm_add_entry_def mm_avail_def)
    have "\<forall>x\<in>pmm_free p1. \<forall>m'\<in>set (filter mm_avail ms). x < unat (mm_address m')"
      using a le Cons.prems(3) True by (fastforce simp: span_def)
    with Cons.IH [of p1 w1] a ok rest True al show ?thesis by auto
  qed
qed simp

lemma pmm_init_result:
  assumes steal: "pmm_steal (bi_mmEntries bi) = Some (base, ms)" and ok: "mm_ok ms"
    and init: "pmm_init newpage kproc cr3 bi mem w = Inr (p, bi', mem', w')"
  shows "pmm_free p = mm_memory ms - span (p_zero p) 1" "span (p_zero p) 1 \<subseteq> mm_memory ms"
    "pool_ok p" "p_zero p \<noteq> 0" "p_allocated p = 0" "bi_mmEntries bi' = ms"
    "\<exists>mem1 f. bootstrap cr3 base PMM_STACK_BASE NumReservedPages mem = Inr mem1 \<and>
        mmu_walk mem1 cr3 (p_zero p) = Some f \<and> mem' = mem1(f := \<lambda>_. 0)"
proof -
  let ?p0 = "\<lparr>p_ext = extmm_init ''pmm'' PMM_STACK_BASE PMM_STACK_END kproc, p_total = 0, p_allocated = 0, p_zero = 0\<rparr>"
  let ?sat = "\<lambda>x l. pmm_end x l < bi_maximumIdentityMap bi"
  from init steal obtain mem1 p1 zp x where
    b: "bootstrap cr3 base PMM_STACK_BASE NumReservedPages mem = Inr mem1" and
    add: "foldE (pmm_add_entry newpage) ms (?p0, w) = Inr (p1, w')" and
    al: "extmm_allocate 1 ?sat (p_ext p1) = Inr (zp, x)" and zp: "zp \<noteq> 0" and
    pz: "page_zero mem1 cr3 zp = Inr mem'" and p: "p = p1\<lparr>p_ext := x, p_zero := zp\<rparr>" and
    bi: "bi' = bi\<lparr>bi_mmEntries := ms\<rparr>"
    by (auto simp: pmm_init_def split: if_splits)
  have p0: "pool_ok ?p0" "pmm_free ?p0 = {}" by (simp_all add: pool_ok_def extmm_init_def)
  have p1: "pool_ok p1 \<and> pmm_free p1 = mm_memory ms \<and> p_allocated p1 = 0"
    using pmm_add_entries_ok [OF p0(1) ok _ add] p0(2) by simp
  then have wf: "ext_wf (x_head (p_ext p1))" by (simp add: pool_ok_def)
  have f: "span zp 1 \<subseteq> pmm_free p1" "ext_free (x_head x) = pmm_free p1 - span zp 1" "ext_wf (x_head x)"
    using extmm_allocate_free [OF al wf] zp by auto
  show "pmm_free p = mm_memory ms - span (p_zero p) 1" "span (p_zero p) 1 \<subseteq> mm_memory ms" "p_zero p \<noteq> 0"
    "p_allocated p = 0" "bi_mmEntries bi' = ms"
    using f p p1 zp bi by auto
  show "pool_ok p"
    using p p1 f extmm_allocate_shape [OF al] by (simp add: pool_ok_def)
  show "\<exists>mem1 f. bootstrap cr3 base PMM_STACK_BASE NumReservedPages mem = Inr mem1 \<and>
        mmu_walk mem1 cr3 (p_zero p) = Some f \<and> mem' = mem1(f := \<lambda>_. 0)"
    using b pz p by (auto simp: page_zero_def split: option.splits)
qed

lemma pmm_steal_disjoint:
  assumes "pmm_steal ms = Some (base, ms')" "mm_ok ms" "base \<noteq> 0"
  shows "span base 8 \<inter> mm_memory ms' = {}"
  using assms
proof (induction ms arbitrary: ms')
  case (Cons m ms)
  have ok: "mm_ok ms" using Cons.prems(2) by (simp add: mm_ok_def split: if_splits)
  show ?case
  proof (cases "mm_memoryType m = Available \<and> NumReservedPages \<le> mm_numPages m")
    case True
    let ?m = "m\<lparr>mm_address := mm_address m + NumReservedPages * 0x1000, mm_numPages := mm_numPages m - NumReservedPages\<rparr>"
    have eq: "base = mm_address m" "ms' = ?m # ms" using True Cons.prems(1) by auto
    then have av: "mm_avail m" using True Cons.prems(3) by (auto simp: mm_avail_def word_neq_0_conv)
    then have fit: "fits (mm_address m) (mm_numPages m)"
      and le: "\<forall>m'\<in>set (filter mm_avail ms). unat (mm_address m) + unat (mm_numPages m) * 4096 \<le> unat (mm_address m')"
      using Cons.prems(2) by (auto simp: mm_ok_def)
    have "8 \<le> mm_numPages m" using True by (simp add: NumReservedPages_def)
    note sp = span_split [OF fit this]
    have "span base 8 \<inter> mm_span ?m = {}"
      using sp(2) eq by (auto simp: NumReservedPages_def PAGE_SIZE_def)
    moreover have "span base 8 \<inter> mm_memory ms = {}"
      using le sp(3) eq unfolding mm_memory_def by (fastforce simp: span_def)
    ultimately show ?thesis using eq by auto
  next
    case False
    with Cons.prems(1) obtain ms1 where ms1: "pmm_steal ms = Some (base, ms1)" "ms' = m # ms1" by auto
    have rest: "span base 8 \<inter> mm_memory ms1 = {}" using Cons.IH [OF ms1(1) ok Cons.prems(3)] .
    show ?thesis
    proof (cases "mm_avail m")
      case True
      have "\<exists>e\<in>set (filter mm_avail ms). base = mm_address e"
        using ms1(1) Cons.prems(3)
      proof (induction ms arbitrary: ms1)
        case (Cons e ms)
        then show ?case by (fastforce simp: mm_avail_def word_neq_0_conv split: if_splits)
      qed simp
      then have "unat (mm_address m) + unat (mm_numPages m) * 4096 \<le> unat base"
        using Cons.prems(2) True by (auto simp: mm_ok_def)
      with rest True ms1(2) show ?thesis by (fastforce simp: span_def)
    qed (use rest ms1(2) in simp)
  qed
qed simp

section \<open>Properties\<close>


text \<open>
  C1: No physical page is handed out twice. Start from the pool \<^verbatim>\<open>init\<close> leaves (memory \<open>M\<close>, which
  does not contain the zero page) and run any sequence of \<^verbatim>\<open>pmm::allocate\<close> calls and of
  \<^verbatim>\<open>pmm::deallocate\<close> calls on blocks that were handed out: the blocks held at the end are nonempty,
  page aligned, not null, pairwise disjoint, part of \<open>M\<close> and disjoint from the free memory, none of
  them contains the zero page, and \<^verbatim>\<open>numAllocatedBytes\<close> has grown by exactly their size.
\<close>

theorem pmm_never_hands_out_twice:
  assumes "pmm_inv M p []" and "span (getZeroPage p) 1 \<inter> M = {}"
    and "foldE (pmm_step newpage) cs (p, [], w) = Inr (p', held, w')"
  shows "held_ok held \<and> (\<forall>(a, n)\<in>set held. span a n \<subseteq> M \<and> span a n \<inter> pmm_free p' = {} \<and>
      span a n \<inter> span (getZeroPage p') 1 = {}) \<and>
    pmm_free p' \<subseteq> M \<and> p_allocated p' = p_allocated p + held_bytes held"
proof -
  have i: "pmm_inv M p' held" "p_zero p' = p_zero p" "p_allocated p' - held_bytes held = p_allocated p"
    using pmm_steps_inv [OF assms(1) _ assms(3)] assms(2) by (simp_all add: getZeroPage_def held_bytes_def)
  have "p_allocated p' = p_allocated p + held_bytes held" using i(3) by (simp flip: i(3))
  moreover have "span (getZeroPage p') 1 \<inter> M = {}" using i(2) assms(2) by (simp add: getZeroPage_def)
  ultimately show ?thesis
    using i(1) unfolding pmm_inv_def split_beta by blast
qed



section \<open>A concrete boot\<close>

text \<open>Tables at 0x1000 to 0x4000 identity map the first 2 MiB.\<close>

definition boot_mem :: physmem where
  "boot_mem f i =
     (if f = 0x1000 then (if i = 510 then 0x1003 else if i = 0 then 0x2003 else 0)
      else if f = 0x2000 then (if i = 0 then 0x3003 else 0)
      else if f = 0x3000 then (if i = 0 then 0x4003 else 0)
      else if f = 0x4000 then (if i < 512 then i * 0x1000 + 3 else 0)
      else 0)"

definition mm_entry :: "u64 \<Rightarrow> u64 \<Rightarrow> MemoryType \<Rightarrow> MemMapEntry" where
  "mm_entry a n t = \<lparr>mm_address = a, mm_numPages = n, mm_memoryType = t, mm_efiAttributes = 0\<rparr>"

definition boot_info :: "MemMapEntry list \<Rightarrow> BootInfo" where
  "boot_info ms = \<lparr>bi_addr = 0x5000, bi_mmEntries = ms, bi_maximumIdentityMap = 0x200000\<rparr>"

definition boot_run :: "MemMapEntry list \<Rightarrow> (pmm \<times> BootInfo \<times> physmem \<times> unit) res" where
  "boot_run ms = pmm_init (\<lambda>w. Inr (0, w)) 1 0x1000 (boot_info ms) boot_mem ()"

definition boot_map :: "MemMapEntry list" where
  "boot_map = [mm_entry 0x10000 32 Available, mm_entry 0x40000 4 Reserved, mm_entry 0x50000 16 Available]"

lemma boot_run_ok:
  "(case boot_run boot_map of Inl _ \<Rightarrow> False
    | Inr (p, _, _, _) \<Rightarrow> p_zero p = 0x50000 \<and> p_total p = 40 * 0x1000)"
  by code_simp

lemma boot_map_steal:
  "pmm_steal (bi_mmEntries (boot_info boot_map)) =
     Some (0x10000, [mm_entry 0x18000 24 Available, mm_entry 0x40000 4 Reserved, mm_entry 0x50000 16 Available])"
  by code_simp

lemma boot_map_ok:
  "mm_ok (bi_mmEntries (boot_info boot_map))"
  "mm_ok [mm_entry 0x18000 24 Available, mm_entry 0x40000 4 Reserved, mm_entry 0x50000 16 Available]"
  by (simp_all add: mm_ok_def boot_map_def boot_info_def mm_entry_def mm_avail_def fits_def isPageAligned_dvd)


definition pmm_demo :: pmm where
  "pmm_demo = \<lparr>p_ext = ext_demo, p_total = 0x4000, p_allocated = 0, p_zero = 0x9000\<rparr>"

lemma pmm_demo_inv: "pmm_inv {0x10000..<0x14000} pmm_demo []" "span (getZeroPage pmm_demo) 1 \<inter> {0x10000..<0x14000} = {}"
  using ext_demo_wf ext_demo_free by (auto simp: pmm_inv_def pmm_demo_def getZeroPage_def span_def)

definition pmm_demo_run :: "(pmm \<times> (u64 \<times> u64) list \<times> unit) res" where
  "pmm_demo_run = foldE (pmm_step (\<lambda>w. Inr (0, w))) [PAlloc 1 False, PAlloc 2 True, PFree 1] (pmm_demo, [], ())"

lemma pmm_demo_run_ok: "\<exists>p. pmm_demo_run = Inr (p, [(0x11000, 2)], ())"
proof -
  have "case pmm_demo_run of Inl _ \<Rightarrow> False | Inr (p, held, _) \<Rightarrow> held = [(0x11000, 2)]" by code_simp
  then show ?thesis by (auto split: sum.splits)
qed

theorem pmm_never_hands_out_twice_witness:
  "\<exists>p held. pmm_demo_run = Inr (p, held, ()) \<and> held = [(0x11000, 2)] \<and> p_allocated p = 2 * PAGE_SIZE"
proof -
  obtain p where r: "pmm_demo_run = Inr (p, [(0x11000, 2)], ())" using pmm_demo_run_ok by blast
  from pmm_never_hands_out_twice [OF pmm_demo_inv r [unfolded pmm_demo_run_def]] r
  show ?thesis by (auto simp: held_bytes_def pmm_demo_def)
qed



text \<open>
  A memory map whose first available entry has exactly the reserved eight pages cannot boot: the
  emptied entry becomes an extent of no pages, which the final consistency check refuses.
\<close>

lemma pmm_init_eight_page_entry:
  "boot_run [mm_entry 0x10000 8 Available, mm_entry 0x50000 16 Available] =
     Inl (Abort ''inconsistent memory map from bootloader!'')"
proof -
  have "case boot_run [mm_entry 0x10000 8 Available, mm_entry 0x50000 16 Available] of
      Inl e \<Rightarrow> e = Abort ''inconsistent memory map from bootloader!'' | Inr _ \<Rightarrow> False" by code_simp
  then show ?thesis by (simp split: sum.splits)
qed

end
