(* ===== verification/VMRegion.thy ===== *)
theory VMRegion
  imports Extmm Hashmap
begin

text \<open>
  The record a process keeps of its virtual memory: \<^verbatim>\<open>VMRegion\<close>, \<^verbatim>\<open>SharedVMRegion\<close> and
  \<^verbatim>\<open>AddressSpace\<close> of \<^verbatim>\<open>kernel/include/mm.h\<close> and \<^verbatim>\<open>kernel/source/mm/vmregion.cpp\<close>. Arrays are
  lists, the backing pages the hash map of \<^verbatim>\<open>libkrt\<close>, and the \<^verbatim>\<open>SharedPhysRegion\<close> objects, which
  several address spaces point to, a store from addresses to their page maps. \<^verbatim>\<open>pmm::deallocate(p, 1)\<close>
  is the argument \<open>freephys\<close>, \<^verbatim>\<open>heap::initialised()\<close> the argument \<open>hi\<close>. Each method runs under the
  address space's lock, so it is one step.
\<close>

section \<open>State\<close>

record vmregion =
  r_addr :: u64
  r_numPages :: u64
  r_backing :: "(u64, u64) hashmap"

record svmregion =
  s_addr :: u64
  s_numPages :: u64
  s_store :: u64

type_synonym shared_store = "u64 \<Rightarrow> (u64, u64) hashmap"

record addrspace =
  as_cr3 :: u64
  as_regions :: "vmregion list"
  as_shared :: "svmregion list"
  as_vmm :: "AddressSpaceType \<Rightarrow> extmm"
  as_tracked :: "u64 list"

definition page_hash :: "u64 \<Rightarrow> u64" where
  "page_hash v = drop_bit ALIGN_BITS v"

definition size_hash :: "u64 \<Rightarrow> u64" where
  "size_hash n = n"

section \<open>Regions\<close>

definition vm_end :: "u64 \<Rightarrow> u64 \<Rightarrow> u64" where
  "vm_end addr num = addr + ofsPages num"

definition vmr_new :: "u64 \<Rightarrow> u64 \<Rightarrow> vmregion" where
  "vmr_new addr num = \<lparr>r_addr = addr, r_numPages = num, r_backing = hm_new\<rparr>"

definition vmr_clone :: "vmregion \<Rightarrow> vmregion" where
  "vmr_clone r = \<lparr>r_addr = r_addr r, r_numPages = r_numPages r, r_backing = hm_copy (r_backing r)\<rparr>"

definition vmr_end :: "vmregion \<Rightarrow> u64" where
  "vmr_end r = r_addr r + ofsPages (r_numPages r)"

definition vmr_lookup :: "u64 \<Rightarrow> vmregion \<Rightarrow> u64 option" where
  "vmr_lookup virt r = hm_at page_hash virt (r_backing r)"

text \<open>\<^verbatim>\<open>base + ofsPages(i)\<close> for \<open>i\<close> from 0 to \<open>n - 1\<close>.\<close>

definition page_seq :: "u64 \<Rightarrow> u64 \<Rightarrow> u64 list" where
  "page_seq base n = map (\<lambda>i. base + ofsPages (of_nat i)) [0..<unat n]"

definition remove_pages :: "u64 list \<Rightarrow> (u64, u64) hashmap \<Rightarrow> (u64, u64) hashmap res" where
  "remove_pages = foldE (\<lambda>v m. bindE (hm_remove page_hash v m) (\<lambda>(_, m'). Inr m'))"

definition grow_down :: "u64 \<Rightarrow> vmregion \<Rightarrow> vmregion" where
  "grow_down cnt r = r\<lparr>r_addr := r_addr r - ofsPages cnt, r_numPages := r_numPages r + cnt\<rparr>"

definition grow_up :: "u64 \<Rightarrow> vmregion \<Rightarrow> vmregion" where
  "grow_up cnt r = r\<lparr>r_numPages := r_numPages r + cnt\<rparr>"

definition shrink_down :: "u64 \<Rightarrow> vmregion \<Rightarrow> vmregion res" where
  "shrink_down cnt r =
     bindE (assertE (cnt \<le> r_numPages r) ''count <= this->numPages'') (\<lambda>_.
     bindE (remove_pages (page_seq (vmr_end r) cnt) (r_backing r)) (\<lambda>m.
       Inr (r\<lparr>r_backing := m, r_numPages := r_numPages r - cnt\<rparr>)))"

definition shrink_up :: "u64 \<Rightarrow> vmregion \<Rightarrow> vmregion res" where
  "shrink_up cnt r =
     bindE (assertE (cnt \<le> r_numPages r) ''count <= this->numPages'') (\<lambda>_.
     bindE (remove_pages (page_seq (r_addr r) cnt) (r_backing r)) (\<lambda>m.
       Inr (r\<lparr>r_addr := r_addr r + ofsPages cnt, r_backing := m, r_numPages := r_numPages r - cnt\<rparr>)))"

definition svmr_end :: "svmregion \<Rightarrow> u64" where
  "svmr_end r = s_addr r + ofsPages (s_numPages r)"

definition svmr_lookup :: "u64 \<Rightarrow> shared_store \<Rightarrow> svmregion \<Rightarrow> u64 option" where
  "svmr_lookup virt sh r = hm_at size_hash ((virt - s_addr r) div PAGE_SIZE) (sh (s_store r))"

definition shared_destroy :: "(u64 \<Rightarrow> 'w \<Rightarrow> 'w res) \<Rightarrow> (u64, u64) hashmap \<Rightarrow> 'w \<Rightarrow> 'w res" where
  "shared_destroy freephys m = foldE freephys (map snd (hm_nodes m))"

section \<open>Address spaces\<close>

definition as_init :: "u64 \<Rightarrow> ('w \<Rightarrow> (u64 \<times> 'w) res) \<Rightarrow> addrspace \<Rightarrow> 'w \<Rightarrow> (addrspace \<times> 'w) res" where
  "as_init cr3 allocphys s w =
     (if nonZero cr3 then Inr (s\<lparr>as_cr3 := cr3\<rparr>, w)
      else bindE (allocphys w) (\<lambda>(p, w'). Inr (s\<lparr>as_cr3 := p\<rparr>, w')))"

definition as_destroy :: "(u64 \<Rightarrow> 'w \<Rightarrow> 'w res) \<Rightarrow> addrspace \<Rightarrow> 'w \<Rightarrow> 'w res" where
  "as_destroy freephys s w =
     bindE (freephys (as_cr3 s) w) (\<lambda>w1.
     bindE (foldE freephys (as_tracked s) w1) (\<lambda>w2.
       foldE (\<lambda>r. foldE (\<lambda>(v, p) w. if nonZero p then freephys p w else Inr w) (hm_nodes (r_backing r)))
         (as_regions s) w2))"

definition addTrackedPhysPage :: "u64 \<Rightarrow> addrspace \<Rightarrow> addrspace" where
  "addTrackedPhysPage addr s = s\<lparr>as_tracked := as_tracked s @ [addr]\<rparr>"

definition addTrackedPhysPages :: "u64 \<Rightarrow> u64 \<Rightarrow> addrspace \<Rightarrow> addrspace" where
  "addTrackedPhysPages base cnt s = s\<lparr>as_tracked := as_tracked s @ page_seq base cnt\<rparr>"

definition removeTrackedPhysPage :: "u64 \<Rightarrow> addrspace \<Rightarrow> addrspace" where
  "removeTrackedPhysPage addr s = s\<lparr>as_tracked := removeAll addr (as_tracked s)\<rparr>"

definition removeTrackedPhysPages :: "u64 \<Rightarrow> u64 \<Rightarrow> addrspace \<Rightarrow> addrspace" where
  "removeTrackedPhysPages base cnt s = fold removeTrackedPhysPage (page_seq base cnt) s"

text \<open>The loop both \<^verbatim>\<open>addRegion\<close> methods run: \<open>down\<close> and \<open>up\<close> grow the region that is next to the block.\<close>

fun join_region ::
  "u64 \<Rightarrow> u64 \<Rightarrow> kerror \<Rightarrow> (vmregion \<Rightarrow> vmregion) \<Rightarrow> (vmregion \<Rightarrow> vmregion) \<Rightarrow> vmregion list \<Rightarrow> vmregion list option res"
where
  "join_region addr num err down up [] = Inr None"
| "join_region addr num err down up (r # rs) =
     (if vm_end addr num = r_addr r then Inr (Some (down r # rs))
      else if vmr_end r = addr then Inr (Some (up r # rs))
      else if r_addr r = addr then Inl err
      else bindE (join_region addr num err down up rs) (\<lambda>x. Inr (map_option (Cons r) x)))"

definition addRegion :: "bool \<Rightarrow> u64 \<Rightarrow> u64 \<Rightarrow> addrspace \<Rightarrow> addrspace res" where
  "addRegion hi addr num s =
     bindE (assertE hi ''heap::initialised()'') (\<lambda>_.
     bindE (assertE (isPageAligned addr) ''addr.isPageAligned()'') (\<lambda>_.
     bindE (join_region addr num (Abort ''vmregion: potential double free!'') (grow_down num) (grow_up num) (as_regions s)) (\<lambda>x.
       Inr (s\<lparr>as_regions := (case x of Some rs \<Rightarrow> rs | None \<Rightarrow> as_regions s @ [vmr_new addr num])\<rparr>))))"

definition update_phys :: "u64 \<Rightarrow> u64 \<Rightarrow> u64 \<Rightarrow> vmregion \<Rightarrow> vmregion" where
  "update_phys virt phys num r =
     r\<lparr>r_backing := fold (\<lambda>i. hm_assign page_hash 0 (virt + ofsPages (of_nat i)) (phys + ofsPages (of_nat i)))
                     [0..<unat num] (r_backing r)\<rparr>"

definition addRegionPhys :: "bool \<Rightarrow> u64 \<Rightarrow> u64 \<Rightarrow> u64 \<Rightarrow> addrspace \<Rightarrow> addrspace res" where
  "addRegionPhys hi addr physStart num s =
     bindE (assertE hi ''heap::initialised()'') (\<lambda>_.
     bindE (assertE (isPageAligned addr \<and> isPageAligned physStart) ''addr.isPageAligned() && physStart.isPageAligned()'') (\<lambda>_.
     bindE (join_region addr num (Abort ''vmregion: potential double add!'')
              (\<lambda>r. let r' = grow_down num r in update_phys (r_addr r') physStart num r')
              (\<lambda>r. update_phys (r_addr r + ofsPages (r_numPages r)) physStart num (grow_up num r))
              (as_regions s)) (\<lambda>x.
       Inr (s\<lparr>as_regions := (case x of Some rs \<Rightarrow> rs
                                     | None \<Rightarrow> as_regions s @ [update_phys addr physStart num (vmr_new addr num)])\<rparr>))))"

definition addSharedRegion :: "svmregion \<Rightarrow> addrspace \<Rightarrow> addrspace res" where
  "addSharedRegion region s =
     (if region \<in> set (as_shared s) then Inl (Abort ''vmregion: adding duplicate region!'')
      else Inr (s\<lparr>as_shared := as_shared s @ [region]\<rparr>))"

definition removeSharedRegion :: "svmregion \<Rightarrow> addrspace \<Rightarrow> addrspace" where
  "removeSharedRegion region s = s\<lparr>as_shared := removeAll region (as_shared s)\<rparr>"

text \<open>The loops of \<^verbatim>\<open>freeRegion\<close> that free the pages behind a range: \<^verbatim>\<open>operator []\<close>, then \<^verbatim>\<open>pmm::deallocate\<close>.\<close>

definition free_page ::
  "(u64 \<Rightarrow> 'w \<Rightarrow> 'w res) \<Rightarrow> u64 \<Rightarrow> (u64, u64) hashmap \<times> 'w \<Rightarrow> ((u64, u64) hashmap \<times> 'w) res" where
  "free_page freephys v = (\<lambda>(m, w).
     let (p, m') = hm_subscript page_hash 0 v m
     in if nonZero p then bindE (freephys p w) (\<lambda>w'. Inr (m', w')) else Inr (m', w))"

definition free_backing ::
  "(u64 \<Rightarrow> 'w \<Rightarrow> 'w res) \<Rightarrow> bool \<Rightarrow> u64 list \<Rightarrow> vmregion \<Rightarrow> 'w \<Rightarrow> (vmregion \<times> 'w) res" where
  "free_backing freephys freePhys vs r w =
     (if freePhys
      then bindE (foldE (free_page freephys) vs (r_backing r, w)) (\<lambda>(m, w'). Inr (r\<lparr>r_backing := m\<rparr>, w'))
      else Inr (r, w))"

definition keep_region :: "vmregion \<Rightarrow> vmregion list" where
  "keep_region r = (if r_numPages r = 0 then [] else [r])"

fun free_region ::
  "(u64 \<Rightarrow> 'w \<Rightarrow> 'w res) \<Rightarrow> bool \<Rightarrow> u64 \<Rightarrow> u64 \<Rightarrow> vmregion list \<Rightarrow> 'w \<Rightarrow> (vmregion list \<times> vmregion list \<times> 'w) option res"
where
  "free_region freephys freePhys addr num [] w = Inr None"
| "free_region freephys freePhys addr num (r # rs) w =
     (if r_addr r \<le> addr \<and> vm_end addr num \<le> vmr_end r
      then (if r_addr r = addr
            then bindE (free_backing freephys freePhys (page_seq (r_addr r) num) r w) (\<lambda>(r1, w').
                 bindE (shrink_up num r1) (\<lambda>r2. Inr (Some (keep_region r2 @ rs, [], w'))))
            else if vm_end addr num = vmr_end r
            then bindE (free_backing freephys freePhys
                          (map (\<lambda>i. r_addr r + ofsPages (r_numPages r - 1 - of_nat i)) [0..<unat num]) r w) (\<lambda>(r1, w').
                 bindE (shrink_down num r1) (\<lambda>r2. Inr (Some (keep_region r2 @ rs, [], w'))))
            else let numFrontPages = (addr - r_addr r) div PAGE_SIZE;
                     numBackPages = (vmr_end r - vm_end addr num) div PAGE_SIZE
                 in bindE (assertE (numFrontPages > 0 \<and> numBackPages > 0) ''numFrontPages > 0 && numBackPages > 0'') (\<lambda>_.
                    bindE (free_backing freephys freePhys
                             (map (\<lambda>i. r_addr r + ofsPages (numFrontPages + of_nat i)) [0..<unat num]) r w) (\<lambda>(r1, w').
                    bindE (shrink_down (num + numBackPages) r1) (\<lambda>r2.
                    bindE (shrink_up (numFrontPages + num) (vmr_clone r)) (\<lambda>back.
                      Inr (Some (keep_region r2 @ rs, keep_region back, w')))))))
      else bindE (free_region freephys freePhys addr num rs w) (\<lambda>x.
             Inr (map_option (\<lambda>(rs', back, w'). (r # rs', back, w')) x)))"

definition freeRegion ::
  "bool \<Rightarrow> (u64 \<Rightarrow> 'w \<Rightarrow> 'w res) \<Rightarrow> u64 \<Rightarrow> u64 \<Rightarrow> bool \<Rightarrow> addrspace \<Rightarrow> 'w \<Rightarrow> (addrspace \<times> 'w) res" where
  "freeRegion hi freephys addr num freePhys s w =
     bindE (assertE hi ''heap::initialised()'') (\<lambda>_.
     bindE (assertE (isPageAligned addr) ''addr.isPageAligned()'') (\<lambda>_.
     bindE (free_region freephys freePhys addr num (as_regions s) w) (\<lambda>x.
       case x of None \<Rightarrow> Inl (Abort ''vmregion: did not find matching extent'')
       | Some (rs, back, w') \<Rightarrow> Inr (s\<lparr>as_regions := rs @ back\<rparr>, w'))))"

definition vmr_contains :: "vmregion \<Rightarrow> u64 \<Rightarrow> bool" where
  "vmr_contains r v \<longleftrightarrow> r_addr r \<le> v \<and> v < vmr_end r"

definition svmr_contains :: "svmregion \<Rightarrow> u64 \<Rightarrow> bool" where
  "svmr_contains r v \<longleftrightarrow> s_addr r \<le> v \<and> v < svmr_end r"

fun region_map :: "u64 \<Rightarrow> u64 \<Rightarrow> vmregion list \<Rightarrow> (u64 \<times> vmregion list) option" where
  "region_map virt phys [] = None"
| "region_map virt phys (r # rs) =
     (if vmr_contains r virt
      then Some ((case hm_at page_hash virt (r_backing r) of Some p \<Rightarrow> p | None \<Rightarrow> 0),
                 r\<lparr>r_backing := hm_assign page_hash 0 virt phys (r_backing r)\<rparr> # rs)
      else map_option (\<lambda>(old, rs'). (old, r # rs')) (region_map virt phys rs))"

fun shared_map :: "u64 \<Rightarrow> u64 \<Rightarrow> svmregion list \<Rightarrow> shared_store \<Rightarrow> (u64 \<times> shared_store) option" where
  "shared_map virt phys [] sh = None"
| "shared_map virt phys (r # rs) sh =
     (if svmr_contains r virt
      then let pageIdx = (virt - s_addr r) div PAGE_SIZE; m = sh (s_store r)
           in Some ((case hm_at size_hash pageIdx m of Some p \<Rightarrow> p | None \<Rightarrow> 0),
                    sh(s_store r := hm_assign size_hash 0 pageIdx phys m))
      else shared_map virt phys rs sh)"

definition addPhysicalMapping ::
  "u64 \<Rightarrow> u64 \<Rightarrow> addrspace \<Rightarrow> shared_store \<Rightarrow> (u64 \<times> addrspace \<times> shared_store) res" where
  "addPhysicalMapping virt phys s sh =
     (case region_map virt phys (as_regions s) of
        Some (old, rs) \<Rightarrow> Inr (old, s\<lparr>as_regions := rs\<rparr>, sh)
      | None \<Rightarrow> (case shared_map virt phys (as_shared s) sh of
                   Some (old, sh') \<Rightarrow> Inr (old, s, sh')
                 | None \<Rightarrow> Inl (Abort ''vmregion: did not find matching extent'')))"

definition lookupVirtualMapping :: "u64 \<Rightarrow> addrspace \<Rightarrow> shared_store \<Rightarrow> u64 option \<times> u64 option" where
  "lookupVirtualMapping addr s sh =
     (case List.find (\<lambda>r. svmr_contains r addr) (as_shared s) of
        Some r \<Rightarrow> (Some addr, svmr_lookup addr sh r)
      | None \<Rightarrow> (case List.find (\<lambda>r. vmr_contains r addr) (as_regions s) of
                   Some r \<Rightarrow> (Some addr, vmr_lookup addr r)
                 | None \<Rightarrow> (None, None)))"

section \<open>Pages and their map\<close>

definition pages :: "u64 set" where
  "pages = {a. isPageAligned a}"

lemma pages_image: "pages \<subseteq> (\<lambda>n. of_nat n * PAGE_SIZE) ` {..<2 ^ 52}"
proof
  fix a assume "a \<in> pages"
  then have d: "4096 dvd unat a" by (simp add: pages_def isPageAligned_dvd)
  then have e: "unat a = unat a div 4096 * 4096" by simp
  have "a = of_nat (unat a div 4096) * PAGE_SIZE"
    using unat_u64_lt [of a] e unat_end [of 0 "of_nat (unat a div 4096)"]
    by (simp add: u64_eq_unat fits_def unat_of_nat take_bit_nat_eq_self)
  moreover have "unat a div 4096 < 2 ^ 52"
    using unat_u64_lt [of a] by (simp add: div_less_iff_less_mult)
  ultimately show "a \<in> (\<lambda>n. of_nat n * PAGE_SIZE) ` {..<2 ^ 52}" by blast
qed

lemma pages_card: "finite pages" "card pages < 2 ^ 60"
proof -
  show fin: "finite pages" using pages_image by (rule finite_subset) simp
  have "card pages \<le> card {..<2 ^ 52 :: nat}"
    using card_mono [OF _ pages_image] card_image_le [of "{..<2 ^ 52 :: nat}"] by (meson finite_imageI finite_lessThan order_trans)
  then show "card pages < 2 ^ 60" by simp
qed

interpretation backing: krt_map "hm_inv page_hash pages" pages "hm_map page_hash" "hm_assign page_hash 0"
    "hm_remove page_hash" "hm_new :: (u64, u64) hashmap"
  by (rule hashmap_is_krt_map [OF pages_card])

lemma remove_pages_ok:
  assumes "hm_inv page_hash pages m"
  shows "\<exists>m'. remove_pages vs m = Inr m' \<and> hm_inv page_hash pages m' \<and>
    hm_map page_hash m' = (\<lambda>k. if k \<in> set vs then None else hm_map page_hash m k)"
  unfolding remove_pages_def using backing.remove_all [OF assms] .

lemma page_seq_nth: "i < unat n \<Longrightarrow> page_seq a n ! i = a + ofsPages (of_nat i)"
  by (simp add: page_seq_def)

lemma length_page_seq [simp]: "length (page_seq a n) = unat n"
  by (simp add: page_seq_def)

lemma unat_page:
  assumes "fits a n" "i < unat n"
  shows "unat (a + ofsPages (of_nat i)) = unat a + i * 4096"
proof -
  have i: "i < 2 ^ 64" using assms(2) unat_u64_lt [of n] by simp
  have "unat (of_nat i :: u64) = i" using i by (simp add: unat_of_nat take_bit_nat_eq_self)
  moreover have "i * 4096 < unat n * 4096" using assms(2) by simp
  ultimately show ?thesis
    using assms(1) unat_end [of a "of_nat i"] by (simp add: ofsPages_def fits_def)
qed

lemma aligned_page [simp]: "isPageAligned a \<Longrightarrow> isPageAligned (a + ofsPages i)"
  by (intro isPageAligned_add) simp_all

lemma set_page_seq:
  assumes "fits a n" "isPageAligned a"
  shows "set (page_seq a n) = {v. isPageAligned v \<and> unat v \<in> span a n}" "distinct (page_seq a n)"
proof -
  have "v \<in> set (page_seq a n)" if v: "isPageAligned v" "unat v \<in> span a n" for v
  proof -
    let ?i = "(unat v - unat a) div 4096"
    have "4096 dvd unat v - unat a" using v(1) assms(2) by (simp add: isPageAligned_dvd dvd_diff_nat)
    then have e: "?i * 4096 = unat v - unat a" by simp
    then have i: "?i < unat n" using v(2) by (auto simp: span_def)
    have "unat (a + ofsPages (of_nat ?i)) = unat v"
      using unat_page [OF assms(1) i] e v(2) by (auto simp: span_def)
    then have "v = page_seq a n ! ?i" using i by (simp add: page_seq_nth u64_eq_unat)
    then show ?thesis using i by (metis length_page_seq nth_mem)
  qed
  moreover have "isPageAligned v \<and> unat v \<in> span a n" if v: "v \<in> set (page_seq a n)" for v
  proof -
    obtain i where i: "i < unat n" "v = a + ofsPages (of_nat i)" using v by (auto simp: page_seq_def)
    then have "unat v = unat a + i * 4096" using unat_page [OF assms(1)] by simp
    with i show ?thesis using assms(2) by (auto simp: span_def)
  qed
  ultimately show "set (page_seq a n) = {v. isPageAligned v \<and> unat v \<in> span a n}" by blast
  show "distinct (page_seq a n)"
  proof (simp add: distinct_conv_nth page_seq_nth, intro allI impI)
    fix i j assume ij: "i < unat n" "j < unat n" "i \<noteq> j"
    then have "unat (a + ofsPages (of_nat i)) \<noteq> unat (a + ofsPages (of_nat j))"
      using unat_page [OF assms(1)] by simp
    then show "ofsPages (of_nat i) \<noteq> ofsPages (of_nat j)" by auto
  qed
qed

text \<open>The physical pages recorded for a list of virtual pages, without holes.\<close>

definition backed :: "(u64 \<rightharpoonup> u64) \<Rightarrow> u64 list \<Rightarrow> u64 list" where
  "backed f vs = filter nonZero (map (\<lambda>v. case f v of None \<Rightarrow> 0 | Some p \<Rightarrow> p) vs)"

lemma backed_simps [simp]:
  "backed f [] = []"
  "backed f (v # vs) = (case f v of None \<Rightarrow> [] | Some p \<Rightarrow> if nonZero p then [p] else []) @ backed f vs"
  by (auto simp: backed_def nonZero_def split: option.splits)

lemma backed_cong: "(\<And>v. v \<in> set vs \<Longrightarrow> f v = g v) \<Longrightarrow> backed f vs = backed g vs"
  by (induction vs) auto

lemma free_pages_ok:
  assumes "hm_inv page_hash pages m" "set vs \<subseteq> pages" "distinct vs"
  shows "\<exists>m'. (\<forall>w. foldE (free_page freephys) vs (m, w) =
        bindE (foldE freephys (backed (hm_map page_hash m) vs) w) (\<lambda>w'. Inr (m', w'))) \<and>
    hm_inv page_hash pages m' \<and> (\<forall>k. k \<notin> set vs \<longrightarrow> hm_map page_hash m' k = hm_map page_hash m k)"
  using assms
proof (induction vs arbitrary: m)
  case (Cons v vs)
  let ?p = "case hm_map page_hash m v of None \<Rightarrow> 0 | Some p \<Rightarrow> p"
  define m1 where "m1 = snd (hm_subscript page_hash 0 v m)"
  have "v \<in> pages" using Cons.prems(2) by simp
  note h = hm_subscript_ok [OF Cons.prems(1) this, of 0]
  have sub: "hm_subscript page_hash 0 v m = (?p, m1)"
    using h by (simp add: m1_def prod_eq_iff)
  have m1: "hm_inv page_hash pages m1" "hm_map page_hash m1 = (hm_map page_hash m)(v \<mapsto> ?p)"
    using h by (simp_all add: m1_def)
  have "set vs \<subseteq> pages" "distinct vs" using Cons.prems(2,3) by simp_all
  from Cons.IH [OF m1(1) this] obtain m2 where m2: "\<forall>w. foldE (free_page freephys) vs (m1, w) =
        bindE (foldE freephys (backed (hm_map page_hash m1) vs) w) (\<lambda>w'. Inr (m2, w'))"
    "hm_inv page_hash pages m2" "\<forall>k. k \<notin> set vs \<longrightarrow> hm_map page_hash m2 k = hm_map page_hash m1 k"
    by blast
  have b: "backed (hm_map page_hash m1) vs = backed (hm_map page_hash m) vs"
    using Cons.prems(3) m1(2) by (intro backed_cong) auto
  have "foldE (free_page freephys) (v # vs) (m, w) =
      bindE (foldE freephys (backed (hm_map page_hash m) (v # vs)) w) (\<lambda>w'. Inr (m2, w'))" for w
    using m2(1) b
    by (auto simp: free_page_def sub foldE_append bindE_assoc nonZero_def split: option.splits)
  moreover have "\<forall>k. k \<notin> set (v # vs) \<longrightarrow> hm_map page_hash m2 k = hm_map page_hash m k"
    using m2(3) m1(2) by simp
  ultimately show ?case using m2(2) by blast
qed simp

section \<open>Regions as sets of pages\<close>

abbreviation rspan :: "vmregion \<Rightarrow> nat set" where
  "rspan r \<equiv> span (r_addr r) (r_numPages r)"

definition region_ok :: "vmregion \<Rightarrow> bool" where
  "region_ok r \<longleftrightarrow> fits (r_addr r) (r_numPages r) \<and> isPageAligned (r_addr r) \<and> r_numPages r \<noteq> 0 \<and>
     hm_inv page_hash pages (r_backing r)"

text \<open>A region without entries for pages outside it.\<close>

definition region_clean :: "vmregion \<Rightarrow> bool" where
  "region_clean r \<longleftrightarrow> (\<forall>v. hm_map page_hash (r_backing r) v \<noteq> None \<longrightarrow> vmr_contains r v)"

fun regions_ok :: "vmregion list \<Rightarrow> bool" where
  "regions_ok [] = True"
| "regions_ok (r # rs) \<longleftrightarrow> region_ok r \<and> (\<forall>r'\<in>set rs. rspan r \<inter> rspan r' = {}) \<and> regions_ok rs"

definition cover :: "vmregion list \<Rightarrow> nat set" where
  "cover rs = (\<Union>r\<in>set rs. rspan r)"

definition rec_map :: "vmregion list \<Rightarrow> u64 \<Rightarrow> u64 option" where
  "rec_map rs v = (case List.find (\<lambda>r. vmr_contains r v) rs of None \<Rightarrow> None | Some r \<Rightarrow> vmr_lookup v r)"

lemma cover_simps [simp]: "cover [] = {}" "cover (r # rs) = rspan r \<union> cover rs" "cover (rs @ rs') = cover rs \<union> cover rs'"
  by (auto simp: cover_def)

lemma rec_map_simps [simp]:
  "rec_map [] v = None" "rec_map (r # rs) v = (if vmr_contains r v then vmr_lookup v r else rec_map rs v)"
  by (simp_all add: rec_map_def)

lemma vmr_lookup_map: "vmr_lookup v r = hm_map page_hash (r_backing r) v"
  by (simp add: vmr_lookup_def hm_at_map)

lemma vmr_end_nat: "fits (r_addr r) (r_numPages r) \<Longrightarrow> unat (vmr_end r) = unat (r_addr r) + unat (r_numPages r) * 4096"
  by (simp add: vmr_end_def ofsPages_def unat_end)

lemma vm_end_nat: "fits a n \<Longrightarrow> unat (vm_end a n) = unat a + unat n * 4096"
  by (simp add: vm_end_def ofsPages_def unat_end)

lemma contains_span: "region_ok r \<Longrightarrow> vmr_contains r v \<longleftrightarrow> unat v \<in> rspan r"
  by (simp add: region_ok_def vmr_contains_def span_def word_le_nat_alt word_less_nat_alt vmr_end_nat)

lemma cover_regions: "regions_ok (r # rs) \<Longrightarrow> rspan r \<inter> cover rs = {}"
  by (auto simp: cover_def)

lemma regions_okI: "region_ok r \<Longrightarrow> rspan r \<inter> cover rs = {} \<Longrightarrow> regions_ok rs \<Longrightarrow> regions_ok (r # rs)"
  by (auto simp: cover_def)

lemma regions_ok_member: "regions_ok rs \<Longrightarrow> r \<in> set rs \<Longrightarrow> region_ok r"
  by (induction rs) auto

lemma regions_ok_append:
  "regions_ok (xs @ ys) \<longleftrightarrow> regions_ok xs \<and> regions_ok ys \<and> cover xs \<inter> cover ys = {}"
  by (induction xs) (auto simp: cover_def)

lemma rec_map_cover: "regions_ok rs \<Longrightarrow> unat v \<notin> cover rs \<Longrightarrow> rec_map rs v = None"
  by (induction rs) (auto simp: contains_span)

lemma rec_map_append:
  "regions_ok (xs @ ys) \<Longrightarrow> rec_map (xs @ ys) v = (if unat v \<in> cover xs then rec_map xs v else rec_map ys v)"
  by (induction xs) (auto simp: contains_span)

section \<open>Adding regions\<close>

text \<open>
  What growing a region by the block does: the block's pages map as \<open>f\<close> says, the others as before.
\<close>

definition grows :: "u64 \<Rightarrow> u64 \<Rightarrow> (u64 \<Rightarrow> u64 option) \<Rightarrow> vmregion \<Rightarrow> vmregion \<Rightarrow> bool" where
  "grows addr num f r r' \<longleftrightarrow>
     region_ok r' \<and> region_clean r' \<and> rspan r' = rspan r \<union> span addr num \<and>
     (\<forall>v. isPageAligned v \<longrightarrow> vmr_lookup v r' = (if unat v \<in> span addr num then f v else vmr_lookup v r))"

lemma join_region_ok:
  assumes "regions_ok rs" "\<forall>r\<in>set rs. region_clean r" and "fits addr num" "num \<noteq> 0" "span addr num \<inter> cover rs = {}"
    and down: "\<And>r. r \<in> set rs \<Longrightarrow> vm_end addr num = r_addr r \<Longrightarrow> grows addr num f r (down r)"
    and up: "\<And>r. r \<in> set rs \<Longrightarrow> vmr_end r = addr \<Longrightarrow> grows addr num f r (up r)"
  shows "\<exists>x. join_region addr num err down up rs = Inr x \<and>
    (\<forall>rs'. x = Some rs' \<longrightarrow> regions_ok rs' \<and> (\<forall>r\<in>set rs'. region_clean r) \<and> cover rs' = cover rs \<union> span addr num \<and>
       (\<forall>v. isPageAligned v \<longrightarrow> rec_map rs' v = (if unat v \<in> span addr num then f v else rec_map rs v)))"
  using assms
proof (induction rs)
  case (Cons r rs)
  have ok: "region_ok r" "regions_ok rs" "rspan r \<inter> cover rs = {}"
    using Cons.prems(1) cover_regions [OF Cons.prems(1)] by auto
  have here: "\<exists>x. join_region addr num err down up (r # rs) = Inr x \<and>
      (\<forall>rs'. x = Some rs' \<longrightarrow> regions_ok rs' \<and> (\<forall>r\<in>set rs'. region_clean r) \<and> cover rs' = cover (r # rs) \<union> span addr num \<and>
       (\<forall>v. isPageAligned v \<longrightarrow> rec_map rs' v = (if unat v \<in> span addr num then f v else rec_map (r # rs) v)))"
    if g: "grows addr num f r r'" and j: "join_region addr num err down up (r # rs) = Inr (Some (r' # rs))" for r'
  proof -
    have "regions_ok (r' # rs)"
      using g ok Cons.prems(5) by (intro regions_okI) (auto simp: grows_def)
    moreover have "rec_map (r' # rs) v = (if unat v \<in> span addr num then f v else rec_map (r # rs) v)"
      if "isPageAligned v" for v
      using g that ok(1) by (auto simp: grows_def contains_span)
    ultimately show ?thesis using g j Cons.prems(2) by (auto simp: grows_def)
  qed
  consider (below) "vm_end addr num = r_addr r" | (above) "vm_end addr num \<noteq> r_addr r" "vmr_end r = addr"
    | (rest) "vm_end addr num \<noteq> r_addr r" "vmr_end r \<noteq> addr" by blast
  then show ?case
  proof cases
    case below
    then show ?thesis using here [OF Cons.prems(6)] by simp
  next
    case above
    then show ?thesis using here [OF Cons.prems(7)] by simp
  next
    case rest
    have "r_addr r \<noteq> addr"
    proof
      assume "r_addr r = addr"
      then have "unat addr \<in> rspan r" "unat addr \<in> span addr num"
        using ok(1) Cons.prems(4) by (auto simp: region_ok_def span_def unat_gt_0)
      with Cons.prems(5) show False by auto
    qed
    moreover have dj: "span addr num \<inter> cover rs = {}" using Cons.prems(5) by auto
    moreover obtain x where x: "join_region addr num err down up rs = Inr x"
      and xs: "\<forall>rs'. x = Some rs' \<longrightarrow> regions_ok rs' \<and> (\<forall>r\<in>set rs'. region_clean r) \<and> cover rs' = cover rs \<union> span addr num \<and>
       (\<forall>v. isPageAligned v \<longrightarrow> rec_map rs' v = (if unat v \<in> span addr num then f v else rec_map rs v))"
      using Cons.IH [OF ok(2) _ Cons.prems(3,4) dj] Cons.prems(2,6,7) by auto
    moreover have "regions_ok (r # rs')" if "x = Some rs'" for rs'
      using xs that ok Cons.prems(5) by (intro regions_okI) auto
    moreover have "\<not> vmr_contains r v" if "unat v \<in> span addr num" for v
      using that Cons.prems(5) contains_span [OF ok(1)] by auto
    ultimately show ?thesis using rest Cons.prems(2) by (auto simp: Un_assoc)
  qed
qed simp

lemma span_grow_down:
  assumes "fits addr num" "fits (r_addr r) (r_numPages r)" "vm_end addr num = r_addr r"
  shows "r_addr r - ofsPages num = addr" "fits addr (r_numPages r + num)"
    "span addr (r_numPages r + num) = rspan r \<union> span addr num" "unat (r_numPages r + num) = unat (r_numPages r) + unat num"
proof -
  show "r_addr r - ofsPages num = addr" using assms(3) by (simp add: vm_end_def flip: assms(3))
  have n: "unat (r_addr r) = unat addr + unat num * 4096" using assms vm_end_nat by metis
  show s: "unat (r_numPages r + num) = unat (r_numPages r) + unat num"
    using assms(2) n by (intro unat_add_nowrap) (auto simp: fits_def)
  show "fits addr (r_numPages r + num)" "span addr (r_numPages r + num) = rspan r \<union> span addr num"
    using assms(2) n s by (auto simp: fits_def span_def)
qed

lemma span_grow_up:
  assumes "fits addr num" "fits (r_addr r) (r_numPages r)" "vmr_end r = addr"
  shows "fits (r_addr r) (r_numPages r + num)" "span (r_addr r) (r_numPages r + num) = rspan r \<union> span addr num"
    "unat (r_numPages r + num) = unat (r_numPages r) + unat num"
proof -
  have n: "unat addr = unat (r_addr r) + unat (r_numPages r) * 4096" using assms vmr_end_nat by metis
  show s: "unat (r_numPages r + num) = unat (r_numPages r) + unat num"
    using assms(1) n by (intro unat_add_nowrap) (auto simp: fits_def)
  show "fits (r_addr r) (r_numPages r + num)" "span (r_addr r) (r_numPages r + num) = rspan r \<union> span addr num"
    using assms(1) n s by (auto simp: fits_def span_def)
qed

text \<open>A region extended to the span of a block, with its backing map extended by \<open>f\<close> on the block.\<close>

lemma growsI:
  assumes "region_ok r" "region_clean r" "span addr num \<inter> rspan r = {}"
    and "fits (r_addr r') (r_numPages r')" "isPageAligned (r_addr r')" "r_numPages r' \<noteq> 0"
    and "rspan r' = rspan r \<union> span addr num" "hm_inv page_hash pages (r_backing r')"
    and "hm_map page_hash (r_backing r') =
      (\<lambda>v. if isPageAligned v \<and> unat v \<in> span addr num then f v else hm_map page_hash (r_backing r) v)"
  shows "grows addr num f r r'"
proof -
  have ok': "region_ok r'" using assms by (simp add: region_ok_def)
  have out: "hm_map page_hash (r_backing r) v = None" if "unat v \<in> span addr num" for v
    using assms(2,3) that contains_span [OF assms(1), of v] by (auto simp: region_clean_def)
  have "region_clean r'"
    using assms(2,7,9) contains_span [OF ok'] contains_span [OF assms(1)] by (auto simp: region_clean_def)
  with ok' assms(7,9) show ?thesis by (simp add: grows_def vmr_lookup_map)
qed

lemma empty_backing: "hm_inv page_hash pages (hm_new :: (u64, u64) hashmap)"
  by (rule backing.inv_new)

lemma clean_outside: "region_ok r \<Longrightarrow> region_clean r \<Longrightarrow> unat v \<notin> rspan r \<Longrightarrow> hm_map page_hash (r_backing r) v = None"
  using contains_span [of r v] unfolding region_clean_def by blast

lemma plus_pages_nonzero: "unat (a + b :: u64) = unat a + unat b \<Longrightarrow> b \<noteq> 0 \<Longrightarrow> a + b \<noteq> 0"
  by (metis add_is_0 unat_0 unat_eq_zero)

definition block_ok :: "u64 \<Rightarrow> u64 \<Rightarrow> bool" where
  "block_ok addr num \<longleftrightarrow> fits addr num \<and> num \<noteq> 0 \<and> isPageAligned addr"

text \<open>The backing map \<open>m\<close> is \<open>m0\<close> with the pages of a block mapped as \<open>f\<close> says.\<close>

definition backs :: "u64 \<Rightarrow> u64 \<Rightarrow> (u64 \<Rightarrow> u64 option) \<Rightarrow> (u64, u64) hashmap \<Rightarrow> (u64, u64) hashmap \<Rightarrow> bool" where
  "backs addr num f m0 m \<longleftrightarrow> hm_inv page_hash pages m \<and>
     hm_map page_hash m = (\<lambda>v. if isPageAligned v \<and> unat v \<in> span addr num then f v else hm_map page_hash m0 v)"

lemma grow_down_grows:
  assumes r: "region_ok r" "region_clean r" "span addr num \<inter> rspan r = {}" and blk: "block_ok addr num"
    and m: "backs addr num f (r_backing r) m" and e: "vm_end addr num = r_addr r"
  shows "grows addr num f r ((grow_down num r)\<lparr>r_backing := m\<rparr>)"
proof -
  have fr: "fits (r_addr r) (r_numPages r)" "fits addr num" using r(1) blk by (simp_all add: region_ok_def block_ok_def)
  note g = span_grow_down [OF fr(2,1) e]
  show ?thesis
    by (rule growsI [OF r])
      (use g r(1) blk m plus_pages_nonzero [OF g(4)] in \<open>simp_all add: grow_down_def block_ok_def backs_def\<close>)
qed

lemma grow_up_grows:
  assumes r: "region_ok r" "region_clean r" "span addr num \<inter> rspan r = {}" and blk: "block_ok addr num"
    and m: "backs addr num f (r_backing r) m" and e: "vmr_end r = addr"
  shows "grows addr num f r ((grow_up num r)\<lparr>r_backing := m\<rparr>)"
proof -
  have fr: "fits (r_addr r) (r_numPages r)" "isPageAligned (r_addr r)" "fits addr num"
    using r(1) blk by (simp_all add: region_ok_def block_ok_def)
  note g = span_grow_up [OF fr(3,1) e]
  show ?thesis
    by (rule growsI [OF r])
      (use g fr(2) r(1) blk m plus_pages_nonzero [OF g(3)] in \<open>simp_all add: grow_up_def block_ok_def backs_def\<close>)
qed

lemma new_region_ok:
  assumes "block_ok addr num" "backs addr num f hm_new m"
  shows "region_ok \<lparr>r_addr = addr, r_numPages = num, r_backing = m\<rparr>"
    "region_clean \<lparr>r_addr = addr, r_numPages = num, r_backing = m\<rparr>"
proof -
  let ?r = "\<lparr>r_addr = addr, r_numPages = num, r_backing = m\<rparr>"
  show ok: "region_ok ?r" using assms by (simp add: region_ok_def block_ok_def backs_def)
  show "region_clean ?r"
    unfolding region_clean_def contains_span [OF ok] using assms(2) by (auto simp: backs_def split: if_splits)
qed

text \<open>Adding a block whose pages map as \<open>f\<close> says, whichever way the list takes it.\<close>

lemma add_block_ok:
  assumes ok: "regions_ok rs" "\<forall>r\<in>set rs. region_clean r" and blk: "block_ok addr num" "span addr num \<inter> cover rs = {}"
    and down: "\<And>r. r \<in> set rs \<Longrightarrow> vm_end addr num = r_addr r \<Longrightarrow> grows addr num f r (down r)"
    and up: "\<And>r. r \<in> set rs \<Longrightarrow> vmr_end r = addr \<Longrightarrow> grows addr num f r (up r)"
    and new: "backs addr num f hm_new m"
  shows "\<exists>x rs'. join_region addr num err down up rs = Inr x \<and>
    rs' = (case x of Some rs' \<Rightarrow> rs' | None \<Rightarrow> rs @ [\<lparr>r_addr = addr, r_numPages = num, r_backing = m\<rparr>]) \<and>
    regions_ok rs' \<and> (\<forall>r\<in>set rs'. region_clean r) \<and> cover rs' = cover rs \<union> span addr num \<and>
    (\<forall>v. isPageAligned v \<longrightarrow> rec_map rs' v = (if unat v \<in> span addr num then f v else rec_map rs v))"
proof -
  have fit: "fits addr num" "num \<noteq> 0" using blk(1) by (simp_all add: block_ok_def)
  obtain x where x: "join_region addr num err down up rs = Inr x"
    and some: "\<forall>rs'. x = Some rs' \<longrightarrow> regions_ok rs' \<and> (\<forall>r\<in>set rs'. region_clean r) \<and> cover rs' = cover rs \<union> span addr num \<and>
       (\<forall>v. isPageAligned v \<longrightarrow> rec_map rs' v = (if unat v \<in> span addr num then f v else rec_map rs v))"
    using join_region_ok [OF ok fit blk(2) down up, of err] by blast
  show ?thesis
  proof (cases x)
    case None
    let ?r = "\<lparr>r_addr = addr, r_numPages = num, r_backing = m\<rparr>"
    note n = new_region_ok [OF blk(1) new]
    have app: "regions_ok (rs @ [?r])" using ok(1) n(1) blk(2) by (auto simp: regions_ok_append)
    have "rec_map (rs @ [?r]) v = (if unat v \<in> span addr num then f v else rec_map rs v)" if v: "isPageAligned v" for v
    proof -
      have "rec_map [?r] v = (if unat v \<in> span addr num then f v else None)"
        using v new by (simp add: contains_span [OF n(1)] vmr_lookup_map backs_def)
      moreover have "unat v \<notin> cover rs" if "unat v \<in> span addr num" using blk(2) that by blast
      ultimately show ?thesis
        using rec_map_append [OF app, of v] rec_map_cover [OF ok(1), of v] by (cases "unat v \<in> cover rs") auto
    qed
    moreover have "\<forall>r\<in>set (rs @ [?r]). region_clean r" using n(2) ok(2) by simp
    moreover have "cover (rs @ [?r]) = cover rs \<union> span addr num" by simp
    ultimately show ?thesis
      using None x app by (intro exI [of _ None] exI [of _ "rs @ [?r]"] conjI) (simp_all only: option.case, blast+)
  next
    case (Some rs')
    with x some show ?thesis by (intro exI [of _ "Some rs'"] exI [of _ rs']) (simp only: option.case, blast)
  qed
qed

lemma addRegion_ok:
  assumes ok: "regions_ok (as_regions s)" "\<forall>r\<in>set (as_regions s). region_clean r"
    and blk: "block_ok addr num" "span addr num \<inter> cover (as_regions s) = {}"
  shows "\<exists>rs'. addRegion True addr num s = Inr (s\<lparr>as_regions := rs'\<rparr>) \<and> regions_ok rs' \<and> (\<forall>r\<in>set rs'. region_clean r) \<and>
    cover rs' = cover (as_regions s) \<union> span addr num \<and>
    (\<forall>v. isPageAligned v \<longrightarrow> rec_map rs' v = (if unat v \<in> span addr num then None else rec_map (as_regions s) v))"
proof -
  have dj: "span addr num \<inter> rspan r = {}" if "r \<in> set (as_regions s)" for r
    using that blk(2) by (auto simp: cover_def)
  have same: "backs addr num (\<lambda>_. None) (r_backing r) (r_backing r)" if r: "r \<in> set (as_regions s)" for r
  proof -
    have "hm_map page_hash (r_backing r) v = None" if "unat v \<in> span addr num" for v
      using clean_outside [OF regions_ok_member [OF ok(1) r]] ok(2) r dj [OF r] that by auto
    then show ?thesis
      using regions_ok_member [OF ok(1) r] by (auto simp: backs_def region_ok_def fun_eq_iff)
  qed
  have g: "vm_end addr num = r_addr r \<Longrightarrow> grows addr num (\<lambda>_. None) r (grow_down num r)"
    "vmr_end r = addr \<Longrightarrow> grows addr num (\<lambda>_. None) r (grow_up num r)" if r: "r \<in> set (as_regions s)" for r
    using grow_down_grows [OF regions_ok_member [OF ok(1) r] _ dj [OF r] blk(1) same [OF r]]
      grow_up_grows [OF regions_ok_member [OF ok(1) r] _ dj [OF r] blk(1) same [OF r]] ok(2) r
    by (simp_all add: grow_down_def grow_up_def)
  have "backs addr num (\<lambda>_. None) hm_new hm_new"
    using empty_backing by (auto simp: backs_def fun_eq_iff)
  from add_block_ok [where down = "grow_down num" and up = "grow_up num" and err = "Abort ''vmregion: potential double free!''",
      OF ok blk g(1) g(2) this]
  obtain x rs' where x: "join_region addr num (Abort ''vmregion: potential double free!'') (grow_down num) (grow_up num) (as_regions s) = Inr x"
    "rs' = (case x of Some rs' \<Rightarrow> rs' | None \<Rightarrow> as_regions s @ [\<lparr>r_addr = addr, r_numPages = num, r_backing = hm_new\<rparr>])"
    and rs': "regions_ok rs'" "\<forall>r\<in>set rs'. region_clean r" "cover rs' = cover (as_regions s) \<union> span addr num"
      "\<forall>v. isPageAligned v \<longrightarrow> rec_map rs' v = (if unat v \<in> span addr num then None else rec_map (as_regions s) v)"
    by blast
  have "addRegion True addr num s = Inr (s\<lparr>as_regions := rs'\<rparr>)"
    using x blk(1) by (cases x) (simp_all add: addRegion_def block_ok_def vmr_new_def)
  with rs' show ?thesis by blast
qed

lemma update_phys_backs:
  assumes "block_ok addr num" "hm_inv page_hash pages (r_backing r)"
  shows "\<exists>m. update_phys addr phys num r = r\<lparr>r_backing := m\<rparr> \<and> backs addr num (\<lambda>v. Some (phys + (v - addr))) (r_backing r) m"
proof -
  have f: "fits addr num" "isPageAligned addr" using assms(1) by (simp_all add: block_ok_def)
  note ps = set_page_seq [OF f]
  let ?m = "fold (\<lambda>v. hm_assign page_hash 0 v (phys + (v - addr))) (page_seq addr num) (r_backing r)"
  have "update_phys addr phys num r = r\<lparr>r_backing := ?m\<rparr>"
    by (simp add: update_phys_def page_seq_def fold_map o_def)
  moreover have "backs addr num (\<lambda>v. Some (phys + (v - addr))) (r_backing r) ?m"
    using backing.assign_all [OF assms(2) _ ps(2), of "\<lambda>v. phys + (v - addr)"] ps(1)
    by (auto simp: backs_def pages_def)
  ultimately show ?thesis by blast
qed

lemma addRegionPhys_ok:
  assumes ok: "regions_ok (as_regions s)" "\<forall>r\<in>set (as_regions s). region_clean r"
    and blk: "block_ok addr num" "span addr num \<inter> cover (as_regions s) = {}" and phys: "isPageAligned phys"
  shows "\<exists>rs'. addRegionPhys True addr phys num s = Inr (s\<lparr>as_regions := rs'\<rparr>) \<and> regions_ok rs' \<and> (\<forall>r\<in>set rs'. region_clean r) \<and>
    cover rs' = cover (as_regions s) \<union> span addr num \<and>
    (\<forall>v. isPageAligned v \<longrightarrow> rec_map rs' v = (if unat v \<in> span addr num then Some (phys + (v - addr)) else rec_map (as_regions s) v))"
proof -
  let ?f = "\<lambda>v. Some (phys + (v - addr))"
  let ?down = "\<lambda>r. let r' = grow_down num r in update_phys (r_addr r') phys num r'"
  let ?up = "\<lambda>r. update_phys (r_addr r + ofsPages (r_numPages r)) phys num (grow_up num r)"
  have dj: "span addr num \<inter> rspan r = {}" if "r \<in> set (as_regions s)" for r
    using that blk(2) by (auto simp: cover_def)
  have down: "grows addr num ?f r (?down r)" if r: "r \<in> set (as_regions s)" and e: "vm_end addr num = r_addr r" for r
  proof -
    have rok: "region_ok r" "region_clean r" using regions_ok_member [OF ok(1) r] ok(2) r by auto
    then have "hm_inv page_hash pages (r_backing (grow_down num r))" by (simp add: grow_down_def region_ok_def)
    moreover have "r_addr (grow_down num r) = addr"
      using e by (simp add: grow_down_def vm_end_def flip: e)
    ultimately obtain m where "?down r = (grow_down num r)\<lparr>r_backing := m\<rparr>"
      "backs addr num ?f (r_backing (grow_down num r)) m"
      using update_phys_backs [OF blk(1), of "grow_down num r" phys] by (auto simp: Let_def)
    then show ?thesis using grow_down_grows [OF rok dj [OF r] blk(1) _ e] by (simp add: grow_down_def)
  qed
  have up: "grows addr num ?f r (?up r)" if r: "r \<in> set (as_regions s)" and e: "vmr_end r = addr" for r
  proof -
    have rok: "region_ok r" "region_clean r" using regions_ok_member [OF ok(1) r] ok(2) r by auto
    then have "hm_inv page_hash pages (r_backing (grow_up num r))" by (simp add: grow_up_def region_ok_def)
    then obtain m where "?up r = (grow_up num r)\<lparr>r_backing := m\<rparr>" "backs addr num ?f (r_backing (grow_up num r)) m"
      using update_phys_backs [OF blk(1), of "grow_up num r" phys] e by (auto simp: vmr_end_def)
    then show ?thesis using grow_up_grows [OF rok dj [OF r] blk(1) _ e] by (simp add: grow_up_def)
  qed
  obtain m where "update_phys addr phys num (vmr_new addr num) = \<lparr>r_addr = addr, r_numPages = num, r_backing = m\<rparr>"
    "backs addr num ?f hm_new m"
    using update_phys_backs [OF blk(1), of "vmr_new addr num"] empty_backing by (auto simp: vmr_new_def)
  note m = this
  from add_block_ok [where down = ?down and up = ?up and err = "Abort ''vmregion: potential double add!''",
      OF ok blk down up m(2)]
  obtain x rs' where x: "join_region addr num (Abort ''vmregion: potential double add!'') ?down ?up (as_regions s) = Inr x"
    "rs' = (case x of Some rs' \<Rightarrow> rs' | None \<Rightarrow> as_regions s @ [\<lparr>r_addr = addr, r_numPages = num, r_backing = m\<rparr>])"
    and rs': "regions_ok rs'" "\<forall>r\<in>set rs'. region_clean r" "cover rs' = cover (as_regions s) \<union> span addr num"
      "\<forall>v. isPageAligned v \<longrightarrow> rec_map rs' v = (if unat v \<in> span addr num then ?f v else rec_map (as_regions s) v)"
    by blast
  have "addRegionPhys True addr phys num s = Inr (s\<lparr>as_regions := rs'\<rparr>)"
    using x blk(1) phys m(1) by (cases x) (simp_all add: addRegionPhys_def block_ok_def)
  with rs' show ?thesis by blast
qed

section \<open>Freeing regions\<close>

lemma block_in_region:
  assumes "region_ok r" "block_ok addr num"
  shows "r_addr r \<le> addr \<and> vm_end addr num \<le> vmr_end r \<longleftrightarrow> span addr num \<subseteq> rspan r"
proof -
  have f: "fits (r_addr r) (r_numPages r)" "fits addr num" "0 < unat num"
    using assms by (auto simp: region_ok_def block_ok_def unat_gt_0)
  have "span addr num \<subseteq> rspan r \<longleftrightarrow>
      unat (r_addr r) \<le> unat addr \<and> unat addr + unat num * 4096 \<le> unat (r_addr r) + unat (r_numPages r) * 4096"
    using f(3) by (auto simp: span_def)
  then show ?thesis
    by (simp add: word_le_nat_alt vm_end_nat [OF f(2)] vmr_end_nat [OF f(1)])
qed

lemma shrink_up_ok:
  assumes "region_ok r" "n \<le> r_numPages r"
  shows "\<exists>m. shrink_up n r = Inr (r\<lparr>r_addr := r_addr r + ofsPages n, r_backing := m, r_numPages := r_numPages r - n\<rparr>) \<and>
    hm_inv page_hash pages m \<and>
    (\<forall>v. isPageAligned v \<longrightarrow> hm_map page_hash m v = (if unat v \<in> span (r_addr r) n then None else hm_map page_hash (r_backing r) v))"
proof -
  have r: "hm_inv page_hash pages (r_backing r)" "isPageAligned (r_addr r)" "fits (r_addr r) n"
    using assms fits_mono by (auto simp: region_ok_def)
  from remove_pages_ok [OF r(1), of "page_seq (r_addr r) n"] set_page_seq(1) [OF r(3,2)] assms(2)
  show ?thesis by (auto simp: shrink_up_def)
qed

lemma wrapped_below:
  fixes a n k M t :: nat
  assumes "t = (a + n + k) mod M" "n + k < M" "a + n < M" "a \<le> t" "t < a + n"
  shows False
proof (cases "a + n + k < M")
  case False
  then have "t = a + n + k - M" using assms(1,2,3) by (simp add: le_mod_geq)
  then show ?thesis using assms(2,4) False by linarith
qed (use assms in simp)

lemma shrink_down_ok:
  assumes "region_ok r" "n \<le> r_numPages r" "unat (r_numPages r) < 2 ^ 51"
  shows "\<exists>m. shrink_down n r = Inr (r\<lparr>r_backing := m, r_numPages := r_numPages r - n\<rparr>) \<and> hm_inv page_hash pages m \<and>
    (\<forall>v. unat v \<in> rspan r \<longrightarrow> hm_map page_hash m v = hm_map page_hash (r_backing r) v)"
proof -
  have r: "hm_inv page_hash pages (r_backing r)" "fits (r_addr r) (r_numPages r)" using assms(1) by (auto simp: region_ok_def)
  have le: "unat n \<le> unat (r_numPages r)" using assms(2) by (simp add: word_le_nat_alt)
  have "v \<notin> set (page_seq (vmr_end r) n)" if v: "unat v \<in> rspan r" for v
  proof
    assume "v \<in> set (page_seq (vmr_end r) n)"
    then obtain i where i: "i < unat n" "v = vmr_end r + ofsPages (of_nat i)" by (auto simp: page_seq_def)
    have "i < 2 ^ 51" using i(1) le assms(3) by simp
    then have "unat (ofsPages (of_nat i)) = i * 4096"
      by (simp add: unat_ofsPages unat_of_nat take_bit_nat_eq_self)
    then have "unat v = (unat (r_addr r) + unat (r_numPages r) * 4096 + i * 4096) mod 2 ^ 64"
      using i(2) vmr_end_nat [OF r(2)] by (simp add: unat_word_ariths)
    moreover have "unat (r_numPages r) * 4096 + i * 4096 < 2 ^ 64"
      using \<open>i < 2 ^ 51\<close> assms(3) by simp
    ultimately show False
      using v r(2) wrapped_below [of "unat v" "unat (r_addr r)" "unat (r_numPages r) * 4096" "i * 4096" "2 ^ 64"]
      by (simp add: span_def fits_def)
  qed
  with remove_pages_ok [OF r(1), of "page_seq (vmr_end r) n"] assms(2) show ?thesis
    by (auto simp: shrink_down_def)
qed

lemma free_backing_ok:
  assumes "region_ok r" "set vs \<subseteq> pages" "distinct vs"
  shows "\<exists>m. (\<forall>w. free_backing freephys True vs r w =
      bindE (foldE freephys (backed (hm_map page_hash (r_backing r)) vs) w) (\<lambda>w'. Inr (r\<lparr>r_backing := m\<rparr>, w'))) \<and>
    region_ok (r\<lparr>r_backing := m\<rparr>) \<and> (\<forall>v. v \<notin> set vs \<longrightarrow> hm_map page_hash m v = hm_map page_hash (r_backing r) v)"
proof -
  have "hm_inv page_hash pages (r_backing r)" using assms(1) by (simp add: region_ok_def)
  from free_pages_ok [OF this assms(2,3), of freephys] obtain m where
    m: "\<forall>w. foldE (free_page freephys) vs (r_backing r, w) =
        bindE (foldE freephys (backed (hm_map page_hash (r_backing r)) vs) w) (\<lambda>w'. Inr (m, w'))"
    "hm_inv page_hash pages m" "\<forall>k. k \<notin> set vs \<longrightarrow> hm_map page_hash m k = hm_map page_hash (r_backing r) k"
    by blast
  then show ?thesis
    using assms(1) by (intro exI [of _ m]) (simp add: free_backing_def region_ok_def bindE_assoc)
qed

text \<open>
  The result of freeing a block inside one region: what is left of the region, in order, and the
  physical pages given back.
\<close>

definition freed :: "u64 \<Rightarrow> u64 \<Rightarrow> vmregion \<Rightarrow> vmregion list \<Rightarrow> u64 list \<Rightarrow> bool" where
  "freed addr num r rest ps \<longleftrightarrow>
     regions_ok rest \<and> cover rest = rspan r - span addr num \<and>
     (\<forall>v. isPageAligned v \<and> unat v \<in> cover rest \<longrightarrow> rec_map rest v = vmr_lookup v r) \<and>
     mset ps = mset (backed (hm_map page_hash (r_backing r)) (page_seq addr num))"

lemma keep_region_ok:
  assumes "fits (r_addr r) (r_numPages r)" "isPageAligned (r_addr r)" "hm_inv page_hash pages (r_backing r)"
  shows "regions_ok (keep_region r)" "cover (keep_region r) = rspan r"
    "\<And>v. unat v \<in> rspan r \<Longrightarrow> rec_map (keep_region r) v = hm_map page_hash (r_backing r) v"
proof -
  have ok: "r_numPages r \<noteq> 0 \<Longrightarrow> region_ok r" using assms by (simp add: region_ok_def)
  then show "regions_ok (keep_region r)" "cover (keep_region r) = rspan r"
    by (auto simp: keep_region_def span_def)
  show "rec_map (keep_region r) v = hm_map page_hash (r_backing r) v" if "unat v \<in> rspan r" for v
    using that ok contains_span by (auto simp: keep_region_def vmr_lookup_map span_def)
qed

lemma free_front:
  assumes r: "region_ok r" "block_ok (r_addr r) num" "num \<le> r_numPages r"
  shows "\<exists>rest ps. (\<forall>w. bindE (free_backing freephys True (page_seq (r_addr r) num) r w) (\<lambda>(r1, w').
        bindE (shrink_up num r1) (\<lambda>r2. Inr (Some (keep_region r2 @ rs, [], w')))) =
      bindE (foldE freephys ps w) (\<lambda>w'. Inr (Some (rest @ rs, [], w')))) \<and> freed (r_addr r) num r rest ps"
proof -
  have f: "fits (r_addr r) num" "isPageAligned (r_addr r)" "fits (r_addr r) (r_numPages r)"
    using r by (auto simp: block_ok_def region_ok_def)
  note ps = set_page_seq [OF f(1,2)]
  have sub: "set (page_seq (r_addr r) num) \<subseteq> pages" using ps(1) by (auto simp: pages_def)
  from free_backing_ok [OF r(1) sub ps(2), of freephys] obtain m where
    fb: "\<forall>w. free_backing freephys True (page_seq (r_addr r) num) r w =
      bindE (foldE freephys (backed (hm_map page_hash (r_backing r)) (page_seq (r_addr r) num)) w) (\<lambda>w'. Inr (r\<lparr>r_backing := m\<rparr>, w'))"
    and m: "region_ok (r\<lparr>r_backing := m\<rparr>)"
      "\<forall>v. v \<notin> set (page_seq (r_addr r) num) \<longrightarrow> hm_map page_hash m v = hm_map page_hash (r_backing r) v" by blast
  from shrink_up_ok [OF m(1), of num] r(3) obtain m2 where
    su: "shrink_up num (r\<lparr>r_backing := m\<rparr>) = Inr (r\<lparr>r_addr := r_addr r + ofsPages num, r_backing := m2, r_numPages := r_numPages r - num\<rparr>)"
    and m2: "hm_inv page_hash pages m2"
      "\<forall>v. isPageAligned v \<longrightarrow> hm_map page_hash m2 v = (if unat v \<in> span (r_addr r) num then None else hm_map page_hash m v)"
    by auto
  let ?r2 = "r\<lparr>r_addr := r_addr r + ofsPages num, r_backing := m2, r_numPages := r_numPages r - num\<rparr>"
  note sp = span_split [OF f(3) r(3), folded ofsPages_def]
  have k: "regions_ok (keep_region ?r2)" "cover (keep_region ?r2) = rspan r - span (r_addr r) num"
    "\<And>v. unat v \<in> rspan ?r2 \<Longrightarrow> rec_map (keep_region ?r2) v = hm_map page_hash m2 v"
    using keep_region_ok [of ?r2] sp f(2) m2(1) by (simp_all add: aligned_page)
  have "rec_map (keep_region ?r2) v = vmr_lookup v r" if "isPageAligned v" "unat v \<in> rspan r - span (r_addr r) num" for v
    using k(3) [of v] that sp(2) m2(2) m(2) ps(1) by (simp add: vmr_lookup_map)
  then have "freed (r_addr r) num r (keep_region ?r2) (backed (hm_map page_hash (r_backing r)) (page_seq (r_addr r) num))"
    unfolding freed_def using k by simp
  moreover have "bindE (free_backing freephys True (page_seq (r_addr r) num) r w) (\<lambda>(r1, w').
        bindE (shrink_up num r1) (\<lambda>r2. Inr (Some (keep_region r2 @ rs, [], w')))) =
      bindE (foldE freephys (backed (hm_map page_hash (r_backing r)) (page_seq (r_addr r) num)) w)
        (\<lambda>w'. Inr (Some (keep_region ?r2 @ rs, [], w')))" for w
    using fb su by (simp add: bindE_assoc)
  ultimately show ?thesis by blast
qed

lemma backed_rev: "backed f (rev vs) = rev (backed f vs)"
  by (simp add: backed_def rev_filter rev_map)

lemma back_pages:
  assumes "region_ok r" "block_ok addr num" "vm_end addr num = vmr_end r" "r_addr r \<le> addr"
  shows "map (\<lambda>i. r_addr r + ofsPages (r_numPages r - 1 - of_nat i)) [0..<unat num] = rev (page_seq addr num)"
    and "num \<le> r_numPages r"
proof -
  have f: "fits (r_addr r) (r_numPages r)" "fits addr num" using assms by (auto simp: region_ok_def block_ok_def)
  have e: "unat addr + unat num * 4096 = unat (r_addr r) + unat (r_numPages r) * 4096"
    using assms(3) vm_end_nat [OF f(2)] vmr_end_nat [OF f(1)] by simp
  have le: "unat num \<le> unat (r_numPages r)" using e assms(4) by (simp add: word_le_nat_alt)
  then show "num \<le> r_numPages r" by (simp add: word_le_nat_alt)
  show "map (\<lambda>i. r_addr r + ofsPages (r_numPages r - 1 - of_nat i)) [0..<unat num] = rev (page_seq addr num)"
  proof (rule nth_equalityI)
    fix i assume "i < length (map (\<lambda>i. r_addr r + ofsPages (r_numPages r - 1 - of_nat i)) [0..<unat num])"
    then have i: "i < unat num" by simp
    have i64: "i < 2 ^ 64" using i unat_u64_lt [of num] by simp
    have "unat (of_nat i :: u64) = i" using i64 by (simp add: unat_of_nat take_bit_nat_eq_self)
    moreover have one: "unat (r_numPages r - 1) = unat (r_numPages r) - 1"
      using i le unat_sub_nowrap [of 1 "r_numPages r"] by simp
    ultimately have k: "unat (r_numPages r - 1 - of_nat i) = unat (r_numPages r) - 1 - i"
      using i le unat_sub_nowrap [of "of_nat i" "r_numPages r - 1"] by simp
    then have "fits (r_addr r) (r_numPages r - 1 - of_nat i)" using f(1) by (simp add: fits_def)
    then have "unat (r_addr r + ofsPages (r_numPages r - 1 - of_nat i)) = unat (r_addr r) + (unat (r_numPages r) - 1 - i) * 4096"
      using unat_end k by (simp add: ofsPages_def)
    moreover have "unat (page_seq addr num ! (unat num - Suc i)) = unat addr + (unat num - Suc i) * 4096"
      using unat_page [OF f(2), of "unat num - Suc i"] i by (simp add: page_seq_nth)
    moreover have "unat (r_addr r) + (unat (r_numPages r) - 1 - i) * 4096 = unat addr + (unat num - Suc i) * 4096"
      using e i le by (simp add: diff_mult_distrib)
    ultimately show "map (\<lambda>i. r_addr r + ofsPages (r_numPages r - 1 - of_nat i)) [0..<unat num] ! i = rev (page_seq addr num) ! i"
      using i by (simp add: rev_nth u64_eq_unat)
  qed simp
qed

lemma free_back:
  assumes r: "region_ok r" "block_ok addr num" "vm_end addr num = vmr_end r" "r_addr r \<le> addr" "unat (r_numPages r) < 2 ^ 51"
  shows "\<exists>rest ps. (\<forall>w. bindE (free_backing freephys True
          (map (\<lambda>i. r_addr r + ofsPages (r_numPages r - 1 - of_nat i)) [0..<unat num]) r w) (\<lambda>(r1, w').
        bindE (shrink_down num r1) (\<lambda>r2. Inr (Some (keep_region r2 @ rs, [], w')))) =
      bindE (foldE freephys ps w) (\<lambda>w'. Inr (Some (rest @ rs, [], w')))) \<and> freed addr num r rest ps"
proof -
  note b = back_pages [OF r(1-4)]
  have f: "fits addr num" "isPageAligned addr" "fits (r_addr r) (r_numPages r)" "isPageAligned (r_addr r)"
    using r by (auto simp: block_ok_def region_ok_def)
  note ps = set_page_seq [OF f(1,2)]
  let ?vs = "rev (page_seq addr num)"
  have sub: "set ?vs \<subseteq> pages" "distinct ?vs" using ps by (auto simp: pages_def)
  from free_backing_ok [OF r(1) sub, of freephys] obtain m where
    fb: "\<forall>w. free_backing freephys True ?vs r w =
      bindE (foldE freephys (backed (hm_map page_hash (r_backing r)) ?vs) w) (\<lambda>w'. Inr (r\<lparr>r_backing := m\<rparr>, w'))"
    and m: "region_ok (r\<lparr>r_backing := m\<rparr>)"
      "\<forall>v. v \<notin> set ?vs \<longrightarrow> hm_map page_hash m v = hm_map page_hash (r_backing r) v" by blast
  from shrink_down_ok [OF m(1), of num] b(2) r(5) obtain m2 where
    sd: "shrink_down num (r\<lparr>r_backing := m\<rparr>) = Inr (r\<lparr>r_backing := m2, r_numPages := r_numPages r - num\<rparr>)"
    and m2: "hm_inv page_hash pages m2" "\<forall>v. unat v \<in> rspan r \<longrightarrow> hm_map page_hash m2 v = hm_map page_hash m v"
    by auto
  let ?r2 = "r\<lparr>r_backing := m2, r_numPages := r_numPages r - num\<rparr>"
  have e: "unat addr + unat num * 4096 = unat (r_addr r) + unat (r_numPages r) * 4096"
    using r(3) vm_end_nat [OF f(1)] vmr_end_nat [OF f(3)] by simp
  have "unat (r_numPages r - num) = unat (r_numPages r) - unat num"
    using b(2) by (simp add: word_nat word_le_nat_alt)
  then have sp: "span (r_addr r) (r_numPages r - num) = rspan r - span addr num" "fits (r_addr r) (r_numPages r - num)"
    using e f(3) r(4) b(2) by (auto simp: span_def fits_def word_le_nat_alt diff_mult_distrib)
  have k: "regions_ok (keep_region ?r2)" "cover (keep_region ?r2) = rspan r - span addr num"
    "\<And>v. unat v \<in> rspan ?r2 \<Longrightarrow> rec_map (keep_region ?r2) v = hm_map page_hash m2 v"
    using keep_region_ok [of ?r2] sp f(4) m2(1) by simp_all
  have "rec_map (keep_region ?r2) v = vmr_lookup v r" if "isPageAligned v" "unat v \<in> rspan r - span addr num" for v
    using k(3) [of v] that sp(1) m2(2) m(2) ps(1) by (simp add: vmr_lookup_map)
  then have "freed addr num r (keep_region ?r2) (backed (hm_map page_hash (r_backing r)) ?vs)"
    unfolding freed_def using k by (simp add: backed_rev)
  moreover have "bindE (free_backing freephys True ?vs r w) (\<lambda>(r1, w').
        bindE (shrink_down num r1) (\<lambda>r2. Inr (Some (keep_region r2 @ rs, [], w')))) =
      bindE (foldE freephys (backed (hm_map page_hash (r_backing r)) ?vs) w)
        (\<lambda>w'. Inr (Some (keep_region ?r2 @ rs, [], w')))" for w
    using fb sd by (simp add: bindE_assoc)
  ultimately show ?thesis unfolding b(1) by blast
qed

lemma middle_pages:
  assumes "region_ok r" "block_ok addr num" "r_addr r < addr" "vm_end addr num < vmr_end r"
  defines "front \<equiv> (addr - r_addr r) div PAGE_SIZE" and "back_n \<equiv> (vmr_end r - vm_end addr num) div PAGE_SIZE"
  shows "r_addr r + ofsPages front = addr" "0 < front" "0 < back_n"
    "unat front + unat num + unat back_n = unat (r_numPages r)"
    "unat addr = unat (r_addr r) + unat front * 4096"
proof -
  have f: "fits (r_addr r) (r_numPages r)" "fits addr num" "isPageAligned addr" "isPageAligned (r_addr r)"
    using assms(1,2) by (auto simp: region_ok_def block_ok_def)
  have lt: "unat (r_addr r) < unat addr" "unat addr + unat num * 4096 < unat (r_addr r) + unat (r_numPages r) * 4096"
    using assms(3,4) vm_end_nat [OF f(2)] vmr_end_nat [OF f(1)] by (simp_all add: word_less_nat_alt)
  have al: "isPageAligned (addr - r_addr r)" using f(3,4) by (rule isPageAligned_diff)
  have d: "unat (addr - r_addr r) = unat addr - unat (r_addr r)" using lt(1) by (simp add: word_nat)
  have fr: "unat front * 4096 = unat addr - unat (r_addr r)"
    unfolding front_def using unat_aligned_div [OF al] d by simp
  then show 5: "unat addr = unat (r_addr r) + unat front * 4096" using lt(1) by simp
  then show "0 < front" using lt(1) by (auto simp: word_less_nat_alt)
  have "fits (r_addr r) front" using 5 f(2) by (simp add: fits_def)
  then have "unat (r_addr r + ofsPages front) = unat addr" using unat_end 5 by (simp add: ofsPages_def)
  then show "r_addr r + ofsPages front = addr" by (simp add: u64_eq_unat)
  have al2: "isPageAligned (vmr_end r - vm_end addr num)"
    using f(3,4) by (simp add: vmr_end_def vm_end_def isPageAligned_diff)
  have "unat (vmr_end r - vm_end addr num) = unat (r_addr r) + unat (r_numPages r) * 4096 - (unat addr + unat num * 4096)"
    using lt(2) vm_end_nat [OF f(2)] vmr_end_nat [OF f(1)] by (simp add: word_nat)
  then have bk: "unat back_n * 4096 = unat (r_addr r) + unat (r_numPages r) * 4096 - (unat addr + unat num * 4096)"
    unfolding back_n_def using unat_aligned_div [OF al2] by simp
  then show "0 < back_n" using lt(2) by (auto simp: word_less_nat_alt)
  show "unat front + unat num + unat back_n = unat (r_numPages r)" using bk 5 lt(2) by linarith
qed

lemma ofsPages_add: "ofsPages (a + b) = ofsPages a + ofsPages b"
  by (simp add: ofsPages_def algebra_simps)

lemma middle_spans:
  assumes "fits (r_addr r) (r_numPages r)" "unat front + unat num + unat back_n = unat (r_numPages r)"
    and "unat addr = unat (r_addr r) + unat front * 4096" "unat (front + num) = unat front + unat num"
    and "span (r_addr r + ofsPages (front + num)) (r_numPages r - (front + num)) = rspan r - span (r_addr r) (front + num)"
  shows "span (r_addr r) front = {x \<in> rspan r. x < unat addr}" "fits (r_addr r) front"
    "span (r_addr r + ofsPages (front + num)) (r_numPages r - (front + num)) = {x \<in> rspan r. unat addr + unat num * 4096 \<le> x}"
proof -
  show "span (r_addr r) front = {x \<in> rspan r. x < unat addr}" "fits (r_addr r) front"
    using assms(1-3) by (auto simp: span_def fits_def)
  have "span (r_addr r) (front + num) = {unat (r_addr r)..<unat addr + unat num * 4096}"
    using assms(3,4) by (simp add: span_def algebra_simps)
  then show "span (r_addr r + ofsPages (front + num)) (r_numPages r - (front + num)) =
      {x \<in> rspan r. unat addr + unat num * 4096 \<le> x}"
    unfolding assms(5) using assms(3) by (auto simp: span_def)
qed

lemma free_middle:
  assumes r: "region_ok r" "block_ok addr num" "r_addr r < addr" "vm_end addr num < vmr_end r" "unat (r_numPages r) < 2 ^ 51"
  defines "front \<equiv> (addr - r_addr r) div PAGE_SIZE" and "back_n \<equiv> (vmr_end r - vm_end addr num) div PAGE_SIZE"
  shows "\<exists>rest back ps. (\<forall>w. bindE (free_backing freephys True (map (\<lambda>i. r_addr r + ofsPages (front + of_nat i)) [0..<unat num]) r w) (\<lambda>(r1, w').
        bindE (shrink_down (num + back_n) r1) (\<lambda>r2.
        bindE (shrink_up (front + num) (vmr_clone r)) (\<lambda>b. Inr (Some (keep_region r2 @ rs, keep_region b, w'))))) =
      bindE (foldE freephys ps w) (\<lambda>w'. Inr (Some (rest @ rs, back, w')))) \<and> freed addr num r (rest @ back) ps"
proof -
  note mid = middle_pages [OF r(1-4), folded front_def back_n_def]
  have f: "fits addr num" "isPageAligned addr" "fits (r_addr r) (r_numPages r)" "isPageAligned (r_addr r)" "hm_inv page_hash pages (r_backing r)"
    using r by (auto simp: block_ok_def region_ok_def)
  note ps = set_page_seq [OF f(1,2)]
  let ?vs = "page_seq addr num"
  have vs: "map (\<lambda>i. r_addr r + ofsPages (front + of_nat i)) [0..<unat num] = ?vs"
    using mid(1) by (simp add: page_seq_def ofsPages_add add.assoc [symmetric])
  have sub: "set ?vs \<subseteq> pages" "distinct ?vs" using ps by (auto simp: pages_def)
  from free_backing_ok [OF r(1) sub, of freephys] obtain m where
    fb: "\<forall>w. free_backing freephys True ?vs r w =
      bindE (foldE freephys (backed (hm_map page_hash (r_backing r)) ?vs) w) (\<lambda>w'. Inr (r\<lparr>r_backing := m\<rparr>, w'))"
    and m: "region_ok (r\<lparr>r_backing := m\<rparr>)"
      "\<forall>v. v \<notin> set ?vs \<longrightarrow> hm_map page_hash m v = hm_map page_hash (r_backing r) v" by blast
  have np: "unat (num + back_n) = unat num + unat back_n" "unat (front + num) = unat front + unat num"
    using mid(4) unat_u64_lt [of "r_numPages r"] by (auto intro!: unat_add_nowrap)
  then have le: "num + back_n \<le> r_numPages r" "front + num \<le> r_numPages r" using mid(4) by (simp_all add: word_le_nat_alt)
  from shrink_down_ok [OF m(1), of "num + back_n"] le(1) r(5) obtain m2 where
    sd: "shrink_down (num + back_n) (r\<lparr>r_backing := m\<rparr>) = Inr (r\<lparr>r_backing := m2, r_numPages := r_numPages r - (num + back_n)\<rparr>)"
    and m2: "hm_inv page_hash pages m2" "\<forall>v. unat v \<in> rspan r \<longrightarrow> hm_map page_hash m2 v = hm_map page_hash m v"
    by auto
  have "vmr_clone r = r" using hm_copy_ok [OF f(5)] by (simp add: vmr_clone_def)
  from shrink_up_ok [OF r(1) le(2)] obtain m3 where
    su: "shrink_up (front + num) (vmr_clone r) = Inr (r\<lparr>r_addr := r_addr r + ofsPages (front + num), r_backing := m3, r_numPages := r_numPages r - (front + num)\<rparr>)"
    and m3: "hm_inv page_hash pages m3"
      "\<forall>v. isPageAligned v \<longrightarrow> hm_map page_hash m3 v = (if unat v \<in> span (r_addr r) (front + num) then None else hm_map page_hash (r_backing r) v)"
    unfolding \<open>vmr_clone r = r\<close> by blast
  let ?r2 = "r\<lparr>r_backing := m2, r_numPages := r_numPages r - (num + back_n)\<rparr>"
  let ?bk = "r\<lparr>r_addr := r_addr r + ofsPages (front + num), r_backing := m3, r_numPages := r_numPages r - (front + num)\<rparr>"
  have "unat (r_numPages r - (num + back_n)) = unat (r_numPages r) - unat (num + back_n)"
    using le(1) by (intro unat_sub_nowrap) (simp add: word_le_nat_alt)
  then have n2: "r_numPages r - (num + back_n) = front"
    using mid(4) np(1) by (simp add: u64_eq_unat)
  note sp = span_split [OF f(3) le(2), folded ofsPages_def]
  note s2 = middle_spans [OF f(3) mid(4,5) np(2) sp(2)]
  have k2: "regions_ok (keep_region ?r2)" "cover (keep_region ?r2) = {x \<in> rspan r. x < unat addr}"
    "\<And>v. unat v \<in> rspan ?r2 \<Longrightarrow> rec_map (keep_region ?r2) v = hm_map page_hash m2 v"
    using keep_region_ok [of ?r2] s2 n2 f(4) m2(1) by simp_all
  have k3: "regions_ok (keep_region ?bk)" "cover (keep_region ?bk) = {x \<in> rspan r. unat addr + unat num * 4096 \<le> x}"
    "\<And>v. unat v \<in> rspan ?bk \<Longrightarrow> rec_map (keep_region ?bk) v = hm_map page_hash m3 v"
    using keep_region_ok [of ?bk] s2 sp f(4) m3(1) by (simp_all add: aligned_page)
  have ok: "regions_ok (keep_region ?r2 @ keep_region ?bk)"
    unfolding regions_ok_append using k2 k3 by auto
  have cov: "cover (keep_region ?r2 @ keep_region ?bk) = rspan r - span addr num"
    unfolding cover_simps k2(2) k3(2) by (auto simp: span_def)
  have "rec_map (keep_region ?r2 @ keep_region ?bk) v = vmr_lookup v r" if v: "isPageAligned v" "unat v \<in> rspan r - span addr num" for v
  proof (cases "unat v < unat addr")
    case True
    with v have "unat v \<in> cover (keep_region ?r2)" "unat v \<in> rspan ?r2" using k2(2) s2(1) n2 by auto
    then show ?thesis
      using rec_map_append [OF ok, of v] k2(3) [of v] v m2(2) m(2) ps(1) by (simp add: vmr_lookup_map)
  next
    case False
    with v have in3: "unat v \<in> rspan ?bk" "unat v \<notin> cover (keep_region ?r2)" using s2(3) k2(2) by (auto simp: span_def)
    have "unat v \<notin> span (r_addr r) (front + num)" using in3(1) sp(2) by auto
    then show ?thesis
      using rec_map_append [OF ok, of v] k3(3) [OF in3(1)] in3(2) v m3(2) by (simp add: vmr_lookup_map)
  qed
  then have "freed addr num r (keep_region ?r2 @ keep_region ?bk) (backed (hm_map page_hash (r_backing r)) ?vs)"
    unfolding freed_def using ok cov by simp
  moreover have "bindE (free_backing freephys True ?vs r w) (\<lambda>(r1, w').
        bindE (shrink_down (num + back_n) r1) (\<lambda>r2.
        bindE (shrink_up (front + num) (vmr_clone r)) (\<lambda>b. Inr (Some (keep_region r2 @ rs, keep_region b, w'))))) =
      bindE (foldE freephys (backed (hm_map page_hash (r_backing r)) ?vs) w)
        (\<lambda>w'. Inr (Some (keep_region ?r2 @ rs, keep_region ?bk, w')))" for w
    using fb sd su by (simp add: bindE_assoc)
  ultimately show ?thesis unfolding vs by blast
qed

lemma free_one_region:
  assumes r: "region_ok r" "block_ok addr num" "span addr num \<subseteq> rspan r" "unat (r_numPages r) < 2 ^ 51"
  shows "\<exists>rest bk ps. (\<forall>w. free_region freephys True addr num (r # rs) w =
      bindE (foldE freephys ps w) (\<lambda>w'. Inr (Some (rest @ rs, bk, w')))) \<and> freed addr num r (rest @ bk) ps"
proof -
  have fits: "r_addr r \<le> addr \<and> vm_end addr num \<le> vmr_end r" using block_in_region [OF r(1,2)] r(3) by simp
  consider (front) "r_addr r = addr" | (tail) "r_addr r < addr" "vm_end addr num = vmr_end r"
    | (middle) "r_addr r < addr" "vm_end addr num < vmr_end r"
    using fits by force
  then show ?thesis
  proof cases
    case front
    have "num \<le> r_numPages r"
    proof -
      have "unat num * 4096 \<le> unat (r_numPages r) * 4096"
        using r front by (auto simp: span_def block_ok_def unat_gt_0)
      then show ?thesis by (simp add: word_le_nat_alt)
    qed
    with free_front [OF r(1), of num freephys rs] r(2) front obtain rest ps where
      "\<forall>w. bindE (free_backing freephys True (page_seq (r_addr r) num) r w) (\<lambda>(r1, w').
        bindE (shrink_up num r1) (\<lambda>r2. Inr (Some (keep_region r2 @ rs, [] :: vmregion list, w')))) =
      bindE (foldE freephys ps w) (\<lambda>w'. Inr (Some (rest @ rs, [], w')))" "freed addr num r rest ps" by auto
    then have "(\<forall>w. free_region freephys True addr num (r # rs) w =
        bindE (foldE freephys ps w) (\<lambda>w'. Inr (Some (rest @ rs, [], w')))) \<and> freed addr num r (rest @ []) ps"
      using front fits by (simp del: bindE_Inr_iff)
    then show ?thesis by blast
  next
    case tail
    have "r_addr r \<le> addr" using tail(1) by simp
    from free_back [OF r(1,2) tail(2) this r(4), of freephys rs] obtain rest ps where
      "\<forall>w. bindE (free_backing freephys True
          (map (\<lambda>i. r_addr r + ofsPages (r_numPages r - 1 - of_nat i)) [0..<unat num]) r w) (\<lambda>(r1, w').
        bindE (shrink_down num r1) (\<lambda>r2. Inr (Some (keep_region r2 @ rs, [] :: vmregion list, w')))) =
      bindE (foldE freephys ps w) (\<lambda>w'. Inr (Some (rest @ rs, [], w')))" "freed addr num r rest ps" by blast
    then have "(\<forall>w. free_region freephys True addr num (r # rs) w =
        bindE (foldE freephys ps w) (\<lambda>w'. Inr (Some (rest @ rs, [], w')))) \<and> freed addr num r (rest @ []) ps"
      using tail(2) less_imp_neq [OF tail(1)] fits by (simp del: bindE_Inr_iff)
    then show ?thesis by blast
  next
    case middle
    let ?front = "(addr - r_addr r) div PAGE_SIZE" and ?bk = "(vmr_end r - vm_end addr num) div PAGE_SIZE"
    note mid = middle_pages [OF r(1,2) middle]
    have "free_region freephys True addr num (r # rs) w =
        bindE (free_backing freephys True (map (\<lambda>i. r_addr r + ofsPages (?front + of_nat i)) [0..<unat num]) r w) (\<lambda>(r1, w').
        bindE (shrink_down (num + ?bk) r1) (\<lambda>r2.
        bindE (shrink_up (?front + num) (vmr_clone r)) (\<lambda>b. Inr (Some (keep_region r2 @ rs, keep_region b, w')))))" for w
      using fits less_imp_neq [OF middle(1)] less_imp_neq [OF middle(2)] mid(2,3) by (simp add: Let_def)
    with free_middle [OF r(1,2) middle r(4), of freephys rs] show ?thesis by metis
  qed
qed

lemma free_region_ok:
  assumes "regions_ok rs" "\<forall>r\<in>set rs. unat (r_numPages r) < 2 ^ 51" "block_ok addr num"
    and "r \<in> set rs" "span addr num \<subseteq> rspan r"
  shows "\<exists>rs' bk ps. (\<forall>w. free_region freephys True addr num rs w =
      bindE (foldE freephys ps w) (\<lambda>w'. Inr (Some (rs', bk, w')))) \<and>
    regions_ok (rs' @ bk) \<and> cover (rs' @ bk) = cover rs - span addr num \<and>
    (\<forall>v. isPageAligned v \<and> unat v \<in> cover (rs' @ bk) \<longrightarrow> rec_map (rs' @ bk) v = rec_map rs v) \<and>
    mset ps = mset (backed (rec_map rs) (page_seq addr num))"
  using assms
proof (induction rs)
  case (Cons r0 rs)
  have ok: "region_ok r0" "regions_ok rs" "rspan r0 \<inter> cover rs = {}"
    using Cons.prems(1) cover_regions [OF Cons.prems(1)] by auto
  have blk: "fits addr num" "isPageAligned addr" "0 < unat num" using Cons.prems(3) by (auto simp: block_ok_def unat_gt_0)
  note ps = set_page_seq(1) [OF blk(1,2)]
  show ?case
  proof (cases "span addr num \<subseteq> rspan r0")
    case True
    from free_one_region [OF ok(1) Cons.prems(3) True, of freephys rs] Cons.prems(2) obtain rest bk ps where
      eq: "\<forall>w. free_region freephys True addr num (r0 # rs) w = bindE (foldE freephys ps w) (\<lambda>w'. Inr (Some (rest @ rs, bk, w')))"
      and fr: "freed addr num r0 (rest @ bk) ps" by auto
    have c: "regions_ok (rest @ bk)" "cover rest \<union> cover bk = rspan r0 - span addr num"
      using fr by (auto simp: freed_def)
    have rok: "regions_ok (rest @ rs @ bk)"
      using c ok(2,3) unfolding regions_ok_append cover_simps by blast
    have "rec_map ((rest @ rs) @ bk) v = rec_map (r0 # rs) v"
      if v: "isPageAligned v" "unat v \<in> cover ((rest @ rs) @ bk)" for v
    proof -
      have 1: "rec_map (rest @ bk) v = vmr_lookup v r0" if "unat v \<in> cover (rest @ bk)"
        using fr v(1) that unfolding freed_def by blast
      have 2: "vmr_contains r0 v \<longleftrightarrow> unat v \<in> rspan r0" by (rule contains_span [OF ok(1)])
      have 3: "rec_map (rs @ bk) v = (if unat v \<in> cover rs then rec_map rs v else rec_map bk v)"
        using rec_map_append [of rs bk v] rok by (simp add: regions_ok_append)
      show ?thesis
      proof (cases "unat v \<in> cover rs")
        case True
        with ok(3) c(2) have "unat v \<notin> rspan r0" "unat v \<notin> cover rest" by blast+
        with True 2 3 rec_map_append [OF rok, of v] show ?thesis by simp
      next
        case False
        with v(2) have m: "unat v \<in> cover (rest @ bk)" by auto
        then have "unat v \<in> rspan r0" using c(2) by auto
        with False m 1 2 3 rec_map_append [OF rok, of v] rec_map_append [OF c(1), of v] show ?thesis
          by (simp split: if_splits)
      qed
    qed
    moreover have be: "backed (rec_map (r0 # rs)) (page_seq addr num) = backed (hm_map page_hash (r_backing r0)) (page_seq addr num)"
      using True ps contains_span [OF ok(1)] by (intro backed_cong) (auto simp: vmr_lookup_map)
    moreover have "cover ((rest @ rs) @ bk) = cover (r0 # rs) - span addr num"
      using c(2) ok(3) True unfolding cover_simps by blast
    moreover have "mset ps = mset (backed (rec_map (r0 # rs)) (page_seq addr num))"
      using fr unfolding be freed_def by blast
    moreover have "regions_ok ((rest @ rs) @ bk)" using rok by simp
    ultimately show ?thesis
      using eq by blast
  next
    case False
    then have r: "r \<in> set rs" using Cons.prems(4,5) by auto
    have "\<not> (r_addr r0 \<le> addr \<and> vm_end addr num \<le> vmr_end r0)"
      using block_in_region [OF ok(1) Cons.prems(3)] False by simp
    then have step: "free_region freephys True addr num (r0 # rs) w =
        bindE (free_region freephys True addr num rs w) (\<lambda>x. Inr (map_option (\<lambda>(rs', bk, w'). (r0 # rs', bk, w')) x))" for w
      unfolding free_region.simps by (rule if_not_P)
    have "\<forall>r\<in>set rs. unat (r_numPages r) < 2 ^ 51" using Cons.prems(2) by simp
    from Cons.IH [OF ok(2) this Cons.prems(3) r Cons.prems(5)] obtain rs' bk ps where
      IH: "\<forall>w. free_region freephys True addr num rs w = bindE (foldE freephys ps w) (\<lambda>w'. Inr (Some (rs', bk, w')))"
      "regions_ok (rs' @ bk)" "cover (rs' @ bk) = cover rs - span addr num"
      "\<forall>v. isPageAligned v \<and> unat v \<in> cover (rs' @ bk) \<longrightarrow> rec_map (rs' @ bk) v = rec_map rs v"
      "mset ps = mset (backed (rec_map rs) (page_seq addr num))" by blast
    have sub: "span addr num \<subseteq> cover rs" using r Cons.prems(5) by (auto simp: cover_def)
    have eq: "\<forall>w. free_region freephys True addr num (r0 # rs) w =
        bindE (foldE freephys ps w) (\<lambda>w'. Inr (Some (r0 # rs', bk, w')))"
      using IH(1) step by (simp add: bindE_assoc)
    have "regions_ok ((r0 # rs') @ bk)"
      unfolding append_Cons by (rule regions_okI [OF ok(1)]) (use IH(2,3) ok(3) in auto)
    moreover have "cover ((r0 # rs') @ bk) = cover (r0 # rs) - span addr num"
      using IH(3) ok(3) sub by auto
    moreover have be: "backed (rec_map (r0 # rs)) (page_seq addr num) = backed (rec_map rs) (page_seq addr num)"
      using sub ps contains_span [OF ok(1)] ok(3) by (intro backed_cong) auto
    moreover have "rec_map ((r0 # rs') @ bk) v = rec_map (r0 # rs) v"
      if "isPageAligned v" "unat v \<in> cover ((r0 # rs') @ bk)" for v
      using that IH(4) contains_span [OF ok(1), of v] by auto
    moreover have "mset ps = mset (backed (rec_map (r0 # rs)) (page_seq addr num))"
      unfolding be by (rule IH(5))
    ultimately show ?thesis using eq by blast
  qed
qed simp

lemma find_cover: "regions_ok rs \<Longrightarrow> List.find (\<lambda>r. vmr_contains r v) rs = None \<longleftrightarrow> unat v \<notin> cover rs"
  by (induction rs) (auto simp: contains_span)

section \<open>Mapping pages\<close>

lemma region_map_ok:
  assumes "regions_ok rs" "isPageAligned virt" "unat virt \<in> cover rs"
  shows "\<exists>rs'. region_map virt phys rs = Some ((case rec_map rs virt of Some p \<Rightarrow> p | None \<Rightarrow> 0), rs') \<and>
    regions_ok rs' \<and> cover rs' = cover rs \<and> map r_addr rs' = map r_addr rs \<and> map r_numPages rs' = map r_numPages rs \<and>
    rec_map rs' = (rec_map rs)(virt \<mapsto> phys)"
  using assms
proof (induction rs)
  case (Cons r rs)
  have ok: "region_ok r" "regions_ok rs" "rspan r \<inter> cover rs = {}"
    using Cons.prems(1) cover_regions [OF Cons.prems(1)] by auto
  note c = contains_span [OF ok(1)]
  show ?case
  proof (cases "vmr_contains r virt")
    case True
    let ?r = "r\<lparr>r_backing := hm_assign page_hash 0 virt phys (r_backing r)\<rparr>"
    have "hm_inv page_hash pages (r_backing r)" "virt \<in> pages" using ok(1) Cons.prems(2) by (auto simp: region_ok_def pages_def)
    note a = hm_assign_ok [OF this, of 0 phys]
    have rok: "region_ok ?r" using ok(1) a by (simp add: region_ok_def)
    moreover have "vmr_contains ?r v \<longleftrightarrow> vmr_contains r v" for v by (simp add: vmr_contains_def vmr_end_def)
    ultimately show ?thesis
      using True a ok Cons.prems(1) by (auto simp: vmr_lookup_map hm_at_map fun_eq_iff)
  next
    case False
    with Cons.prems(3) c have "unat virt \<in> cover rs" by auto
    from Cons.IH [OF ok(2) Cons.prems(2) this] obtain rs' where
      IH: "region_map virt phys rs = Some ((case rec_map rs virt of Some p \<Rightarrow> p | None \<Rightarrow> 0), rs')"
      "regions_ok rs'" "cover rs' = cover rs" "map r_addr rs' = map r_addr rs" "map r_numPages rs' = map r_numPages rs"
      "rec_map rs' = (rec_map rs)(virt \<mapsto> phys)" by blast
    have "regions_ok (r # rs')" by (rule regions_okI [OF ok(1)]) (use IH(2,3) ok(3) in simp_all)
    with IH False show ?thesis by (auto simp: fun_eq_iff)
  qed
qed simp

definition as_demo :: addrspace where
  "as_demo = \<lparr>as_cr3 = 0x9000, as_regions = [], as_shared = [], as_vmm = (\<lambda>_. extmm_init ''kern'' 0 0 0), as_tracked = []\<rparr>"

lemma as_demo_simps [simp]: "as_regions as_demo = []" "as_shared as_demo = []" by (simp_all add: as_demo_def)

text \<open>The demonstration regions: three pages at \<open>0x1000\<close>, the last backed by the frame \<open>0x7000\<close>.\<close>

definition demo_regions :: "vmregion list" where
  "demo_regions = [(vmr_new 0x1000 3)\<lparr>r_backing := hm_assign page_hash 0 0x3000 0x7000 hm_new\<rparr>]"

lemma demo_regions_ok: "regions_ok demo_regions" "\<forall>r\<in>set demo_regions. unat (r_numPages r) < 2 ^ 51"
  "\<forall>r\<in>set demo_regions. region_clean r"
  "cover demo_regions = {0x1000..<0x4000}" "rec_map demo_regions = [0x3000 \<mapsto> 0x7000]"
proof -
  have "0x3000 \<in> pages" by (simp add: pages_def isPageAligned_def)
  note a = hm_assign_ok [OF empty_backing this, of 0 "0x7000"]
  have c: "vmr_contains (hd demo_regions) v \<longleftrightarrow> 0x1000 \<le> v \<and> v < 0x4000" for v
    by (simp add: demo_regions_def vmr_contains_def vmr_end_def vmr_new_def ofsPages_def PAGE_SIZE_def)
  show ok: "regions_ok demo_regions"
    using a by (simp add: demo_regions_def region_ok_def vmr_new_def fits_def isPageAligned_def)
  show "\<forall>r\<in>set demo_regions. unat (r_numPages r) < 2 ^ 51" by (simp add: demo_regions_def vmr_new_def)
  show "cover demo_regions = {0x1000..<0x4000}" by (auto simp: demo_regions_def vmr_new_def span_def)
  have l: "vmr_lookup v (hd demo_regions) = ([0x3000 \<mapsto> 0x7000] v :: u64 option)" for v
    using a by (simp add: demo_regions_def vmr_lookup_map)
  show "\<forall>r\<in>set demo_regions. region_clean r"
    using c a by (auto simp: region_clean_def demo_regions_def split: if_splits)
  have "rec_map demo_regions v = (if vmr_contains (hd demo_regions) v then vmr_lookup v (hd demo_regions) else None)" for v
    by (simp add: demo_regions_def)
  then show "rec_map demo_regions = [0x3000 \<mapsto> 0x7000]"
    unfolding c l by (auto simp: fun_eq_iff)
qed

text \<open>
  C17: Adding a block with its frames (\<^verbatim>\<open>addRegion(addr, physStart, num)\<close>) to regions that do not
  overlap it succeeds, whether it joins the region above, the region below or becomes a region of its
  own: the regions stay disjoint, they cover exactly the old pages and the new block, page \<open>i\<close> of the
  block is recorded as frame \<open>physStart + i\<close> pages and every other record is unchanged.
\<close>

theorem addRegionPhys_exact:
  assumes "regions_ok (as_regions s)" "\<forall>r\<in>set (as_regions s). region_clean r"
    and "block_ok addr num" "span addr num \<inter> cover (as_regions s) = {}" "isPageAligned phys"
  shows "\<exists>rs'. addRegionPhys True addr phys num s = Inr (s\<lparr>as_regions := rs'\<rparr>) \<and> regions_ok rs' \<and> (\<forall>r\<in>set rs'. region_clean r) \<and>
    cover rs' = cover (as_regions s) \<union> span addr num \<and>
    (\<forall>v. isPageAligned v \<longrightarrow> rec_map rs' v = (if unat v \<in> span addr num then Some (phys + (v - addr)) else rec_map (as_regions s) v))"
  by (rule addRegionPhys_ok [OF assms])

theorem addRegionPhys_exact_witness:
  "\<exists>rs'. addRegionPhys True 0x4000 0x20000 2 (as_demo\<lparr>as_regions := demo_regions\<rparr>) = Inr (as_demo\<lparr>as_regions := rs'\<rparr>) \<and>
    cover rs' = {0x1000..<0x6000} \<and> rec_map rs' 0x5000 = Some 0x21000 \<and> rec_map rs' 0x3000 = Some 0x7000"
proof -
  let ?s = "as_demo\<lparr>as_regions := demo_regions\<rparr>"
  have blk: "block_ok 0x4000 2" "isPageAligned 0x20000" by (simp_all add: block_ok_def fits_def isPageAligned_def)
  have sp: "span 0x4000 2 = {0x4000..<0x6000}" by (simp add: span_def)
  have "\<exists>rs'. addRegionPhys True 0x4000 0x20000 2 ?s = Inr (?s\<lparr>as_regions := rs'\<rparr>) \<and> regions_ok rs' \<and> (\<forall>r\<in>set rs'. region_clean r) \<and>
    cover rs' = cover (as_regions ?s) \<union> span 0x4000 2 \<and>
    (\<forall>v. isPageAligned v \<longrightarrow> rec_map rs' v = (if unat v \<in> span 0x4000 2 then Some (0x20000 + (v - 0x4000)) else rec_map (as_regions ?s) v))"
    by (rule addRegionPhys_exact) (use demo_regions_ok blk sp in auto)
  then obtain rs' where rs: "addRegionPhys True 0x4000 0x20000 2 ?s = Inr (as_demo\<lparr>as_regions := rs'\<rparr>)"
    "cover rs' = {0x1000..<0x4000} \<union> {0x4000..<0x6000}"
    "\<And>v. isPageAligned v \<Longrightarrow> rec_map rs' v = (if unat v \<in> {0x4000..<0x6000} then Some (0x20000 + (v - 0x4000)) else [0x3000 \<mapsto> 0x7000] v)"
    by (auto simp: demo_regions_ok sp)
  from rs(3) [of "0x5000"] rs(3) [of "0x3000"] have "rec_map rs' 0x5000 = Some 0x21000" "rec_map rs' 0x3000 = Some 0x7000"
    by (simp_all add: isPageAligned_def)
  moreover have "cover rs' = {0x1000..<0x6000}" using rs(2) by auto
  ultimately show ?thesis using rs(1) by blast
qed


text \<open>A client of \<^verbatim>\<open>pmm::deallocate\<close> that records the frames it is given and stops at a second free.\<close>

definition log_free :: "u64 \<Rightarrow> u64 list \<Rightarrow> u64 list res" where
  "log_free p ps = (if p \<in> set ps then Inl (Abort ''double free'') else Inr (p # ps))"




text \<open>
  \<^verbatim>\<open>shrink_down\<close> removes the entries from the region's end upwards, not those of the pages it cuts
  off. The entry of a freed tail page stays behind: when the region grows over the page again the freed
  frame is found there, and \<^verbatim>\<open>destroy\<close> frees it a second time.
\<close>

lemma freed_tail_stays:
  "case freeRegion True log_free 0x3000 1 True (as_demo\<lparr>as_regions := demo_regions\<rparr>) [] of
     Inr (s1, freed1) \<Rightarrow> freed1 = [0x7000] \<and> as_destroy log_free s1 freed1 = Inl (Abort ''double free'') \<and>
       (case addRegion True 0x3000 1 s1 of
          Inr s2 \<Rightarrow> lookupVirtualMapping 0x3000 s2 (\<lambda>_. hm_new) = (Some 0x3000, Some 0x7000)
        | Inl _ \<Rightarrow> False)
   | Inl _ \<Rightarrow> False"
  by code_simp

end
