(* ===== verification/Virtmap.thy ===== *)
theory Virtmap
  imports Pmm VMRegion
begin

text \<open>
  Virtual mapping, \<^verbatim>\<open>kernel/source/mm/virtmap.cpp\<close>, on the state of the whole memory subsystem: the
  contents of physical memory, the physical memory manager, the address space of every process (by
  process id; 0 is the kernel process), the current process, the shared page stores, whether the heap
  is up, and the locks the running thread holds. \<^verbatim>\<open>CR3\<close> holds the page table of the current
  process. A table entry is read and written through the recursive slot, by the translation of the
  processor. Invalidating translations has no effect here: the model has no TLB. A thread that locks a
  spinlock or mutex it holds is stopped, as \<^verbatim>\<open>lock()\<close> does.
\<close>

section \<open>State\<close>

datatype lockid = PmmLock | VmmLock nat AddressSpaceType | Pml509Lock

record kernel =
  k_mem :: physmem
  k_pmm :: pmm
  k_as :: "nat \<Rightarrow> addrspace"
  k_cur :: nat
  k_shared :: shared_store
  k_heap :: bool
  k_locks :: "lockid list"

definition locked :: "lockid \<Rightarrow> (kernel \<Rightarrow> ('a \<times> kernel) res) \<Rightarrow> kernel \<Rightarrow> ('a \<times> kernel) res" where
  "locked l f k =
     (if l \<in> set (k_locks k) then Inl (Abort ''deadlock'')
      else bindE (f (k\<lparr>k_locks := l # k_locks k\<rparr>)) (\<lambda>(x, k').
             Inr (x, k'\<lparr>k_locks := remove1 l (k_locks k')\<rparr>)))"

definition cur_cr3 :: "kernel \<Rightarrow> u64" where
  "cur_cr3 k = as_cr3 (k_as k (k_cur k))"

definition upd_as :: "nat \<Rightarrow> (addrspace \<Rightarrow> addrspace) \<Rightarrow> kernel \<Rightarrow> kernel" where
  "upd_as pid f k = k\<lparr>k_as := (k_as k)(pid := f (k_as k pid))\<rparr>"

section \<open>The allocators on the kernel state\<close>

definition k_pmm_allocate :: "u64 \<Rightarrow> bool \<Rightarrow> kernel \<Rightarrow> (u64 \<times> kernel) res" where
  "k_pmm_allocate num below4G = locked PmmLock (\<lambda>k.
     bindE (pmm_allocate num below4G (k_pmm k)) (\<lambda>(a, p). Inr (a, k\<lparr>k_pmm := p\<rparr>)))"

definition allocateAddrSpace :: "u64 \<Rightarrow> AddressSpaceType \<Rightarrow> nat \<Rightarrow> kernel \<Rightarrow> (u64 \<times> kernel) res" where
  "allocateAddrSpace num type pid = locked (VmmLock pid type) (\<lambda>k.
     bindE (extmm_allocate num (\<lambda>_ _. True) (as_vmm (k_as k pid) type)) (\<lambda>(ret, x).
     bindE (assertE (isPageAligned ret) ''ret.isPageAligned()'') (\<lambda>_.
       Inr (ret, upd_as pid (\<lambda>s. s\<lparr>as_vmm := (as_vmm s)(type := x)\<rparr>) k))))"

text \<open>
  The second half of the condition, an init phase above \<^verbatim>\<open>SchedulerStarted\<close>, never holds: that is the
  last phase.
\<close>

definition alloc_phys_tracked :: "nat \<Rightarrow> kernel \<Rightarrow> (u64 \<times> kernel) res" where
  "alloc_phys_tracked pid k =
     bindE (k_pmm_allocate 1 False k) (\<lambda>(x, k').
     bindE (assertE (nonZero x) ''x.nonZero()'') (\<lambda>_.
       Inr (x, if pid > 0 then upd_as pid (addTrackedPhysPage x) k' else k')))"

section \<open>Mapping one page\<close>

text \<open>
  One level of \<^verbatim>\<open>map_internal\<close>: an absent entry is filled with a new table, which is cleared through
  the pointer to the level below.
\<close>

definition map_level :: "nat \<Rightarrow> u64 \<Rightarrow> u64 \<Rightarrow> u64 \<Rightarrow> u64 \<Rightarrow> string \<Rightarrow> kernel \<Rightarrow> kernel res" where
  "map_level pid tab idx child flags msg k =
     bindE (tab_read (k_mem k) (cur_cr3 k) tab idx) (\<lambda>e.
     if present e then Inr k
     else bindE (alloc_phys_tracked pid k) (\<lambda>(pp, k1).
          bindE (assertE (nonZero pp) ''pp.nonZero()'') (\<lambda>_.
          bindE (tab_write (k_mem k1) (cur_cr3 k1) tab idx (pp OR flags)) (\<lambda>mem1.
          bindE (page_zero mem1 (cur_cr3 k1) child) (\<lambda>mem2.
          bindE (tab_read mem2 (cur_cr3 k1) tab idx) (\<lambda>e2.
          if e2 AND PAGE_NX \<noteq> 0 then Inl (Abort msg) else Inr (k1\<lparr>k_mem := mem2\<rparr>)))))))"

definition map_core :: "u64 \<Rightarrow> nat \<Rightarrow> u64 \<Rightarrow> u64 \<Rightarrow> u64 \<Rightarrow> bool \<Rightarrow> kernel \<Rightarrow> (unit \<times> kernel) res" where
  "map_core r pid virt phys flags overwrite k =
     (let DEFAULT_FLAGS_LOW = PAGE_USER OR PAGE_WRITE OR PAGE_PRESENT;
          DEFAULT_FLAGS_HIGH = PAGE_WRITE OR PAGE_PRESENT;
          p4idx = indexPML4 virt; p3idx = indexPDPT virt; p2idx = indexPageDir virt; p1idx = indexPageTable virt
      in if p4idx = 510 \<or> p4idx = 509 then Inl (Abort ''cannot map to PML4T at index 510 or 509!'')
         else let pml4 = getPML4 r; pdpt = getPDPT r p4idx; pdir = getPDir r p4idx p3idx;
                  ptab = getPTab r p4idx p3idx p2idx;
                  DEFAULT_FLAGS = (if p4idx > 255 then DEFAULT_FLAGS_HIGH else DEFAULT_FLAGS_LOW)
              in if p4idx > 255 \<and> flags AND PAGE_USER \<noteq> 0
                 then Inl (Abort ''cannot map high address space as user-readable!'')
                 else bindE (map_level pid pml4 p4idx pdpt DEFAULT_FLAGS ''somehow page has a NX pdpt!'' k) (\<lambda>k1.
                      bindE (map_level pid pdpt p3idx pdir DEFAULT_FLAGS ''somehow page has a NX pdir!'' k1) (\<lambda>k2.
                      bindE (map_level pid pdir p2idx ptab DEFAULT_FLAGS ''somehow page has a NX ptab!'' k2) (\<lambda>k3.
                      bindE (if overwrite then Inr 0 else tab_read (k_mem k3) (cur_cr3 k3) ptab p1idx) (\<lambda>e.
                      if \<not> overwrite \<and> present e then Inl (Abort ''virtual addr was already mapped'')
                      else bindE (tab_write (k_mem k3) (cur_cr3 k3) ptab p1idx (phys OR flags)) (\<lambda>mem.
                             Inr ((), k3\<lparr>k_mem := mem\<rparr>)))))))"

section \<open>Unmapping one page\<close>

text \<open>
  The walk that \<^verbatim>\<open>unmapAddress\<close>, \<^verbatim>\<open>getPhysAddr\<close>, \<^verbatim>\<open>isMapped\<close> and \<^verbatim>\<open>getPageFlags\<close> begin with:
  the last-level entry, or the number of the level whose entry is absent.
\<close>

definition find_entry :: "u64 \<Rightarrow> u64 \<Rightarrow> kernel \<Rightarrow> (nat + u64) res" where
  "find_entry r v k =
     (let p4idx = indexPML4 v; p3idx = indexPDPT v; p2idx = indexPageDir v; p1idx = indexPageTable v;
          rd = tab_read (k_mem k) (cur_cr3 k)
      in bindE (rd (getPML4 r) p4idx) (\<lambda>e4. if \<not> present e4 then Inr (Inl 4)
         else bindE (rd (getPDPT r p4idx) p3idx) (\<lambda>e3. if \<not> present e3 then Inr (Inl 3)
         else bindE (rd (getPDir r p4idx p3idx) p2idx) (\<lambda>e2. if \<not> present e2 then Inr (Inl 2)
         else bindE (rd (getPTab r p4idx p3idx p2idx) p1idx) (\<lambda>e1. Inr (Inr e1))))))"

definition not_mapped :: "string \<Rightarrow> nat \<Rightarrow> kerror" where
  "not_mapped who level = Abort (who @ '': was not mapped! '' @
     (if level = 4 then ''(pdpt not present)'' else if level = 3 then ''(pdir not present)''
      else if level = 2 then ''(ptab not present)'' else ''(page not present)''))"

definition unmap_page :: "u64 \<Rightarrow> bool \<Rightarrow> u64 \<Rightarrow> kernel \<Rightarrow> kernel res" where
  "unmap_page r ignore v k =
     (let p4idx = indexPML4 v; p1idx = indexPageTable v; ptab = getPTab r p4idx (indexPDPT v) (indexPageDir v)
      in if p4idx = 510 then Inl (Abort ''cannot unmap PML4T at index 510!'')
         else bindE (find_entry r v k) (\<lambda>x.
           case x of Inl level \<Rightarrow> if ignore then Inr k else Inl (not_mapped ''unmap'' level)
           | Inr e \<Rightarrow>
               if \<not> present e
               then (if ignore then Inr k
                     else if e AND PAGE_COPY_ON_WRITE \<noteq> 0
                     then bindE (tab_write (k_mem k) (cur_cr3 k) ptab p1idx (e AND NOT PAGE_COPY_ON_WRITE)) (\<lambda>mem.
                            Inr (k\<lparr>k_mem := mem\<rparr>))
                     else Inl (not_mapped ''unmap'' 1))
               else bindE (tab_write (k_mem k) (cur_cr3 k) ptab p1idx 0) (\<lambda>mem. Inr (k\<lparr>k_mem := mem\<rparr>))))"

definition unmap_core :: "u64 \<Rightarrow> u64 \<Rightarrow> u64 \<Rightarrow> bool \<Rightarrow> kernel \<Rightarrow> (unit \<times> kernel) res" where
  "unmap_core r virt num ignore k =
     bindE (assertE (isPageAligned virt) ''virt.isPageAligned()'') (\<lambda>_.
     bindE (foldE (unmap_page r ignore) (page_seq virt num) k) (\<lambda>k'. Inr ((), k')))"

section \<open>The tables of another process\<close>

text \<open>
  \<^verbatim>\<open>TempMapper\<close>: slot 509 of the current table and of the other process's own table are pointed at
  the other table, the latter through a scratch page. Mapping and unmapping the scratch page are calls
  on the current process, so they use slot 510.
\<close>

definition poke_509 :: "u64 \<Rightarrow> u64 \<Rightarrow> kernel \<Rightarrow> (unit \<times> kernel) res" where
  "poke_509 target entry k =
     bindE (tab_write (k_mem k) (cur_cr3 k) (getPML4 510) 509 entry) (\<lambda>mem.
     bindE (allocateAddrSpace 1 User (k_cur k) (k\<lparr>k_mem := mem\<rparr>)) (\<lambda>(tmp, k1).
     bindE (assertE (isPageAligned tmp \<and> isPageAligned target) ''isPageAligned()'') (\<lambda>_.
     bindE (map_core 510 (k_cur k) tmp target (PAGE_PRESENT OR PAGE_WRITE OR PAGE_PRESENT) False k1) (\<lambda>(_, k2).
     bindE (tab_write (k_mem k2) (cur_cr3 k2) tmp 509 entry) (\<lambda>mem2.
       unmap_core 510 tmp 1 False (k2\<lparr>k_mem := mem2\<rparr>))))))"

definition temp_map :: "nat \<Rightarrow> kernel \<Rightarrow> (unit \<times> kernel) res" where
  "temp_map pid k =
     (let cr3 = as_cr3 (k_as k pid) in poke_509 cr3 (cr3 OR PAGE_PRESENT OR PAGE_WRITE) k)"

definition temp_unmap :: "nat \<Rightarrow> kernel \<Rightarrow> (unit \<times> kernel) res" where
  "temp_unmap pid k = poke_509 (as_cr3 (k_as k pid)) 0 k"

definition with_tables :: "nat \<Rightarrow> (u64 \<Rightarrow> kernel \<Rightarrow> ('a \<times> kernel) res) \<Rightarrow> kernel \<Rightarrow> ('a \<times> kernel) res" where
  "with_tables pid f k =
     (if pid = k_cur k then f 510 k
      else locked Pml509Lock (\<lambda>k.
             bindE (temp_map pid k) (\<lambda>(_, k1).
             bindE (f 509 k1) (\<lambda>(x, k2).
             bindE (temp_unmap pid k2) (\<lambda>(_, k3). Inr (x, k3))))) k)"

section \<open>Operations\<close>

definition map_internal :: "u64 \<Rightarrow> u64 \<Rightarrow> u64 \<Rightarrow> nat \<Rightarrow> bool \<Rightarrow> kernel \<Rightarrow> (unit \<times> kernel) res" where
  "map_internal virt phys flags pid overwrite k =
     bindE (assertE (isPageAligned virt) ''virt.isPageAligned()'') (\<lambda>_.
     bindE (assertE (isPageAligned phys) ''phys.isPageAligned()'') (\<lambda>_.
       with_tables pid (\<lambda>r. map_core r pid virt phys flags overwrite) k))"

text \<open>The loop of the mapping functions; page \<open>i\<close> gets the frame \<open>frame i\<close>.\<close>

definition map_pages :: "u64 \<Rightarrow> (u64 \<Rightarrow> u64) \<Rightarrow> u64 \<Rightarrow> u64 \<Rightarrow> nat \<Rightarrow> bool \<Rightarrow> kernel \<Rightarrow> kernel res" where
  "map_pages virt frame num flags pid overwrite =
     foldE (\<lambda>i k. bindE (map_internal (virt + ofsPages (of_nat i)) (frame (of_nat i)) flags pid overwrite k) (\<lambda>(_, k'). Inr k'))
       [0..<unat num]"

definition mapAddressOverwrite :: "u64 \<Rightarrow> u64 \<Rightarrow> u64 \<Rightarrow> u64 \<Rightarrow> nat \<Rightarrow> kernel \<Rightarrow> kernel res" where
  "mapAddressOverwrite virt phys num flags pid =
     map_pages virt (\<lambda>i. phys + ofsPages i) num (flags OR PAGE_PRESENT) pid True"

definition mapAddress :: "u64 \<Rightarrow> u64 \<Rightarrow> u64 \<Rightarrow> u64 \<Rightarrow> nat \<Rightarrow> kernel \<Rightarrow> kernel res" where
  "mapAddress virt phys num flags pid =
     map_pages virt (\<lambda>i. phys + ofsPages i) num (flags OR PAGE_PRESENT) pid False"

definition mapCOW :: "u64 \<Rightarrow> u64 \<Rightarrow> u64 \<Rightarrow> u64 \<Rightarrow> nat \<Rightarrow> kernel \<Rightarrow> kernel res" where
  "mapCOW virt phys num flags pid k =
     bindE (assertE (isPageAligned virt) ''virt.isPageAligned()'') (\<lambda>_.
     let flags' = flags AND NOT PAGE_PRESENT
     in map_pages virt (\<lambda>i. phys + ofsPages i) num (flags' OR PAGE_PRESENT OR PAGE_COPY_ON_WRITE) pid False k)"

definition mapZeroedCOW :: "u64 \<Rightarrow> u64 \<Rightarrow> u64 \<Rightarrow> nat \<Rightarrow> kernel \<Rightarrow> kernel res" where
  "mapZeroedCOW virt num flags pid k =
     bindE (assertE (isPageAligned virt) ''virt.isPageAligned()'') (\<lambda>_.
     bindE (assertE (flags AND PAGE_WRITE = 0) ''(flags & PAGE_WRITE) == 0'') (\<lambda>_.
     let flags' = flags AND NOT PAGE_WRITE
     in map_pages virt (\<lambda>_. getZeroPage (k_pmm k)) num (flags' OR PAGE_PRESENT OR PAGE_COPY_ON_WRITE) pid False k))"

definition mapLazy :: "u64 \<Rightarrow> u64 \<Rightarrow> u64 \<Rightarrow> nat \<Rightarrow> kernel \<Rightarrow> kernel res" where
  "mapLazy virt num flags pid k =
     bindE (assertE (isPageAligned virt) ''virt.isPageAligned()'') (\<lambda>_.
     bindE (assertE (flags AND PAGE_PRESENT = 0) ''(flags & PAGE_PRESENT) == 0'') (\<lambda>_.
     let flags' = flags AND NOT PAGE_PRESENT
     in map_pages virt (\<lambda>_. getZeroPage (k_pmm k)) num (flags' OR PAGE_COPY_ON_WRITE) pid False k))"

definition getPageFlags :: "u64 \<Rightarrow> nat \<Rightarrow> kernel \<Rightarrow> (u64 \<times> kernel) res" where
  "getPageFlags virt pid k =
     bindE (assertE (isPageAligned virt) ''virt.isPageAligned()'') (\<lambda>_.
       with_tables pid (\<lambda>r k. bindE (find_entry r virt k) (\<lambda>x.
         Inr (case x of Inl _ \<Rightarrow> 0 | Inr e \<Rightarrow> e AND (PAGE_NX OR 0xFFF), k))) k)"

definition unmapAddress :: "u64 \<Rightarrow> u64 \<Rightarrow> bool \<Rightarrow> nat \<Rightarrow> kernel \<Rightarrow> (unit \<times> kernel) res" where
  "unmapAddress virt num ignore pid = with_tables pid (\<lambda>r. unmap_core r virt num ignore)"

definition getPhysAddr :: "u64 \<Rightarrow> nat \<Rightarrow> kernel \<Rightarrow> (u64 \<times> kernel) res" where
  "getPhysAddr virt pid = with_tables pid (\<lambda>r k.
     bindE (assertE (isPageAligned virt) ''virt.isPageAligned()'') (\<lambda>_.
     bindE (find_entry r virt k) (\<lambda>x.
       case x of Inl level \<Rightarrow> Inl (not_mapped ''getPhys'' level)
       | Inr e \<Rightarrow> if \<not> present e then Inl (not_mapped ''getPhys'' 1) else Inr (PAGE_ALIGN e, k))))"

fun all_mapped :: "u64 \<Rightarrow> u64 list \<Rightarrow> kernel \<Rightarrow> bool res" where
  "all_mapped r [] k = Inr True"
| "all_mapped r (v # vs) k =
     bindE (find_entry r v k) (\<lambda>x.
       case x of Inl _ \<Rightarrow> Inr False | Inr e \<Rightarrow> if present e then all_mapped r vs k else Inr False)"

definition isMapped :: "u64 \<Rightarrow> u64 \<Rightarrow> nat \<Rightarrow> kernel \<Rightarrow> (bool \<times> kernel) res" where
  "isMapped virt num pid = with_tables pid (\<lambda>r k.
     bindE (assertE (isPageAligned virt) ''virt.isPageAligned()'') (\<lambda>_.
     bindE (all_mapped r (page_seq virt num) k) (\<lambda>b. Inr (b, k))))"

section \<open>Mapping a page\<close>

lemma locked_free:
  "l \<notin> set (k_locks k) \<Longrightarrow>
   locked l f k = bindE (f (k\<lparr>k_locks := l # k_locks k\<rparr>)) (\<lambda>(x, k'). Inr (x, k'\<lparr>k_locks := remove1 l (k_locks k')\<rparr>))"
  by (simp add: locked_def)

lemma pool_pmm_inv: "pool_ok p \<longleftrightarrow> pmm_inv (pmm_free p) p []"
  by (auto simp: pool_ok_def pmm_inv_def)

lemma pmm_allocate_one:
  assumes "pool_ok p" "pmm_free p \<noteq> {}" "0 \<notin> pmm_free p"
  shows "\<exists>x p'. pmm_allocate 1 False p = Inr (x, p')"
proof -
  have wf: "ext_wf (x_head (p_ext p))" and sz: "\<forall>e\<in>set (x_head (p_ext p)). e_size e \<noteq> 0"
    using assms(1) by (auto simp: pool_ok_def)
  from assms(2) obtain e where e: "e \<in> set (x_head (p_ext p))" by (cases "x_head (p_ext p)") auto
  obtain ret st' where r: "extmm_allocate 1 (\<lambda>a l. if False then pmm_end a l < 0xFFFFFFFF else True) (p_ext p) = Inr (ret, st')"
    by (cases "ext_take (\<lambda>a l. if False then pmm_end a l < 0xFFFFFFFF else True) 1 (x_head (p_ext p))")
      (auto simp: extmm_allocate_def)
  have "1 \<le> e_size e" using sz e by (simp add: word_le_nat_alt unat_gt_0 Suc_le_eq)
  with e have "ext_take (\<lambda>a l. if False then pmm_end a l < 0xFFFFFFFF else True) 1 (x_head (p_ext p)) \<noteq> None"
    unfolding ext_take_None by auto
  with r have "\<exists>f es. ext_take (\<lambda>a l. if False then pmm_end a l < 0xFFFFFFFF else True) 1 (x_head (p_ext p)) = Some (ret, f, es)"
    by (auto simp: extmm_allocate_def split: option.splits)
  then have "span ret 1 \<subseteq> pmm_free p" using ext_take_correct [OF _ wf] by blast
  then have "unat ret \<in> pmm_free p" by (auto simp: span_def)
  then have "ret \<noteq> 0" using assms(3) by auto
  with r show ?thesis by (simp add: pmm_allocate_def)
qed

definition pages_of :: "nat set \<Rightarrow> u64 set" where
  "pages_of B = {f. isPageAligned f \<and> span f 1 \<subseteq> B}"

lemma pages_of_mono: "B \<subseteq> B' \<Longrightarrow> pages_of B \<subseteq> pages_of B'"
  by (auto simp: pages_of_def)

lemma span_one: "span f 1 = {unat f..<unat f + 4096}"
  by (simp add: span_def)

lemma pages_of_diff: "f \<in> pages_of (B - span x 1) \<Longrightarrow> f \<in> pages_of B \<and> f \<noteq> x"
proof -
  assume f: "f \<in> pages_of (B - span x 1)"
  have "unat f \<in> span f 1" by (simp add: span_one)
  with f show ?thesis by (auto simp: pages_of_def)
qed

lemma pages_disjoint:
  assumes "isPageAligned a" "isPageAligned b" "a \<noteq> b"
  shows "span a 1 \<inter> span b 1 = {}"
proof -
  have "4096 dvd unat a" "4096 dvd unat b" using assms(1,2) by (simp_all add: isPageAligned_dvd)
  then obtain i j where ij: "unat a = 4096 * i" "unat b = 4096 * j" by (elim dvdE)
  then have "i \<noteq> j" using assms(3) by (auto simp: u64_eq_unat)
  then have "4096 * i + 4096 \<le> 4096 * j \<or> 4096 * j + 4096 \<le> 4096 * i" by (cases "i < j") auto
  then show ?thesis using ij by (auto simp: span_one)
qed

text \<open>The last-level entry of a page, if its tables are there.\<close>

definition pte :: "physmem \<Rightarrow> u64 \<Rightarrow> u64 list \<Rightarrow> u64 option" where
  "pte mem root q = Option.bind (walk mem root (butlast q)) (\<lambda>t. Some (mem t (last q)))"

definition keeps_ptes :: "physmem \<Rightarrow> physmem \<Rightarrow> u64 \<Rightarrow> u64 list set \<Rightarrow> bool" where
  "keeps_ptes mem mem' root X \<longleftrightarrow>
     (\<forall>q e. mappable q \<and> length q = 4 \<and> q \<notin> X \<and> pte mem root q = Some e \<longrightarrow> pte mem' root q = Some e)"

lemma walk_pte: "length q = 4 \<Longrightarrow> walk mem root q = Option.bind (pte mem root q) (\<lambda>e. if present e then Some (entry_frame e) else None)"
proof -
  assume "length q = 4"
  then have "q = butlast q @ [last q]" by (cases q rule: rev_cases) auto
  then have "walk mem root q = walk mem root (butlast q @ [last q])" by simp
  then show ?thesis by (simp add: walk_append pte_def mmu_step_def Option.bind_assoc)
qed

lemma keeps_link:
  assumes tree: "pt_tree mem root" and p: "walk mem root p = Some t" "mappable (p @ [i])" "length p \<le> 2"
    and e: "\<not> is_table mem root (entry_frame e)" "present e" "\<not> present (mem t i)"
  shows "keeps_ptes mem (link_table mem t i e) root {}"
  unfolding keeps_ptes_def
proof (intro allI impI, elim conjE)
  fix q y assume q: "mappable q" "length q = 4" and y: "pte mem root q = Some y"
  let ?b = "butlast q"
  have b: "length ?b = 3" "mappable ?b" using q mappable_prefix [of ?b "[last q]"] by (cases q rule: rev_cases; simp)+
  from y obtain u where u: "walk mem root ?b = Some u" "y = mem u (last q)" by (auto simp: pte_def bind_eq_Some_conv)
  have "?b \<noteq> p" using b p(3) by auto
  then have "u \<noteq> t" using pt_treeD [OF tree u(1) _ b(2) mappable_prefix [OF p(2)]] b p by auto
  moreover have "u \<noteq> entry_frame e" using e(1) u(1) b by (auto simp: is_table_def)
  moreover have "walk (link_table mem t i e) root ?b = Some u"
  proof -
    have "?b \<noteq> p @ [i]"
    proof
      assume eq: "?b = p @ [i]"
      then have "mmu_step mem t i = Some u" using u(1) p(1) by (simp add: walk_append)
      with e(3) show False by (simp add: mmu_step_def)
    qed
    then show ?thesis using link_table_walks [OF tree p e b(2)] b(1) u(1) by simp
  qed
  ultimately show "pte (link_table mem t i e) root q = Some y" using u(2) by (simp add: pte_def link_table_def)
qed

lemma tab_ptr_simps:
  "tab_ptr r [] = getPML4 r" "tab_ptr r [a] = getPDPT r a" "tab_ptr r [a, b] = getPDir r a b" "tab_ptr r [a, b, c] = getPTab r a b c"
  by (simp_all add: tab_ptr_def)

lemma keeps_entry:
  assumes R: "reach mem cr3 r root" and t: "walk mem root [a, b, c] = Some t"
    and p: "mappable [a, b, c, d]" "small_path [a, b, c, d]"
  shows "keeps_ptes mem (mem(t := (mem t)(d := e))) root {[a, b, c, d]}"
  unfolding keeps_ptes_def
proof (intro allI impI, elim conjE)
  fix q y assume q: "mappable q" "length q = 4" "q \<notin> {[a, b, c, d]}" and y: "pte mem root q = Some y"
  let ?b = "butlast q"
  have qb: "q = ?b @ [last q]" using q(2) by (cases q rule: rev_cases) auto
  have b: "length ?b = 3" "mappable ?b" using q mappable_prefix [of ?b "[last q]"] qb by auto
  have tree: "pt_tree mem root" using R by (simp add: reach_def)
  from y obtain u where u: "walk mem root ?b = Some u" "y = mem u (last q)" by (auto simp: pte_def bind_eq_Some_conv)
  have "\<not> (u = t \<and> last q = d)"
  proof
    assume h: "u = t \<and> last q = d"
    then have "?b = [a, b, c]" using pt_treeD [OF tree u(1) _ b(2)] t p b(1) by (auto simp: mappable_def)
    with h q(3) show False using qb by auto
  qed
  moreover have "walk (mem(t := (mem t)(d := e))) root ?b = Some u"
  proof -
    have "?b \<noteq> [a, b, c, d]"
    proof
      assume "?b = [a, b, c, d]"
      then have "length ?b = 4" by simp
      with b(1) show False by simp
    qed
    then show ?thesis using map_entry(3) [OF R t p b(2), where e = e] b(1) u(1) by simp
  qed
  ultimately show "pte (mem(t := (mem t)(d := e))) root q = Some y" using u(2) by (auto simp: pte_def)
qed

text \<open>
  What mapping through slot \<open>r\<close> into the tables at \<open>root\<close> needs: the tables can be reached, the free
  frames are proper frame addresses, and none of them is a table or the current root.
\<close>

definition map_ok :: "u64 \<Rightarrow> u64 \<Rightarrow> kernel \<Rightarrow> bool" where
  "map_ok r root k \<longleftrightarrow>
     reach (k_mem k) (cur_cr3 k) r root \<and> pool_ok (k_pmm k) \<and> 0 \<notin> pmm_free (k_pmm k) \<and> PmmLock \<notin> set (k_locks k) \<and>
     (\<forall>f\<in>pages_of (pmm_free (k_pmm k)). phys_ok f \<and> \<not> is_table (k_mem k) root f \<and> f \<noteq> cur_cr3 k)"

text \<open>Only the tables, the free frames and the list of tracked pages differ.\<close>

definition same_but_maps :: "nat \<Rightarrow> kernel \<Rightarrow> kernel \<Rightarrow> bool" where
  "same_but_maps pid k k' \<longleftrightarrow>
     (\<exists>T. k' = k\<lparr>k_mem := k_mem k', k_pmm := k_pmm k', k_as := (k_as k)(pid := (k_as k pid)\<lparr>as_tracked := T\<rparr>)\<rparr>) \<and>
     p_zero (k_pmm k') = p_zero (k_pmm k)"

lemma same_but_maps_refl [simp]: "same_but_maps pid k k"
  unfolding same_but_maps_def by (intro conjI exI [of _ "as_tracked (k_as k pid)"]) simp_all

lemma same_but_maps_mem: "same_but_maps pid k k' \<Longrightarrow> same_but_maps pid k (k'\<lparr>k_mem := m\<rparr>)"
  unfolding same_but_maps_def by (cases k; cases k') auto

lemma same_but_maps_trans: "same_but_maps pid k k' \<Longrightarrow> same_but_maps pid k' k'' \<Longrightarrow> same_but_maps pid k k''"
  unfolding same_but_maps_def
proof (elim conjE exE)
  fix T T' assume a: "k' = k\<lparr>k_mem := k_mem k', k_pmm := k_pmm k', k_as := (k_as k)(pid := (k_as k pid)\<lparr>as_tracked := T\<rparr>)\<rparr>"
    and b: "k'' = k'\<lparr>k_mem := k_mem k'', k_pmm := k_pmm k'', k_as := (k_as k')(pid := (k_as k' pid)\<lparr>as_tracked := T'\<rparr>)\<rparr>"
    and z: "p_zero (k_pmm k') = p_zero (k_pmm k)" "p_zero (k_pmm k'') = p_zero (k_pmm k')"
  have "k_as k' = (k_as k)(pid := (k_as k pid)\<lparr>as_tracked := T\<rparr>)" by (subst a) simp
  then have "k'' = k\<lparr>k_mem := k_mem k'', k_pmm := k_pmm k'', k_as := (k_as k)(pid := (k_as k pid)\<lparr>as_tracked := T'\<rparr>)\<rparr>"
    by (subst b, subst a) simp
  with z show "(\<exists>T. k'' = k\<lparr>k_mem := k_mem k'', k_pmm := k_pmm k'', k_as := (k_as k)(pid := (k_as k pid)\<lparr>as_tracked := T\<rparr>)\<rparr>) \<and>
     p_zero (k_pmm k'') = p_zero (k_pmm k)" by auto
qed

lemma same_but_mapsD:
  assumes "same_but_maps pid k k'"
  shows "cur_cr3 k' = cur_cr3 k" "k_locks k' = k_locks k" "k_cur k' = k_cur k" "k_shared k' = k_shared k" "k_heap k' = k_heap k"
    "as_regions (k_as k' p) = as_regions (k_as k p)" "as_vmm (k_as k' p) = as_vmm (k_as k p)"
    "as_shared (k_as k' p) = as_shared (k_as k p)" "as_cr3 (k_as k' p) = as_cr3 (k_as k p)"
    "p_zero (k_pmm k') = p_zero (k_pmm k)"
proof -
  from assms obtain T where a: "k' = k\<lparr>k_mem := k_mem k', k_pmm := k_pmm k', k_as := (k_as k)(pid := (k_as k pid)\<lparr>as_tracked := T\<rparr>)\<rparr>"
    and z: "p_zero (k_pmm k') = p_zero (k_pmm k)" unfolding same_but_maps_def by blast
  have as: "k_as k' = (k_as k)(pid := (k_as k pid)\<lparr>as_tracked := T\<rparr>)" by (subst a) simp
  show c: "k_cur k' = k_cur k" by (subst a) simp
  show "k_locks k' = k_locks k" by (subst a) simp
  show "k_shared k' = k_shared k" by (subst a) simp
  show "k_heap k' = k_heap k" by (subst a) simp
  show "as_regions (k_as k' p) = as_regions (k_as k p)" "as_vmm (k_as k' p) = as_vmm (k_as k p)"
    "as_shared (k_as k' p) = as_shared (k_as k p)" "as_cr3 (k_as k' p) = as_cr3 (k_as k p)" unfolding as by simp_all
  show "cur_cr3 k' = cur_cr3 k" unfolding cur_cr3_def c as by simp
  show "p_zero (k_pmm k') = p_zero (k_pmm k)" by (rule z)
qed

lemma alloc_phys_tracked_ok:
  assumes "pool_ok (k_pmm k)" "pmm_free (k_pmm k) \<noteq> {}" "0 \<notin> pmm_free (k_pmm k)" "PmmLock \<notin> set (k_locks k)"
  shows "\<exists>x k'. alloc_phys_tracked pid k = Inr (x, k') \<and> same_but_maps pid k k' \<and> k_mem k' = k_mem k \<and>
    pool_ok (k_pmm k') \<and> x \<in> pages_of (pmm_free (k_pmm k)) \<and> x \<noteq> 0 \<and>
    pmm_free (k_pmm k') = pmm_free (k_pmm k) - span x 1"
proof -
  from pmm_allocate_one [OF assms(1-3)] obtain x p' where a: "pmm_allocate 1 False (k_pmm k) = Inr (x, p')" by blast
  note inv = pmm_allocate_inv [OF assms(1) [unfolded pool_pmm_inv] a]
  have x: "isPageAligned x" "x \<noteq> 0" "pool_ok p'" using inv(1) by (simp_all add: pmm_inv_def pool_ok_def)
  have k: "k_pmm_allocate 1 False k = Inr (x, k\<lparr>k_pmm := p'\<rparr>)"
    unfolding k_pmm_allocate_def using assms(4) a by (simp add: locked_free)
  let ?k = "if pid > 0 then upd_as pid (addTrackedPhysPage x) (k\<lparr>k_pmm := p'\<rparr>) else k\<lparr>k_pmm := p'\<rparr>"
  have "alloc_phys_tracked pid k = Inr (x, ?k)"
    using k x(2) by (simp add: alloc_phys_tracked_def nonZero_def)
  moreover have "same_but_maps pid k ?k"
    unfolding same_but_maps_def
    by (intro conjI exI [of _ "if pid > 0 then as_tracked (k_as k pid) @ [x] else as_tracked (k_as k pid)"])
      (simp_all add: upd_as_def addTrackedPhysPage_def inv(5))
  moreover have "k_mem ?k = k_mem k" "k_pmm ?k = p'" by (simp_all add: upd_as_def)
  ultimately show ?thesis using x inv by (intro exI [of _ x] exI [of _ ?k]) (auto simp: pages_of_def)
qed

definition map_inv :: "kernel \<Rightarrow> u64 \<Rightarrow> u64 \<Rightarrow> nat \<Rightarrow> u64 list \<Rightarrow> kernel \<Rightarrow> u64 set \<Rightarrow> bool" where
  "map_inv k0 r root pid p k F \<longleftrightarrow>
     map_ok r root k \<and> same_but_maps pid k0 k \<and> extends (k_mem k0) (k_mem k) root F \<and>
     F \<subseteq> pages_of (pmm_free (k_pmm k0)) \<and> pmm_free (k_pmm k) = pmm_free (k_pmm k0) - (\<Union>f\<in>F. span f 1) \<and>
     keeps_ptes (k_mem k0) (k_mem k) root {} \<and> finite F \<and> card F \<le> length p \<and> walk (k_mem k) root p \<noteq> None"

lemma map_inv_start: "map_ok r root k \<Longrightarrow> map_inv k r root pid [] k {}"
  by (simp add: map_inv_def keeps_ptes_def)

lemma map_flags:
  assumes "phys_ok pp" and "fl = PAGE_USER OR PAGE_WRITE OR PAGE_PRESENT \<or> fl = PAGE_WRITE OR PAGE_PRESENT"
  shows "present (pp OR fl)" "entry_frame (pp OR fl) = pp" "(pp OR fl) AND PAGE_NX = 0"
proof -
  have fl: "fl = 7 \<or> fl = 3" using assms(2) by (auto simp: PAGE_USER_def PAGE_WRITE_def PAGE_PRESENT_def)
  then show "present (pp OR fl)" by (auto simp: present_or) (simp_all add: present_def PAGE_PRESENT_def)
  show "entry_frame (pp OR fl) = pp" by (rule entry_frame_or [OF assms(1)]) (use fl in \<open>auto simp: entry_frame_def\<close>)
  have "pp AND PAGE_NX = (pp AND 0x000FFFFFFFFFF000) AND PAGE_NX"
    using assms(1) by (simp add: phys_ok_def entry_frame_def)
  also have "\<dots> = 0" by (simp add: PAGE_NX_def and.assoc)
  finally have "pp AND PAGE_NX = 0" .
  moreover have "fl AND PAGE_NX = 0" using fl by (auto simp: PAGE_NX_def)
  ultimately show "(pp OR fl) AND PAGE_NX = 0" by (simp add: bit.conj_disj_distrib2)
qed

lemma card_pages: "finite F \<Longrightarrow> card (\<Union>f\<in>F. span f 1) \<le> card F * 4096"
proof -
  assume F: "finite F"
  have "card (\<Union>f\<in>F. span f 1) \<le> (\<Sum>f\<in>F. card (span f 1))" by (rule card_UN_le [OF F])
  also have "\<dots> = card F * 4096" by (simp add: span_one)
  finally show ?thesis .
qed

lemma pages_left:
  assumes "finite F" "n * 4096 \<le> card B" "card F < n"
  shows "B - (\<Union>f\<in>F. span f 1) \<noteq> {}"
proof
  assume "B - (\<Union>f\<in>F. span f 1) = {}"
  then have "B \<subseteq> (\<Union>f\<in>F. span f 1)" by blast
  then have "card B \<le> card F * 4096"
    using card_mono [of "\<Union>f\<in>F. span f 1" B] card_pages [OF assms(1)] assms(1) by (simp add: span_one)
  with assms(2,3) show False by simp
qed

text \<open>One level of the walk: either the table is there, or a free frame becomes it.\<close>

lemma map_level_ok:
  assumes inv: "map_inv k0 r root pid p k F" and p: "mappable (p @ [i])" "length p \<le> 2" "small_path (p @ [i])"
    and fl: "fl = PAGE_USER OR PAGE_WRITE OR PAGE_PRESENT \<or> fl = PAGE_WRITE OR PAGE_PRESENT"
    and room: "3 * 4096 \<le> card (pmm_free (k_pmm k0))"
  shows "\<exists>k' F'. map_level pid (tab_ptr r p) i (tab_ptr r (p @ [i])) fl msg k = Inr k' \<and> map_inv k0 r root pid (p @ [i]) k' F'"
proof -
  from inv obtain t where t: "walk (k_mem k) root p = Some t" and ok: "map_ok r root k" and S: "same_but_maps pid k0 k"
    and E: "extends (k_mem k0) (k_mem k) root F" and K: "keeps_ptes (k_mem k0) (k_mem k) root {}" and F: "F \<subseteq> pages_of (pmm_free (k_pmm k0))" "finite F" "card F \<le> length p"
    and fr: "pmm_free (k_pmm k) = pmm_free (k_pmm k0) - (\<Union>f\<in>F. span f 1)"
    by (auto simp: map_inv_def)
  have R: "reach (k_mem k) (cur_cr3 k) r root" and pool: "pool_ok (k_pmm k)" "0 \<notin> pmm_free (k_pmm k)" "PmmLock \<notin> set (k_locks k)"
    and free: "\<And>f. f \<in> pages_of (pmm_free (k_pmm k)) \<Longrightarrow> phys_ok f \<and> \<not> is_table (k_mem k) root f \<and> f \<noteq> cur_cr3 k"
    using ok by (auto simp: map_ok_def)
  have tree: "pt_tree (k_mem k) root" using R by (simp add: reach_def)
  note acc = level_accesses [OF R t p]
  show ?thesis
  proof (cases "present (k_mem k t i)")
    case True
    then have "map_level pid (tab_ptr r p) i (tab_ptr r (p @ [i])) fl msg k = Inr k"
      by (simp add: map_level_def acc(1))
    moreover have "map_inv k0 r root pid (p @ [i]) k F"
      using True inv t by (auto simp: map_inv_def walk_append mmu_step_def)
    ultimately show ?thesis by blast
  next
    case False
    have "card F < 3" using F(3) p(2) by simp
    from pages_left [OF F(2) room this] fr have "pmm_free (k_pmm k) \<noteq> {}" by simp
    from alloc_phys_tracked_ok [OF pool(1) this pool(2,3), of pid] obtain x k1 where
      al: "alloc_phys_tracked pid k = Inr (x, k1)" and S1: "same_but_maps pid k k1" and m1: "k_mem k1 = k_mem k"
      and p1: "pool_ok (k_pmm k1)" and x: "x \<in> pages_of (pmm_free (k_pmm k))" "x \<noteq> 0"
      and fr1: "pmm_free (k_pmm k1) = pmm_free (k_pmm k) - span x 1" by blast
    note xf = free [OF x(1)]
    note e = map_flags [OF conjunct1 [OF xf] fl]
    have fresh: "\<not> is_table (k_mem k) root (entry_frame (x OR fl))" "entry_frame (x OR fl) \<noteq> cur_cr3 k" using xf e(2) by simp_all
    let ?m = "link_table (k_mem k) t i (x OR fl)"
    have R': "reach ?m (cur_cr3 k) r root" by (rule reach_link [OF R t p(1,2) fresh e(1) False])
    have w: "walk ?m root q = (if q = p @ [i] then Some x else walk (k_mem k) root q)" if "mappable q" "length q \<le> 4" for q
      using link_table_walks [OF tree t p(1,2) fresh(1) e(1) False that] e(2) by simp
    have "walk ?m root p = Some t" using w [of p] mappable_prefix [OF p(1)] p(2) t by simp
    note acc2 = level_accesses(1) [OF R' this p]
    have "is_table (k_mem k) root t" using t p mappable_prefix [OF p(1)] by (auto simp: is_table_def)
    then have "t \<noteq> x" using xf by auto
    then have te: "?m t i = x OR fl" using e(2) by (simp add: link_table_def)
    have c1: "cur_cr3 k1 = cur_cr3 k" using same_but_mapsD [OF S1] by simp
    let ?k = "k1\<lparr>k_mem := ?m\<rparr>"
    have lev: "map_level pid (tab_ptr r p) i (tab_ptr r (p @ [i])) fl msg k = Inr ?k"
      using False x(2) e by (simp add: map_level_def acc(1) al m1 c1 nonZero_def acc(2) acc(3) acc2 te)
    have ck: "cur_cr3 ?k = cur_cr3 k" using c1 by (simp add: cur_cr3_def)
    have "is_table ?m root u \<longleftrightarrow> is_table (k_mem k) root u \<or> u = x" for u
      using link_table_is_table [OF tree t p(1,2) fresh(1) e(1) False] e(2) by simp
    moreover have "f \<in> pages_of (pmm_free (k_pmm k)) \<and> f \<noteq> x" if "f \<in> pages_of (pmm_free (k_pmm k1))" for f
      using that fr1 pages_of_diff by simp
    ultimately have "map_ok r root ?k"
      unfolding map_ok_def ck using R' p1 pool fr1 free same_but_mapsD(2) [OF S1] by auto
    moreover have "same_but_maps pid k0 ?k"
    proof -
      have "same_but_maps pid k ?k" by (rule same_but_maps_mem [OF S1])
      with S show ?thesis by (rule same_but_maps_trans)
    qed
    moreover have "extends (k_mem k0) ?m root (insert x F)"
      using extends_link [OF E tree t p(1,2) fresh(1) e(1) False] by (simp add: e(2))
    moreover have "keeps_ptes (k_mem k0) ?m root {}"
      using K keeps_link [OF tree t p(1,2) fresh(1) e(1) False] by (simp add: keeps_ptes_def)
    moreover have "x \<in> pages_of (pmm_free (k_pmm k0))"
      using x(1) pages_of_mono [of "pmm_free (k_pmm k)" "pmm_free (k_pmm k0)"] fr by auto
    moreover have "pmm_free (k_pmm ?k) = pmm_free (k_pmm k0) - (\<Union>f\<in>insert x F. span f 1)"
      using fr fr1 by auto
    moreover have "card (insert x F) \<le> length (p @ [i])"
      using F(2,3) card_insert_le_m1 [of "length p + 1" F x] by (cases "x \<in> F") (simp_all add: insert_absorb)
    moreover have "walk ?m root (p @ [i]) \<noteq> None" using w [of "p @ [i]"] p by simp
    ultimately have "map_inv k0 r root pid (p @ [i]) ?k (insert x F)" using F by (simp add: map_inv_def)
    with lev show ?thesis by blast
  qed
qed

lemma map_core_ptrs:
  "map_core r pid virt phys flags overwrite k =
     (let a = indexPML4 virt; b = indexPDPT virt; c = indexPageDir virt; d = indexPageTable virt;
          fl = (if a > 255 then PAGE_WRITE OR PAGE_PRESENT else PAGE_USER OR PAGE_WRITE OR PAGE_PRESENT)
      in if a = 510 \<or> a = 509 then Inl (Abort ''cannot map to PML4T at index 510 or 509!'')
         else if a > 255 \<and> flags AND PAGE_USER \<noteq> 0 then Inl (Abort ''cannot map high address space as user-readable!'')
         else bindE (map_level pid (tab_ptr r []) a (tab_ptr r [a]) fl ''somehow page has a NX pdpt!'' k) (\<lambda>k1.
              bindE (map_level pid (tab_ptr r [a]) b (tab_ptr r [a, b]) fl ''somehow page has a NX pdir!'' k1) (\<lambda>k2.
              bindE (map_level pid (tab_ptr r [a, b]) c (tab_ptr r [a, b, c]) fl ''somehow page has a NX ptab!'' k2) (\<lambda>k3.
              bindE (if overwrite then Inr 0 else tab_read (k_mem k3) (cur_cr3 k3) (tab_ptr r [a, b, c]) d) (\<lambda>e.
              if \<not> overwrite \<and> present e then Inl (Abort ''virtual addr was already mapped'')
              else bindE (tab_write (k_mem k3) (cur_cr3 k3) (tab_ptr r [a, b, c]) d (phys OR flags)) (\<lambda>mem.
                     Inr ((), k3\<lparr>k_mem := mem\<rparr>)))))))"
  unfolding map_core_def Let_def tab_ptr_simps by (rule refl)

text \<open>The free frames \<open>F\<close> became tables; pages that are not tables are as before.\<close>

definition tables_from :: "u64 \<Rightarrow> nat \<Rightarrow> kernel \<Rightarrow> kernel \<Rightarrow> u64 set \<Rightarrow> bool" where
  "tables_from root n k k' F \<longleftrightarrow>
     F \<subseteq> pages_of (pmm_free (k_pmm k)) \<and> finite F \<and> card F \<le> n \<and>
     pmm_free (k_pmm k') = pmm_free (k_pmm k) - (\<Union>f\<in>F. span f 1) \<and>
     (\<forall>u. is_table (k_mem k') root u \<longleftrightarrow> is_table (k_mem k) root u \<or> u \<in> F) \<and>
     (\<forall>u. \<not> is_table (k_mem k) root u \<and> u \<notin> F \<longrightarrow> k_mem k' u = k_mem k u)"

text \<open>
  From \<open>k\<close> to \<open>k'\<close> the entries \<open>es\<close> (by the path to them) were written in the tables at \<open>root\<close>, and at
  most \<open>n\<close> free frames became tables. All other entries and translations are as before.
\<close>

definition entries_written :: "u64 \<Rightarrow> nat \<Rightarrow> (u64 list \<rightharpoonup> u64) \<Rightarrow> nat \<Rightarrow> kernel \<Rightarrow> kernel \<Rightarrow> bool" where
  "entries_written root pid es n k k' \<longleftrightarrow>
     same_but_maps pid k k' \<and> (\<forall>q e. es q = Some e \<longrightarrow> pte (k_mem k') root q = Some e) \<and>
     keeps_ptes (k_mem k) (k_mem k') root (dom es) \<and>
     (\<forall>u. mappable (vpath u) \<and> vpath u \<notin> dom es \<longrightarrow> mmu_walk (k_mem k') root u = mmu_walk (k_mem k) root u) \<and>
     (\<exists>F. tables_from root n k k' F)"

lemma entries_written_none: "entries_written root pid Map.empty 0 k k"
  unfolding entries_written_def tables_from_def by (auto simp: keeps_ptes_def)

lemma entries_writtenI:
  assumes "same_but_maps pid k k'" "pte (k_mem k') root q = Some e" "keeps_ptes (k_mem k) (k_mem k') root {q}"
    and "\<And>u. mappable (vpath u) \<Longrightarrow> vpath u \<noteq> q \<Longrightarrow> mmu_walk (k_mem k') root u = mmu_walk (k_mem k) root u"
    and "tables_from root n k k' F"
  shows "entries_written root pid [q \<mapsto> e] n k k'"
  using assms by (auto simp: entries_written_def split: if_splits)

lemma tables_from_trans:
  assumes F: "tables_from root n k k1 F" and G: "tables_from root n' k1 k2 G"
  shows "tables_from root (n + n') k k2 (F \<union> G)"
proof -
  have "pmm_free (k_pmm k1) \<subseteq> pmm_free (k_pmm k)" using F by (auto simp: tables_from_def)
  from pages_of_mono [OF this] have "G \<subseteq> pages_of (pmm_free (k_pmm k))" using G by (auto simp: tables_from_def)
  moreover have "card (F \<union> G) \<le> n + n'" using card_Un_le [of F G] F G by (simp add: tables_from_def)
  moreover have "pmm_free (k_pmm k2) = pmm_free (k_pmm k) - (\<Union>f\<in>F \<union> G. span f 1)" using F G by (auto simp: tables_from_def)
  ultimately show ?thesis using F G by (simp add: tables_from_def)
qed

lemma entries_written_trans:
  assumes 1: "entries_written root pid es n k k1" and 2: "entries_written root pid es' n' k1 k2"
    and p: "\<forall>q\<in>dom es. mappable q \<and> length q = 4"
  shows "entries_written root pid (es ++ es') (n + n') k k2"
proof -
  have 11: "same_but_maps pid k k1" "\<And>q e. es q = Some e \<Longrightarrow> pte (k_mem k1) root q = Some e"
    "keeps_ptes (k_mem k) (k_mem k1) root (dom es)" "\<exists>F. tables_from root n k k1 F"
    "\<And>u. mappable (vpath u) \<Longrightarrow> vpath u \<notin> dom es \<Longrightarrow> mmu_walk (k_mem k1) root u = mmu_walk (k_mem k) root u"
    using 1 by (simp_all add: entries_written_def)
  have 22: "same_but_maps pid k1 k2" "\<And>q e. es' q = Some e \<Longrightarrow> pte (k_mem k2) root q = Some e"
    "keeps_ptes (k_mem k1) (k_mem k2) root (dom es')" "\<exists>F. tables_from root n' k1 k2 F"
    "\<And>u. mappable (vpath u) \<Longrightarrow> vpath u \<notin> dom es' \<Longrightarrow> mmu_walk (k_mem k2) root u = mmu_walk (k_mem k1) root u"
    using 2 by (simp_all add: entries_written_def)
  have "\<exists>F. tables_from root (n + n') k k2 F" using 11(4) 22(4) tables_from_trans by blast
  moreover have "same_but_maps pid k k2" by (rule same_but_maps_trans [OF 11(1) 22(1)])
  moreover have "pte (k_mem k2) root q = Some e" if es: "(es ++ es') q = Some e" for q e
  proof (cases "es' q")
    case None
    with es have "es q = Some e" by (auto simp: map_add_Some_iff)
    moreover have "mappable q" "length q = 4" "q \<notin> dom es'" using p calculation None by auto
    ultimately show ?thesis using 11(2) 22(3) unfolding keeps_ptes_def by blast
  next
    case (Some e')
    with es 22(2) show ?thesis by (auto simp: map_add_Some_iff)
  qed
  moreover have "keeps_ptes (k_mem k) (k_mem k2) root (dom (es ++ es'))"
    using 11(3) 22(3) unfolding keeps_ptes_def dom_map_add by blast
  moreover have "mmu_walk (k_mem k2) root u = mmu_walk (k_mem k) root u" if "mappable (vpath u)" "vpath u \<notin> dom (es ++ es')" for u
    using that 11(5) [of u] 22(5) [of u] by simp
  ultimately show ?thesis unfolding entries_written_def by simp
qed

lemma tab_read_leaf:
  assumes "reach mem cr3 r root" "walk mem root [a, b, c] = Some t" "small_path [a, b, c, d]"
  shows "tab_read mem cr3 (tab_ptr r [a, b, c]) d = Inr (mem t d)"
  using walk_tab_ptr [of mem cr3 r root "[a, b, c]"] assms by (simp add: tab_read_def reach_def)

lemma map_tables_ok:
  assumes ok: "map_ok r root k" and v: "indexPML4 virt \<noteq> 509" "indexPML4 virt \<noteq> 510"
    and room: "3 * 4096 \<le> card (pmm_free (k_pmm k))"
  defines "a \<equiv> indexPML4 virt" and "b \<equiv> indexPDPT virt" and "c \<equiv> indexPageDir virt"
  defines "fl \<equiv> (if a > 255 then PAGE_WRITE OR PAGE_PRESENT else PAGE_USER OR PAGE_WRITE OR PAGE_PRESENT)"
  shows "\<exists>k3 F. map_inv k r root pid [a, b, c] k3 F \<and>
      (\<forall>g :: kernel \<Rightarrow> (unit \<times> kernel) res.
        bindE (map_level pid (tab_ptr r []) a (tab_ptr r [a]) fl m1 k) (\<lambda>k1.
        bindE (map_level pid (tab_ptr r [a]) b (tab_ptr r [a, b]) fl m2 k1) (\<lambda>k2.
        bindE (map_level pid (tab_ptr r [a, b]) c (tab_ptr r [a, b, c]) fl m3 k2) g)) = g k3)"
proof -
  have p: "mappable [a]" "mappable [a, b]" "mappable [a, b, c]" "small_path [a, b, c]"
    using v by (simp_all add: mappable_def a_def b_def c_def index_lt)
  have fl: "fl = PAGE_USER OR PAGE_WRITE OR PAGE_PRESENT \<or> fl = PAGE_WRITE OR PAGE_PRESENT" by (simp add: fl_def)
  from map_level_ok [OF map_inv_start [OF ok] _ _ _ fl room, of a pid m1] p obtain k1 F1 where
    1: "map_level pid (tab_ptr r []) a (tab_ptr r [a]) fl m1 k = Inr k1" "map_inv k r root pid [a] k1 F1" by auto
  from map_level_ok [OF 1(2) _ _ _ fl room, of b m2] p obtain k2 F2 where
    2: "map_level pid (tab_ptr r [a]) b (tab_ptr r [a, b]) fl m2 k1 = Inr k2" "map_inv k r root pid [a, b] k2 F2" by auto
  from map_level_ok [OF 2(2) _ _ _ fl room, of c m3] p obtain k3 F3 where
    3: "map_level pid (tab_ptr r [a, b]) c (tab_ptr r [a, b, c]) fl m3 k2 = Inr k3" "map_inv k r root pid [a, b, c] k3 F3" by auto
  from 1(1) 2(1) 3 show ?thesis by auto
qed

text \<open>Mapping a page that is not mapped, or overwriting its entry.\<close>

lemma map_core_ok:
  assumes ok: "map_ok r root k" and v: "indexPML4 virt \<noteq> 509" "indexPML4 virt \<noteq> 510"
    and room: "3 * 4096 \<le> card (pmm_free (k_pmm k))"
    and user: "indexPML4 virt > 255 \<Longrightarrow> flags AND PAGE_USER = 0"
    and unmapped: "overwrite \<or> mmu_walk (k_mem k) root virt = None"
  shows "\<exists>k'. map_core r pid virt phys flags overwrite k = Inr ((), k') \<and> map_ok r root k' \<and>
    entries_written root pid [vpath virt \<mapsto> phys OR flags] 3 k k'"
proof -
  let ?a = "indexPML4 virt" and ?b = "indexPDPT virt" and ?c = "indexPageDir virt" and ?d = "indexPageTable virt"
  let ?e = "phys OR flags"
  from map_tables_ok [OF ok v room, of pid "''somehow page has a NX pdpt!''" "''somehow page has a NX pdir!''" "''somehow page has a NX ptab!''"]
  obtain k3 F where inv: "map_inv k r root pid [?a, ?b, ?c] k3 F"
    and run: "\<And>g :: kernel \<Rightarrow> (unit \<times> kernel) res.
        bindE (map_level pid (tab_ptr r []) ?a (tab_ptr r [?a]) (if ?a > 255 then PAGE_WRITE OR PAGE_PRESENT else PAGE_USER OR PAGE_WRITE OR PAGE_PRESENT) ''somehow page has a NX pdpt!'' k) (\<lambda>k1.
        bindE (map_level pid (tab_ptr r [?a]) ?b (tab_ptr r [?a, ?b]) (if ?a > 255 then PAGE_WRITE OR PAGE_PRESENT else PAGE_USER OR PAGE_WRITE OR PAGE_PRESENT) ''somehow page has a NX pdir!'' k1) (\<lambda>k2.
        bindE (map_level pid (tab_ptr r [?a, ?b]) ?c (tab_ptr r [?a, ?b, ?c]) (if ?a > 255 then PAGE_WRITE OR PAGE_PRESENT else PAGE_USER OR PAGE_WRITE OR PAGE_PRESENT) ''somehow page has a NX ptab!'' k2) g)) = g k3"
    by blast
  from inv obtain t where t: "walk (k_mem k3) root [?a, ?b, ?c] = Some t" and ok3: "map_ok r root k3"
    and S: "same_but_maps pid k k3" and E: "extends (k_mem k) (k_mem k3) root F" and K: "keeps_ptes (k_mem k) (k_mem k3) root {}"
    and F: "F \<subseteq> pages_of (pmm_free (k_pmm k))" "finite F" "card F \<le> 3"
    and fr: "pmm_free (k_pmm k3) = pmm_free (k_pmm k) - (\<Union>f\<in>F. span f 1)"
    by (auto simp: map_inv_def)
  have R: "reach (k_mem k3) (cur_cr3 k3) r root" using ok3 by (simp add: map_ok_def)
  have p: "mappable [?a, ?b, ?c, ?d]" "small_path [?a, ?b, ?c, ?d]" using v by (simp_all add: mappable_def index_lt)
  have vp: "vpath virt = [?a, ?b, ?c, ?d]" by (simp add: vpath_def)
  note leaf = map_leaf [where e = ?e, OF R t p E]
  let ?m = "(k_mem k3)(t := (k_mem k3 t)(?d := ?e))"
  have np: "\<not> (\<not> overwrite \<and> present (k_mem k3 t ?d))"
  proof
    assume n: "\<not> overwrite \<and> present (k_mem k3 t ?d)"
    then have "walk (k_mem k3) root [?a, ?b, ?c, ?d] \<noteq> None" using t walk_append [of "k_mem k3" root "[?a, ?b, ?c]" "[?d]"] by (simp add: mmu_step_def)
    moreover have "walk (k_mem k3) root q = walk (k_mem k) root q" if "mappable q" "length q = 4" for q
      using E that unfolding extends_def by blast
    ultimately have "walk (k_mem k) root (vpath virt) \<noteq> None" unfolding vp using p(1) by (metis length_vpath vp)
    with n unmapped show False by (simp add: mmu_walk_path)
  qed
  have ab: "?a \<noteq> 510" "?a \<noteq> 509" "\<not> (?a > 255 \<and> flags AND PAGE_USER \<noteq> 0)" using v user by auto
  have core: "map_core r pid virt phys flags overwrite k = Inr ((), k3\<lparr>k_mem := ?m\<rparr>)"
    unfolding map_core_ptrs Let_def using ab np
    by (simp only: run if_False simp_thms) (auto simp: tab_read_leaf [OF R t p(2)] map_entry(1) [OF R t p])
  have ck: "cur_cr3 (k3\<lparr>k_mem := ?m\<rparr>) = cur_cr3 k3" by (simp add: cur_cr3_def)
  have tabs: "is_table ?m root u \<longleftrightarrow> is_table (k_mem k3) root u" for u by (rule map_entry_tables(1) [OF R t p])
  have "map_ok r root (k3\<lparr>k_mem := ?m\<rparr>)" using ok3 leaf(5) unfolding map_ok_def ck by (simp add: tabs)
  moreover have "same_but_maps pid k (k3\<lparr>k_mem := ?m\<rparr>)" by (rule same_but_maps_mem [OF S])
  moreover have "pte ?m root (vpath virt) = Some ?e"
  proof -
    have "walk ?m root [?a, ?b, ?c] = Some t"
      unfolding t [symmetric] by (rule map_entry(3) [OF R t p]) (use v in \<open>simp_all add: mappable_def\<close>)
    then show ?thesis unfolding pte_def vp by (simp del: walk.simps)
  qed
  moreover have "keeps_ptes (k_mem k) ?m root {vpath virt}"
    using K keeps_entry [where e = ?e, OF R t p] by (auto simp: keeps_ptes_def vp)
  moreover have "mmu_walk ?m root u = mmu_walk (k_mem k) root u" if "mappable (vpath u)" "vpath u \<noteq> vpath virt" for u
    using leaf(2) [of "vpath u"] that by (simp add: mmu_walk_path vp)
  moreover have "tables_from root 3 k (k3\<lparr>k_mem := ?m\<rparr>) F"
    using F fr leaf(3,4) by (simp add: tables_from_def del: fun_upd_apply)
  ultimately have "entries_written root pid [vpath virt \<mapsto> ?e] 3 k (k3\<lparr>k_mem := ?m\<rparr>)"
    by (intro entries_writtenI [where F = F]) (simp_all del: fun_upd_apply)
  with core \<open>map_ok r root (k3\<lparr>k_mem := ?m\<rparr>)\<close> show ?thesis by blast
qed

section \<open>Ranges of pages\<close>

lemma vpath_eq_iff: "vpath u = vpath v \<longleftrightarrow> unat u div 4096 mod 2 ^ 36 = unat v div 4096 mod 2 ^ 36"
proof -
  have d: "x div 4096 mod 2 ^ 36 = (((x div 2 ^ 39 mod 512) * 512 + x div 2 ^ 30 mod 512) * 512 + x div 2 ^ 21 mod 512) * 512 + x div 2 ^ 12 mod 512"
    for x :: nat
  proof -
    have s: "a mod (512 * m) = (a div 512 mod m) * 512 + a mod 512" for a m :: nat
      by (metis mult.commute mod_mult2_eq add.commute)
    have e: "x div 2 ^ 12 div 512 = x div 2 ^ 21" "x div 2 ^ 21 div 512 = x div 2 ^ 30" "x div 2 ^ 30 div 512 = x div 2 ^ 39"
      by (simp_all add: div_mult2_eq [symmetric])
    have "x div 2 ^ 12 mod (512 * (512 * (512 * 512))) = (x div 2 ^ 21 mod (512 * (512 * 512))) * 512 + x div 2 ^ 12 mod 512"
      unfolding s [of "x div 2 ^ 12"] e by (rule refl)
    moreover have "x div 2 ^ 21 mod (512 * (512 * 512)) = (x div 2 ^ 30 mod (512 * 512)) * 512 + x div 2 ^ 21 mod 512"
      unfolding s [of "x div 2 ^ 21"] e by (rule refl)
    moreover have "x div 2 ^ 30 mod (512 * 512) = (x div 2 ^ 39 mod 512) * 512 + x div 2 ^ 30 mod 512"
      unfolding s [of "x div 2 ^ 30"] e by (rule refl)
    ultimately show ?thesis by simp
  qed
  have inj: "a * 512 + b = a' * 512 + b' \<longleftrightarrow> a = a' \<and> b = b'" if "b < 512" "b' < 512" for a b a' b' :: nat
    using that by (metis add.commute div_mult_self3 mod_mult_self3 div_less mod_less add_0 numeral_neq_zero)
  have "vpath u = vpath v \<longleftrightarrow> map unat (vpath u) = map unat (vpath v)"
    by (simp add: vpath_def u64_eq_unat)
  also have "\<dots> \<longleftrightarrow> unat u div 4096 mod 2 ^ 36 = unat v div 4096 mod 2 ^ 36"
    unfolding d [of "unat u"] d [of "unat v"] by (simp only: vpath_def list.map unat_indices inj mod_less_divisor) (auto simp: inj)
  finally show ?thesis .
qed

lemma add_mod_cancel:
  assumes "(a + x) mod n = (a + y) mod n" "x < n" "y < n"
  shows "x = (y::nat)"
proof -
  have le: "x = y" if "(a + x) mod n = (a + y) mod n" "x \<le> y" "y < n" for x y
  proof -
    have "n dvd (a + y) - (a + x)" using that mod_eq_dvd_iff_nat [of "a + x" "a + y" n] by simp
    then have "n dvd y - x" by simp
    with that show ?thesis by (cases "y - x = 0") (auto dest: dvd_imp_le)
  qed
  show ?thesis using le [of x y] le [of y x] assms by (cases "x \<le> y") simp_all
qed

lemma vpath_page_inj:
  assumes "block_ok virt num" "unat num \<le> 2 ^ 36" "i < unat num" "j < unat num"
    and "vpath (virt + ofsPages (of_nat i)) = vpath (virt + ofsPages (of_nat j))"
  shows "i = j"
proof -
  have f: "fits virt num" using assms(1) by (simp add: block_ok_def)
  have u: "unat (virt + ofsPages (of_nat n)) div 4096 = unat virt div 4096 + n" if "n < unat num" for n
    using unat_page [OF f that] by (simp add: ofsPages_def)
  have "(unat virt div 4096 + i) mod 2 ^ 36 = (unat virt div 4096 + j) mod 2 ^ 36"
    using assms(5) unfolding vpath_eq_iff u [OF assms(3)] u [OF assms(4)] .
  moreover have "i < 2 ^ 36" "j < 2 ^ 36" using assms(2-4) by simp_all
  ultimately show ?thesis by (rule add_mod_cancel)
qed

section \<open>Mapping and looking up pages of the current process\<close>

lemma map_internal_cur:
  "isPageAligned virt \<Longrightarrow> isPageAligned phys \<Longrightarrow>
   map_internal virt phys flags (k_cur k) overwrite k = map_core 510 (k_cur k) virt phys flags overwrite k"
  by (simp add: map_internal_def with_tables_def)

abbreviation "page_path virt i \<equiv> vpath (virt + ofsPages (of_nat i))"

primrec range_entries :: "u64 \<Rightarrow> (u64 \<Rightarrow> u64) \<Rightarrow> nat \<Rightarrow> (u64 list \<rightharpoonup> u64)" where
  "range_entries virt f 0 = Map.empty"
| "range_entries virt f (Suc n) = (range_entries virt f n)(page_path virt n \<mapsto> f (of_nat n))"

lemma dom_range_entries: "dom (range_entries virt f n) = page_path virt ` {..<n}"
  by (induction n) (simp_all add: lessThan_Suc del: fun_upd_apply)

lemma range_entries_page:
  "i < n \<Longrightarrow> (\<And>j. j < n \<Longrightarrow> page_path virt i = page_path virt j \<Longrightarrow> i = j) \<Longrightarrow> range_entries virt f n (page_path virt i) = Some (f (of_nat i))"
  by (induction n) (auto simp: less_Suc_eq)

lemma foldE_snoc: "foldE f (xs @ [x]) s = bindE (foldE f xs s) (f x)"
proof -
  have "foldE f [x] t = f x t" for t by (cases "f x t") simp_all
  then have "foldE f [x] = f x" by (rule ext)
  then show ?thesis unfolding foldE_append by (rule arg_cong)
qed

lemma entries_written_bytes:
  assumes "entries_written root pid es n k k'" "pool_ok (k_pmm k)"
  shows "card (pmm_free (k_pmm k)) \<le> card (pmm_free (k_pmm k')) + n * 4096"
proof -
  from assms(1) obtain F where F: "finite F" "card F \<le> n" "pmm_free (k_pmm k') = pmm_free (k_pmm k) - (\<Union>f\<in>F. span f 1)"
    unfolding entries_written_def tables_from_def by blast
  have "card (pmm_free (k_pmm k)) - card (\<Union>f\<in>F. span f 1) \<le> card (pmm_free (k_pmm k'))"
    unfolding F(3) by (rule diff_card_le_card_Diff) (use F(1) in \<open>auto simp: span_one\<close>)
  moreover have "card (\<Union>f\<in>F. span f 1) \<le> n * 4096" using card_pages [OF F(1)] F(2) by (meson le_trans mult_le_mono1)
  ultimately show ?thesis by simp
qed

text \<open>The loop over a range of pages of the current process.\<close>

lemma map_pages_ok:
  fixes flags :: u64
  assumes ok: "map_ok 510 (cur_cr3 k) k" and blk: "block_ok virt num" "unat num \<le> 2 ^ 36"
    and v: "\<And>i. i < unat num \<Longrightarrow> mappable (page_path virt i)"
    and user: "\<And>i. i < unat num \<Longrightarrow> indexPML4 (virt + ofsPages (of_nat i)) > 255 \<Longrightarrow> flags AND PAGE_USER = 0"
    and al: "\<And>i. isPageAligned (frame (of_nat i))"
    and unmapped: "\<And>i. i < unat num \<Longrightarrow> overwrite \<or> mmu_walk (k_mem k) (cur_cr3 k) (virt + ofsPages (of_nat i)) = None"
    and room: "3 * unat num * 4096 \<le> card (pmm_free (k_pmm k))"
  shows "\<exists>k'. map_pages virt frame num flags (k_cur k) overwrite k = Inr k' \<and> map_ok 510 (cur_cr3 k) k' \<and>
    entries_written (cur_cr3 k) (k_cur k) (range_entries virt (\<lambda>i. frame i OR flags) (unat num)) (3 * unat num) k k'"
proof -
  let ?f = "\<lambda>i s. bindE (map_internal (virt + ofsPages (of_nat i)) (frame (of_nat i)) flags (k_cur k) overwrite s) (\<lambda>(_, k'). Inr k')"
  let ?root = "cur_cr3 k" and ?es = "range_entries virt (\<lambda>i. frame i OR flags)"
  have "n \<le> unat num \<Longrightarrow> \<exists>k'. foldE ?f [0..<n] k = Inr k' \<and> map_ok 510 ?root k' \<and> entries_written ?root (k_cur k) (?es n) (3 * n) k k'" for n
  proof (induction n)
    case 0
    then show ?case using ok entries_written_none by simp
  next
    case (Suc n)
    then obtain k1 where k1: "foldE ?f [0..<n] k = Inr k1" "map_ok 510 ?root k1" "entries_written ?root (k_cur k) (?es n) (3 * n) k k1" by auto
    have n: "n < unat num" using Suc.prems by simp
    have S: "same_but_maps (k_cur k) k k1" using k1(3) by (simp add: entries_written_def)
    note same = same_but_mapsD [OF S]
    let ?v = "virt + ofsPages (of_nat n)"
    have vi: "indexPML4 ?v \<noteq> 509" "indexPML4 ?v \<noteq> 510" using v [OF n] by (simp_all add: mappable_vpath)
    have notin: "vpath ?v \<notin> dom (?es n)"
    proof
      assume "vpath ?v \<in> dom (?es n)"
      then obtain j where j: "j < n" "page_path virt n = page_path virt j" unfolding dom_range_entries by blast
      then have "j < unat num" using n by simp
      from vpath_page_inj [OF blk n this j(2)] j(1) show False by simp
    qed
    have un: "overwrite \<or> mmu_walk (k_mem k1) ?root ?v = None"
      using unmapped [OF n] k1(3) v [OF n] notin unfolding entries_written_def by auto
    have "pool_ok (k_pmm k)" using ok by (simp add: map_ok_def)
    from entries_written_bytes [OF k1(3) this] room n have room1: "3 * 4096 \<le> card (pmm_free (k_pmm k1))" by simp
    from map_core_ok [OF k1(2) vi room1 user [OF n] un] obtain k2 where
      k2: "map_core 510 (k_cur k) ?v (frame (of_nat n)) flags overwrite k1 = Inr ((), k2)" "map_ok 510 ?root k2"
        "entries_written ?root (k_cur k) [vpath ?v \<mapsto> frame (of_nat n) OR flags] 3 k1 k2" by blast
    have "isPageAligned ?v" using blk(1) by (simp add: block_ok_def)
    then have "?f n k1 = Inr k2" using map_internal_cur [of ?v "frame (of_nat n)" flags k1] al same(3) k2(1) by simp
    then have "foldE ?f [0..<Suc n] k = Inr k2" using k1(1) by (simp add: foldE_snoc)
    moreover have "entries_written ?root (k_cur k) (?es n ++ [vpath ?v \<mapsto> frame (of_nat n) OR flags]) (3 * n + 3) k k2"
      by (rule entries_written_trans [OF k1(3) k2(3)]) (use v n in \<open>auto simp: dom_range_entries\<close>)
    ultimately show ?case using k2(2) by (simp add: add.commute del: fun_upd_apply)
  qed
  from this [of "unat num"] show ?thesis by (simp add: map_pages_def)
qed

definition missing_level :: "physmem \<Rightarrow> u64 \<Rightarrow> u64 list \<Rightarrow> nat" where
  "missing_level mem root q =
     (if walk mem root (take 1 q) = None then 4 else if walk mem root (take 2 q) = None then 3 else 2)"

lemma find_entry_ptrs:
  "find_entry r v k =
     (let a = indexPML4 v; b = indexPDPT v; c = indexPageDir v; d = indexPageTable v;
          rd = tab_read (k_mem k) (cur_cr3 k)
      in bindE (rd (tab_ptr r []) a) (\<lambda>e4. if \<not> present e4 then Inr (Inl 4)
         else bindE (rd (tab_ptr r [a]) b) (\<lambda>e3. if \<not> present e3 then Inr (Inl 3)
         else bindE (rd (tab_ptr r [a, b]) c) (\<lambda>e2. if \<not> present e2 then Inr (Inl 2)
         else bindE (rd (tab_ptr r [a, b, c]) d) (\<lambda>e1. Inr (Inr e1))))))"
  unfolding find_entry_def Let_def tab_ptr_simps by (rule refl)

lemma walk_step:
  "walk mem root p = Some t \<Longrightarrow> walk mem root (p @ [i]) = (if present (mem t i) then Some (entry_frame (mem t i)) else None)"
  by (simp add: walk_append mmu_step_def)

text \<open>The walk finds the last-level entry, or the level at which it is missing.\<close>

lemma find_entry_ok:
  assumes R: "reach (k_mem k) (cur_cr3 k) r root" and v: "mappable (vpath v)"
  shows "find_entry r v k = Inr (case pte (k_mem k) root (vpath v) of Some e \<Rightarrow> Inr e | None \<Rightarrow> Inl (missing_level (k_mem k) root (vpath v)))"
proof -
  let ?a = "indexPML4 v" and ?b = "indexPDPT v" and ?c = "indexPageDir v" and ?d = "indexPageTable v" and ?m = "k_mem k"
  have vp: "vpath v = [?a, ?b, ?c, ?d]" by (simp add: vpath_def)
  have p: "mappable [?a]" "mappable [?a, ?b]" "mappable [?a, ?b, ?c]" "small_path [?a, ?b, ?c, ?d]"
    using v by (simp_all add: mappable_def vpath_def index_lt)
  have w0: "walk ?m root [] = Some root" by simp
  note r4 = level_accesses(1) [OF R w0, of ?a] and s4 = walk_step [OF w0, of ?a]
  have l: "take (Suc 0) (vpath v) = [?a]" "take 2 (vpath v) = [?a, ?b]" "butlast (vpath v) = [?a, ?b, ?c]" "last (vpath v) = ?d"
    by (simp_all add: vp)
  have none: "walk ?m root (p @ q) = None" if "walk ?m root p = None" for p q using that by (simp add: walk_append)
  have pt: "pte ?m root (vpath v) = Option.bind (walk ?m root [?a, ?b, ?c]) (\<lambda>t. Some (?m t ?d))" by (simp add: pte_def l del: walk.simps)
  show ?thesis
  proof (cases "walk ?m root [?a]")
    case None
    then have "\<not> present (?m root ?a)" using s4 by (simp del: walk.simps split: if_splits)
    moreover have "walk ?m root [?a, ?b, ?c] = None" using none [OF None, of "[?b, ?c]"] by (simp del: walk.simps)
    ultimately show ?thesis
      using r4 p None unfolding find_entry_ptrs Let_def pt by (simp add: missing_level_def l del: walk.simps)
  next
    case (Some t3)
    then have 4: "present (?m root ?a)" using s4 by (simp del: walk.simps split: if_splits)
    note r3 = level_accesses(1) [OF R Some, of ?b] and s3 = walk_step [OF Some, of ?b]
    show ?thesis
    proof (cases "walk ?m root [?a, ?b]")
      case None
      then have "\<not> present (?m t3 ?b)" using s3 by (simp del: walk.simps split: if_splits)
      moreover have "walk ?m root [?a, ?b, ?c] = None" using none [OF None, of "[?c]"] by (simp del: walk.simps)
      ultimately show ?thesis
        using r4 r3 4 p None Some unfolding find_entry_ptrs Let_def pt by (simp add: missing_level_def l del: walk.simps)
    next
      case (Some t2)
      then have 3: "present (?m t3 ?b)" using s3 by (simp del: walk.simps split: if_splits)
      note r2 = level_accesses(1) [OF R Some, of ?c] and s2 = walk_step [OF Some, of ?c]
      show ?thesis
      proof (cases "walk ?m root [?a, ?b, ?c]")
        case None
        then have "\<not> present (?m t2 ?c)" using s2 by (simp del: walk.simps split: if_splits)
        then show ?thesis
          using r4 r3 r2 4 3 p None Some \<open>walk ?m root [?a] = Some t3\<close>
          unfolding find_entry_ptrs Let_def pt by (simp add: missing_level_def l del: walk.simps)
      next
        case (Some t1)
        then have "present (?m t2 ?c)" using s2 by (simp del: walk.simps split: if_splits)
        then show ?thesis
          using r4 r3 r2 4 3 p Some tab_read_leaf [OF R Some p(4)] \<open>walk ?m root [?a] = Some t3\<close>
          unfolding find_entry_ptrs Let_def pt by (simp del: walk.simps)
      qed
    qed
  qed
qed

lemma getPhysAddr_ok:
  assumes "map_ok 510 (cur_cr3 k) k" "mappable (vpath v)" "isPageAligned v"
  shows "getPhysAddr v (k_cur k) k =
    (case pte (k_mem k) (cur_cr3 k) (vpath v) of
       None \<Rightarrow> Inl (not_mapped ''getPhys'' (missing_level (k_mem k) (cur_cr3 k) (vpath v)))
     | Some e \<Rightarrow> if present e then Inr (PAGE_ALIGN e, k) else Inl (not_mapped ''getPhys'' 1))"
  using find_entry_ok [of k 510 "cur_cr3 k" v] assms
  by (simp add: getPhysAddr_def with_tables_def map_ok_def split: option.splits)

lemma all_mapped_ok:
  assumes "map_ok 510 (cur_cr3 k) k" "\<forall>v\<in>set vs. mappable (vpath v)"
  shows "all_mapped 510 vs k = Inr (\<forall>v\<in>set vs. mmu_walk (k_mem k) (cur_cr3 k) v \<noteq> None)"
  using assms(2)
proof (induction vs)
  case (Cons v vs)
  then show ?case
    using find_entry_ok [of k 510 "cur_cr3 k" v] assms(1) walk_pte [of "vpath v" "k_mem k" "cur_cr3 k"]
    by (simp add: map_ok_def mmu_walk_path split: option.splits)
qed simp

lemma isMapped_ok:
  assumes "map_ok 510 (cur_cr3 k) k" "\<forall>v\<in>set (page_seq virt num). mappable (vpath v)" "isPageAligned virt"
  shows "isMapped virt num (k_cur k) k = Inr (\<forall>v\<in>set (page_seq virt num). mmu_walk (k_mem k) (cur_cr3 k) v \<noteq> None, k)"
  using all_mapped_ok [OF assms(1,2)] assms(3) by (simp add: isMapped_def with_tables_def)

text \<open>The frame an entry made of an aligned frame and flags gives back.\<close>

lemma PAGE_ALIGN_entry:
  assumes "phys_ok p" "flags AND NOT (PAGE_NX OR 0xFFF) = 0"
  shows "PAGE_ALIGN (p OR flags) = p" "entry_frame (p OR flags) = p"
proof -
  have p: "p AND 0x000FFFFFFFFFF000 = p" using assms(1) by (simp add: phys_ok_def entry_frame_def)
  have f: "flags = flags AND (PAGE_NX OR 0xFFF)"
    using assms(2) by (metis (no_types, lifting) bit.conj_cancel_right bit.conj_disj_distrib bit.conj_one_right bit.disj_cancel_right or.right_neutral)
  have z: "flags AND m = 0" if "(PAGE_NX OR 0xFFF) AND m = 0" for m
    using that by (subst f) (simp add: and.assoc)
  have q: "p AND m = p" if "0x000FFFFFFFFFF000 AND m = (0x000FFFFFFFFFF000 :: u64)" for m
  proof -
    have "p AND m = (p AND 0x000FFFFFFFFFF000) AND m" unfolding p by (rule refl)
    also have "\<dots> = p" unfolding and.assoc that by (rule p)
    finally show ?thesis .
  qed
  have q0: "p AND m = 0" if "0x000FFFFFFFFFF000 AND m = (0 :: u64)" for m
    by (subst p [symmetric], simp only: and.assoc that bit.conj_zero_right)
  have "(p OR flags) AND 0x4000000000000000 = 0"
    using q0 [of "0x4000000000000000"] z [of "0x4000000000000000"] by (simp add: bit.conj_disj_distrib2 PAGE_NX_def)
  moreover have "(p OR flags) AND 0x7FFFFFFFFFFFF000 = p"
    using q [of "0x7FFFFFFFFFFFF000"] z [of "0x7FFFFFFFFFFFF000"] by (simp add: bit.conj_disj_distrib2 PAGE_NX_def)
  ultimately show "PAGE_ALIGN (p OR flags) = p" by (simp add: PAGE_ALIGN_def)
  show "entry_frame (p OR flags) = p"
    by (rule entry_frame_or [OF assms(1)]) (use z [of "0x000FFFFFFFFFF000"] in \<open>simp add: entry_frame_def PAGE_NX_def\<close>)
qed

lemma pte_Some_iff: "pte mem root (vpath v) = Some e \<longleftrightarrow>
    (\<exists>t. walk mem root [indexPML4 v, indexPDPT v, indexPageDir v] = Some t \<and> mem t (indexPageTable v) = e)"
  by (auto simp: pte_def vpath_def bind_eq_Some_conv simp del: walk.simps)

text \<open>Writing the last-level entry of a page whose tables are there.\<close>

lemma write_entry_ok:
  assumes ok: "map_ok r root k" and v: "mappable (vpath v)" and e0: "pte (k_mem k) root (vpath v) = Some e0"
  shows "\<exists>mem'. tab_write (k_mem k) (cur_cr3 k) (getPTab r (indexPML4 v) (indexPDPT v) (indexPageDir v)) (indexPageTable v) e = Inr mem' \<and>
    map_ok r root (k\<lparr>k_mem := mem'\<rparr>) \<and> entries_written root pid [vpath v \<mapsto> e] 0 k (k\<lparr>k_mem := mem'\<rparr>)"
proof -
  let ?a = "indexPML4 v" and ?b = "indexPDPT v" and ?c = "indexPageDir v" and ?d = "indexPageTable v"
  obtain t where t: "walk (k_mem k) root [?a, ?b, ?c] = Some t" using e0 unfolding pte_Some_iff by blast
  have R: "reach (k_mem k) (cur_cr3 k) r root" using ok by (simp add: map_ok_def)
  have vp: "vpath v = [?a, ?b, ?c, ?d]" by (simp add: vpath_def)
  have p: "mappable [?a, ?b, ?c, ?d]" "small_path [?a, ?b, ?c, ?d]" using v by (simp_all add: vp index_lt)
  let ?m = "(k_mem k)(t := (k_mem k t)(?d := e))"
  let ?k = "k\<lparr>k_mem := ?m\<rparr>"
  have w: "tab_write (k_mem k) (cur_cr3 k) (getPTab r ?a ?b ?c) ?d e = Inr ?m"
    using map_entry(1) [OF R t p] unfolding tab_ptr_simps .
  have tabs: "is_table ?m root u \<longleftrightarrow> is_table (k_mem k) root u" for u by (rule map_entry_tables(1) [OF R t p])
  have ck: "cur_cr3 ?k = cur_cr3 k" by (simp add: cur_cr3_def)
  have R': "reach ?m (cur_cr3 k) r root" by (rule map_entry_tables(2) [OF R t p])
  have "map_ok r root ?k" unfolding map_ok_def ck using ok R' by (simp add: map_ok_def tabs)
  moreover have "entries_written root pid [vpath v \<mapsto> e] 0 k ?k"
  proof (rule entries_writtenI [where F = "{}"])
    show "same_but_maps pid k ?k" by (rule same_but_maps_mem) simp
    have "walk ?m root [?a, ?b, ?c] = Some t"
      unfolding t [symmetric] by (rule map_entry(3) [OF R t p]) (use v in \<open>simp_all add: mappable_def vp\<close>)
    then show "pte (k_mem ?k) root (vpath v) = Some e" unfolding pte_Some_iff by (simp del: walk.simps)
    show "keeps_ptes (k_mem k) (k_mem ?k) root {vpath v}" using keeps_entry [where e = e, OF R t p] by (simp add: vp)
    show "mmu_walk (k_mem ?k) root u = mmu_walk (k_mem k) root u" if "mappable (vpath u)" "vpath u \<noteq> vpath v" for u
      using map_entry(3) [OF R t p that(1), where e = e] that by (simp add: mmu_walk_path vp)
    have "is_table (k_mem k) root t"
      using t p(1) by (auto simp: is_table_def mappable_def intro!: exI [of _ "[?a, ?b, ?c]"])
    then show "tables_from root 0 k ?k {}" by (auto simp: tables_from_def tabs)
  qed
  ultimately show ?thesis using w by blast
qed

lemma unmap_page_ok:
  assumes ok: "map_ok r root k" and v: "mappable (vpath v)" and e: "pte (k_mem k) root (vpath v) = Some e" "present e"
  shows "\<exists>k'. unmap_page r ignore v k = Inr k' \<and> map_ok r root k' \<and> entries_written root pid [vpath v \<mapsto> 0] 0 k k'"
proof -
  have R: "reach (k_mem k) (cur_cr3 k) r root" using ok by (simp add: map_ok_def)
  have "indexPML4 v \<noteq> 510" using v by (simp add: mappable_vpath)
  with write_entry_ok [OF ok v e(1), of 0 pid] find_entry_ok [OF R v] e show ?thesis
    unfolding unmap_page_def Let_def by auto
qed

text \<open>The loop of \<^verbatim>\<open>unmapAddress\<close> over pages that are all mapped.\<close>

lemma unmap_pages_ok:
  assumes ok: "map_ok r root k" and vs: "\<forall>v\<in>set vs. mappable (vpath v)" "distinct (map vpath vs)"
    and e: "\<forall>v\<in>set vs. \<exists>e. pte (k_mem k) root (vpath v) = Some e \<and> present e"
  shows "\<exists>k'. foldE (unmap_page r ignore) vs k = Inr k' \<and> map_ok r root k' \<and>
    entries_written root pid (\<lambda>q. if q \<in> vpath ` set vs then Some 0 else None) 0 k k'"
  using assms
proof (induction vs arbitrary: k)
  case Nil
  have "(\<lambda>q. if q \<in> vpath ` set [] then Some (0::u64) else None) = Map.empty" by auto
  then show ?case using Nil.prems(1) entries_written_none by (simp only: foldE.simps) auto
next
  case (Cons v vs)
  obtain e where e: "pte (k_mem k) root (vpath v) = Some e" "present e" using Cons.prems(4) by auto
  from unmap_page_ok [OF Cons.prems(1) _ e, of ignore pid] Cons.prems(2) obtain k1 where
    k1: "unmap_page r ignore v k = Inr k1" "map_ok r root k1" "entries_written root pid [vpath v \<mapsto> 0] 0 k k1" by auto
  have "\<exists>e. pte (k_mem k1) root (vpath u) = Some e \<and> present e" if u: "u \<in> set vs" for u
  proof -
    obtain y where y: "pte (k_mem k) root (vpath u) = Some y" "present y" using Cons.prems(4) u by auto
    have "vpath u \<noteq> vpath v"
    proof
      assume "vpath u = vpath v"
      then have "vpath v \<in> vpath ` set vs" using u by (metis imageI)
      with Cons.prems(3) show False by simp
    qed
    moreover have "mappable (vpath u)" using Cons.prems(2) u by simp
    ultimately have "pte (k_mem k1) root (vpath u) = Some y"
      using k1(3) y(1) unfolding entries_written_def keeps_ptes_def by simp
    with y(2) show ?thesis by blast
  qed
  with Cons.IH [OF k1(2)] Cons.prems obtain k2 where
    k2: "foldE (unmap_page r ignore) vs k1 = Inr k2" "map_ok r root k2"
      "entries_written root pid (\<lambda>q. if q \<in> vpath ` set vs then Some 0 else None) 0 k1 k2" by auto
  have "entries_written root pid ([vpath v \<mapsto> 0] ++ (\<lambda>q. if q \<in> vpath ` set vs then Some 0 else None)) (0 + 0) k k2"
    by (rule entries_written_trans [OF k1(3) k2(3)]) (use Cons.prems(2) in simp)
  moreover have "[vpath v \<mapsto> 0] ++ (\<lambda>q. if q \<in> vpath ` set vs then Some 0 else None) =
      (\<lambda>q. if q \<in> vpath ` set (v # vs) then Some (0::u64) else None)"
    by (auto simp: fun_eq_iff map_add_def)
  ultimately show ?case using k1(1) k2(1,2) by auto
qed

lemma unmapAddress_ok:
  assumes ok: "map_ok 510 (cur_cr3 k) k" and al: "isPageAligned virt"
    and vs: "\<forall>v\<in>set (page_seq virt num). mappable (vpath v)" "distinct (map vpath (page_seq virt num))"
    and e: "\<forall>v\<in>set (page_seq virt num). \<exists>e. pte (k_mem k) (cur_cr3 k) (vpath v) = Some e \<and> present e"
  shows "\<exists>k'. unmapAddress virt num ignore (k_cur k) k = Inr ((), k') \<and> map_ok 510 (cur_cr3 k) k' \<and>
    entries_written (cur_cr3 k) (k_cur k) (\<lambda>q. if q \<in> vpath ` set (page_seq virt num) then Some 0 else None) 0 k k'"
proof -
  from unmap_pages_ok [OF ok vs e, of ignore "k_cur k"] obtain k' where
    "foldE (unmap_page 510 ignore) (page_seq virt num) k = Inr k'" "map_ok 510 (cur_cr3 k) k'"
    "entries_written (cur_cr3 k) (k_cur k) (\<lambda>q. if q \<in> vpath ` set (page_seq virt num) then Some 0 else None) 0 k k'" by blast
  then show ?thesis using al by (simp add: unmapAddress_def with_tables_def unmap_core_def)
qed

section \<open>Properties\<close>

lemma phys_ok_small: "isPageAligned f \<Longrightarrow> unat f < 2 ^ 52 \<Longrightarrow> phys_ok f"
proof -
  assume a: "isPageAligned f" and l: "unat f < 2 ^ 52"
  have "take_bit 52 f = f" using l by (simp add: word_unat_eq_iff unsigned_take_bit_eq take_bit_nat_eq_self)
  then have "f AND mask 52 = f" by (simp add: take_bit_eq_mask)
  moreover have "(0x000FFFFFFFFFF000 :: u64) = mask 52 AND NOT 0xFFF" by (simp add: mask_eq_exp_minus_1)
  moreover have "f AND NOT 0xFFF = f" using a by (simp add: isPageAligned_def)
  ultimately show ?thesis unfolding phys_ok_def entry_frame_def by (metis and.assoc)
qed

lemma page_seq_paths:
  assumes "block_ok virt num" "unat num \<le> 2 ^ 36"
  shows "distinct (map vpath (page_seq virt num))" "set (page_seq virt num) = (\<lambda>i. virt + ofsPages (of_nat i)) ` {..<unat num}"
proof -
  show "set (page_seq virt num) = (\<lambda>i. virt + ofsPages (of_nat i)) ` {..<unat num}" by (auto simp: page_seq_def)
  have "inj_on (page_path virt) {0..<unat num}" using vpath_page_inj [OF assms] by (auto simp: inj_on_def)
  then have "distinct (map (page_path virt) [0..<unat num])" by (simp add: distinct_map)
  then show "distinct (map vpath (page_seq virt num))" by (simp add: page_seq_def comp_def)
qed

text \<open>What \<^verbatim>\<open>mapAddress\<close> needs of a range of pages of the current process.\<close>

definition range_free :: "u64 \<Rightarrow> u64 \<Rightarrow> u64 \<Rightarrow> kernel \<Rightarrow> bool" where
  "range_free virt num flags k \<longleftrightarrow>
     block_ok virt num \<and> unat num \<le> 2 ^ 36 \<and> 3 * unat num * 4096 \<le> card (pmm_free (k_pmm k)) \<and>
     (\<forall>v\<in>set (page_seq virt num). mappable (vpath v) \<and> mmu_walk (k_mem k) (cur_cr3 k) v = None \<and>
        (indexPML4 v > 255 \<longrightarrow> flags AND PAGE_USER = 0))"

lemma present_flag: "present PAGE_PRESENT"
  by (simp add: present_def PAGE_PRESENT_def)

lemma and_or_zero: "(a OR b) AND m = 0 \<longleftrightarrow> a AND m = 0 \<and> b AND m = (0::u64)"
  by (simp add: bit.conj_disj_distrib2 or_eq_0_iff)

lemma mapAddress_ok:
  assumes ok: "map_ok 510 (cur_cr3 k) k" and rf: "range_free virt num flags k" and al: "isPageAligned phys"
  shows "\<exists>k'. mapAddress virt phys num flags (k_cur k) k = Inr k' \<and> map_ok 510 (cur_cr3 k) k' \<and>
    entries_written (cur_cr3 k) (k_cur k)
      (range_entries virt (\<lambda>i. phys + ofsPages i OR (flags OR PAGE_PRESENT)) (unat num)) (3 * unat num) k k'"
proof -
  have rng: "virt + ofsPages (of_nat i) \<in> set (page_seq virt num)" if "i < unat num" for i
    using that by (auto simp: page_seq_def)
  have "(flags OR PAGE_PRESENT) AND PAGE_USER = flags AND PAGE_USER"
    by (simp add: bit.conj_disj_distrib2 PAGE_PRESENT_def PAGE_USER_def)
  then show ?thesis
    unfolding mapAddress_def using rf al
    by (intro map_pages_ok [OF ok]) (auto simp: range_free_def dest!: rng)
qed


text \<open>
  C20: Unmapping a range that was just mapped restores the translation of every page of the process.
\<close>

theorem map_unmap_round_trip:
  assumes "map_ok 510 (cur_cr3 k) k" "range_free virt num flags k" "isPageAligned phys"
  shows "\<exists>k' k''. mapAddress virt phys num flags (k_cur k) k = Inr k' \<and>
    unmapAddress virt num False (k_cur k) k' = Inr ((), k'') \<and> map_ok 510 (cur_cr3 k'') k'' \<and>
    (\<forall>u. mappable (vpath u) \<longrightarrow> mmu_walk (k_mem k'') (cur_cr3 k'') u = mmu_walk (k_mem k) (cur_cr3 k) u)"
proof -
  let ?root = "cur_cr3 k" and ?fl = "flags OR PAGE_PRESENT"
  from mapAddress_ok [OF assms(1-3)] obtain k' where k': "mapAddress virt phys num flags (k_cur k) k = Inr k'"
    "map_ok 510 ?root k'" and E: "entries_written ?root (k_cur k) (range_entries virt (\<lambda>i. phys + ofsPages i OR ?fl) (unat num)) (3 * unat num) k k'"
    by blast
  have rf: "block_ok virt num" "unat num \<le> 2 ^ 36" and mp: "\<forall>v\<in>set (page_seq virt num). mappable (vpath v)"
    and un: "\<forall>v\<in>set (page_seq virt num). mmu_walk (k_mem k) ?root v = None"
    using assms(2) by (auto simp: range_free_def)
  note same = same_but_mapsD [OF entries_written_def [THEN iffD1, OF E, THEN conjunct1]]
  note seq = page_seq_paths [OF rf]
  have al: "isPageAligned virt" using rf(1) by (simp add: block_ok_def)
  have pt: "\<exists>e. pte (k_mem k') ?root (vpath v) = Some e \<and> present e" if "v \<in> set (page_seq virt num)" for v
  proof -
    from that obtain i where i: "i < unat num" "v = virt + ofsPages (of_nat i)" using seq(2) by auto
    have "range_entries virt (\<lambda>i. phys + ofsPages i OR ?fl) (unat num) (page_path virt i) = Some (phys + ofsPages (of_nat i) OR ?fl)"
      by (rule range_entries_page [OF i(1)]) (use vpath_page_inj [OF rf i(1)] in blast)
    with E have "pte (k_mem k') ?root (vpath v) = Some (phys + ofsPages (of_nat i) OR ?fl)" unfolding entries_written_def i(2) by blast
    then show ?thesis by (simp add: present_or present_flag)
  qed
  have "\<forall>v\<in>set (page_seq virt num). \<exists>e. pte (k_mem k') (cur_cr3 k') (vpath v) = Some e \<and> present e"
    using pt by (simp add: same)
  from unmapAddress_ok [OF k'(2) [folded same(1)] al mp seq(1) this, of False, unfolded same(1,3)] obtain k'' where
    k'': "unmapAddress virt num False (k_cur k) k' = Inr ((), k'')" "map_ok 510 ?root k''"
    and U: "entries_written ?root (k_cur k) (\<lambda>q. if q \<in> vpath ` set (page_seq virt num) then Some 0 else None) 0 k' k''"
    by blast
  have "cur_cr3 k'' = ?root" using same_but_mapsD(1) [OF entries_written_def [THEN iffD1, OF U, THEN conjunct1]] same(1) by simp
  moreover have "mmu_walk (k_mem k'') ?root u = mmu_walk (k_mem k) ?root u" if u: "mappable (vpath u)" for u
  proof (cases "vpath u \<in> vpath ` set (page_seq virt num)")
    case True
    then obtain v where v: "v \<in> set (page_seq virt num)" "vpath u = vpath v" by auto
    have "pte (k_mem k'') ?root (vpath u) = Some 0" using U True unfolding entries_written_def by simp
    then have "mmu_walk (k_mem k'') ?root u = None"
      using walk_pte [of "vpath u" "k_mem k''" ?root] by (simp add: mmu_walk_path present_def)
    moreover have "mmu_walk (k_mem k) ?root u = None" using un v by (simp add: mmu_walk_path)
    ultimately show ?thesis by simp
  next
    case False
    have dom: "dom (\<lambda>q. if q \<in> vpath ` set (page_seq virt num) then Some (0::u64) else None) = vpath ` set (page_seq virt num)"
      by (auto split: if_splits)
    have "mmu_walk (k_mem k'') ?root u = mmu_walk (k_mem k') ?root u"
      using U u False unfolding entries_written_def dom by blast
    also have "\<dots> = mmu_walk (k_mem k) ?root u"
      using E u False seq(2) unfolding entries_written_def dom_range_entries by (simp add: image_image)
    finally show ?thesis .
  qed
  ultimately show ?thesis using k'(1) k'' by auto
qed

text \<open>
  Without \<^verbatim>\<open>overwrite\<close>, mapping a page of the current process that is already mapped is refused.
\<close>

lemma map_internal_refuses:
  assumes "map_ok 510 (cur_cr3 k) k" "isPageAligned virt" "isPageAligned phys"
    and "mmu_walk (k_mem k) (cur_cr3 k) virt \<noteq> None" "mappable (vpath virt)" "3 * 4096 \<le> card (pmm_free (k_pmm k))"
  shows "\<exists>msg. map_internal virt phys flags (k_cur k) False k = Inl (Abort msg) \<and>
    msg = (if indexPML4 virt > 255 \<and> flags AND PAGE_USER \<noteq> 0
           then ''cannot map high address space as user-readable!'' else ''virtual addr was already mapped'')"
proof -
  let ?a = "indexPML4 virt" and ?b = "indexPDPT virt" and ?c = "indexPageDir virt" and ?d = "indexPageTable virt"
  let ?fl = "if ?a > 255 then PAGE_WRITE OR PAGE_PRESENT else PAGE_USER OR PAGE_WRITE OR PAGE_PRESENT"
  have v: "?a \<noteq> 509" "?a \<noteq> 510" using assms(5) by (simp_all add: mappable_vpath)
  from map_tables_ok [OF assms(1) v assms(6), of "k_cur k" "''somehow page has a NX pdpt!''" "''somehow page has a NX pdir!''" "''somehow page has a NX ptab!''"]
  obtain k3 F where inv: "map_inv k 510 (cur_cr3 k) (k_cur k) [?a, ?b, ?c] k3 F"
    and run: "\<And>g :: kernel \<Rightarrow> (unit \<times> kernel) res.
        bindE (map_level (k_cur k) (tab_ptr 510 []) ?a (tab_ptr 510 [?a]) ?fl ''somehow page has a NX pdpt!'' k) (\<lambda>k1.
        bindE (map_level (k_cur k) (tab_ptr 510 [?a]) ?b (tab_ptr 510 [?a, ?b]) ?fl ''somehow page has a NX pdir!'' k1) (\<lambda>k2.
        bindE (map_level (k_cur k) (tab_ptr 510 [?a, ?b]) ?c (tab_ptr 510 [?a, ?b, ?c]) ?fl ''somehow page has a NX ptab!'' k2) g)) = g k3"
    by blast
  from inv obtain t where t: "walk (k_mem k3) (cur_cr3 k) [?a, ?b, ?c] = Some t" and ok3: "map_ok 510 (cur_cr3 k) k3"
    and E: "extends (k_mem k) (k_mem k3) (cur_cr3 k) F" by (auto simp: map_inv_def)
  have R: "reach (k_mem k3) (cur_cr3 k3) 510 (cur_cr3 k)" using ok3 by (simp add: map_ok_def)
  have "walk (k_mem k3) (cur_cr3 k) (vpath virt) = walk (k_mem k) (cur_cr3 k) (vpath virt)"
    using E assms(5) length_vpath unfolding extends_def by blast
  then have "walk (k_mem k3) (cur_cr3 k) ([?a, ?b, ?c] @ [?d]) \<noteq> None"
    using assms(4) by (simp add: mmu_walk_path vpath_def del: walk.simps)
  then have "present (k_mem k3 t ?d)" using walk_step [OF t, of ?d] by (simp del: walk.simps split: if_splits)
  moreover have "tab_read (k_mem k3) (cur_cr3 k3) (tab_ptr 510 [?a, ?b, ?c]) ?d = Inr (k_mem k3 t ?d)"
    by (rule tab_read_leaf [OF R t]) (simp add: index_lt)
  ultimately show ?thesis
    unfolding map_internal_cur [OF assms(2,3)] map_core_ptrs Let_def using v by (simp add: run)
qed


text \<open>A small machine: one process whose table has only the recursive entry, and four free frames.\<close>

definition k_demo :: kernel where
  "k_demo = \<lparr>k_mem = pt_demo, k_pmm = pmm_demo, k_as = (\<lambda>_. as_demo\<lparr>as_cr3 := 0x1000\<rparr>), k_cur = 0,
             k_shared = (\<lambda>_. hm_new), k_heap = True, k_locks = []\<rparr>"

lemma k_demo_simps [simp]:
  "cur_cr3 k_demo = 0x1000" "k_cur k_demo = 0" "k_mem k_demo = pt_demo" "k_pmm k_demo = pmm_demo" "k_locks k_demo = []" "k_heap k_demo"
  by (simp_all add: k_demo_def cur_cr3_def)

lemma pmm_demo_free: "pmm_free pmm_demo = {0x10000..<0x14000}" "pool_ok pmm_demo"
  using ext_demo_wf ext_demo_free by (simp_all add: pmm_demo_def pool_ok_def)

lemma demo_pages: "f \<in> pages_of {0x10000..<0x14000} \<Longrightarrow> isPageAligned f \<and> unat f < 0x14000 \<and> 0x10000 \<le> unat f"
proof -
  assume f: "f \<in> pages_of {0x10000..<0x14000}"
  have "unat f \<in> span f 1" by (simp add: span_one)
  with f show ?thesis by (auto simp: pages_of_def)
qed

lemma k_demo_ok: "map_ok 510 0x1000 k_demo"
proof -
  have "phys_ok f \<and> \<not> is_table pt_demo 0x1000 f \<and> f \<noteq> 0x1000" if "f \<in> pages_of {0x10000..<0x14000}" for f
    using demo_pages [OF that] phys_ok_small [of f] by (auto simp: pt_demo_is_table)
  then show ?thesis
    by (simp add: map_ok_def pmm_demo_free reach_def slot_def pt_demo_step pt_demo_tree)
qed

lemma k_demo_range: "range_free 0x400000 1 PAGE_WRITE k_demo"
proof -
  have "page_seq 0x400000 1 = [0x400000]" by code_simp
  moreover have "mmu_walk pt_demo 0x1000 0x400000 = None" by (simp add: mmu_walk_def pt_demo_step indexPML4_def)
  ultimately show ?thesis
    by (simp add: range_free_def block_ok_def fits_def isPageAligned_def pmm_demo_free mappable_vpath indexPML4_def)
qed


theorem map_unmap_round_trip_witness:
  "\<exists>k' k''. mapAddress 0x400000 0x20000 1 PAGE_WRITE 0 k_demo = Inr k' \<and>
    unmapAddress 0x400000 1 False 0 k' = Inr ((), k'') \<and> mmu_walk (k_mem k'') (cur_cr3 k'') 0x400000 = None"
proof -
  have "isPageAligned 0x20000" "mappable (vpath 0x400000)" "mmu_walk pt_demo 0x1000 0x400000 = None"
    by (simp_all add: isPageAligned_def mappable_vpath indexPML4_def mmu_walk_def pt_demo_step)
  then show ?thesis
    using map_unmap_round_trip [of k_demo "0x400000" 1 PAGE_WRITE "0x20000"] k_demo_ok k_demo_range by auto
qed

text \<open>
  The memory of a machine whose page table maps the frame \<open>0x9000\<close> at address 0 and has the entry \<open>e\<close> for
  the page \<open>0x1000\<close>, and the machine above with this memory.
\<close>

definition demo_mem :: "u64 \<Rightarrow> physmem" where
  "demo_mem e = pt_demo(0x1000 := (pt_demo 0x1000)(0 := 0x2003), 0x2000 := (\<lambda>_. 0)(0 := 0x3003),
     0x3000 := (\<lambda>_. 0)(0 := 0x4003), 0x4000 := (\<lambda>_. 0)(0 := 0x9003, 1 := e))"

definition k_demo2 :: kernel where
  "k_demo2 = k_demo\<lparr>k_mem := demo_mem 0\<rparr>"

lemma demo_mem_step: "mmu_step (demo_mem e) t i =
    (if t = 0x1000 \<and> i = 510 then Some 0x1000 else if t = 0x1000 \<and> i = 0 then Some 0x2000 else if t = 0x2000 \<and> i = 0 then Some 0x3000
     else if t = 0x3000 \<and> i = 0 then Some 0x4000 else if t = 0x4000 \<and> i = 0 then Some 0x9000
     else if t = 0x4000 \<and> i = 1 \<and> present e then Some (entry_frame e) else None)"
  by (simp add: demo_mem_def pt_demo_def mmu_step_def present_def entry_frame_def PAGE_PRESENT_def)

lemma demo_mem_walk:
  assumes "mappable p" "length p \<le> 3" "walk (demo_mem e) 0x1000 p = Some t"
  shows "p = replicate (length p) 0 \<and> t = [0x1000, 0x2000, 0x3000, 0x4000] ! length p"
proof -
  consider "p = []" | a where "p = [a]" | a b where "p = [a, b]" | a b c where "p = [a, b, c]"
    using assms(2) by (cases p rule: list.exhaust; cases "tl p"; cases "tl (tl p)"; cases "tl (tl (tl p))") auto
  then show ?thesis
    using assms(1,3) by cases (auto simp: mappable_def demo_mem_step bind_eq_Some_conv split: if_splits)
qed

lemma demo_mem_table:
  assumes "is_table (demo_mem e) 0x1000 t"
  shows "t \<in> {0x1000, 0x2000, 0x3000, 0x4000}"
proof -
  from assms obtain p where p: "mappable p" "length p \<le> 3" "walk (demo_mem e) 0x1000 p = Some t" unfolding is_table_def by blast
  have "t \<in> set [0x1000, 0x2000, 0x3000, 0x4000]"
    using demo_mem_walk [OF p] p(2) nth_mem [of "length p" "[0x1000, 0x2000, 0x3000, 0x4000] :: u64 list"] by simp
  then show ?thesis by simp
qed

lemma demo_mem_tree: "pt_tree (demo_mem e) 0x1000"
  unfolding pt_tree_def
proof (intro allI impI, elim conjE)
  have d: "distinct ([0x1000, 0x2000, 0x3000, 0x4000] :: u64 list)" by simp
  fix p q t assume h: "mappable p" "mappable q" "length p \<le> 3" "length q \<le> 3"
    "walk (demo_mem e) 0x1000 p = Some t" "walk (demo_mem e) 0x1000 q = Some t"
  note w = demo_mem_walk [OF h(1,3,5)] demo_mem_walk [OF h(2,4,6)]
  then have "length p = length q" using nth_eq_iff_index_eq [OF d, of "length p" "length q"] h(3,4) by simp
  with w show "p = q" by metis
qed

lemma demo_mem_ok:
  assumes "k_mem k = demo_mem e" "cur_cr3 k = 0x1000" "pool_ok (k_pmm k)" "PmmLock \<notin> set (k_locks k)"
    "pmm_free (k_pmm k) \<subseteq> {0x10000..<0x20000}"
  shows "map_ok 510 0x1000 k"
proof -
  have "phys_ok f \<and> \<not> is_table (demo_mem e) 0x1000 f \<and> f \<noteq> 0x1000" if "f \<in> pages_of (pmm_free (k_pmm k))" for f
  proof -
    have "unat f \<in> span f 1" by (simp add: span_one)
    with that assms(5) have "isPageAligned f" "0x10000 \<le> unat f" "unat f < 0x20000" by (auto simp: pages_of_def)
    then show ?thesis using phys_ok_small [of f] demo_mem_table [of e f] by auto
  qed
  with assms show ?thesis by (auto simp: map_ok_def reach_def slot_def demo_mem_step demo_mem_tree)
qed

lemma k_demo2_ok: "map_ok 510 0x1000 k_demo2"
  by (rule demo_mem_ok [of _ 0]) (auto simp: k_demo2_def k_demo_def cur_cr3_def pmm_demo_free)

lemma map_internal_refuses_witness:
  "map_internal 0 0x20000 PAGE_WRITE 0 False k_demo2 = Inl (Abort ''virtual addr was already mapped'')"
proof -
  have c: "cur_cr3 k_demo2 = 0x1000" "k_pmm k_demo2 = pmm_demo" "k_cur k_demo2 = 0" by (simp_all add: k_demo2_def k_demo_def cur_cr3_def)
  have "mmu_walk (k_mem k_demo2) 0x1000 0 \<noteq> None"
    by (simp add: mmu_walk_def k_demo2_def demo_mem_step indexPML4_def indexPDPT_def indexPageDir_def indexPageTable_def)
  then show ?thesis
    using map_internal_refuses [of k_demo2 0 "0x20000" PAGE_WRITE] k_demo2_ok
    by (simp add: c pmm_demo_free isPageAligned_def mappable_vpath indexPML4_def)
qed

end
