(* ===== verification/Vmm.thy ===== *)
theory Vmm
  imports Virtmap
begin

text \<open>
  The virtual memory manager: \<^verbatim>\<open>kernel/source/mm/vmm.cpp\<close> and \<^verbatim>\<open>setupAddrSpace\<close> of
  \<^verbatim>\<open>virtmap.cpp\<close>. The address
  range allocators of a process are extent allocators; all of them belong to the kernel process, so the
  page an allocator needs for more nodes is \<^verbatim>\<open>vmm::allocate(1, Kernel, PAGE_WRITE, kproc)\<close>, and a
  thread that needs one while it holds the lock it would take is stopped. The faults the kernel itself
  takes when it first writes to such a page are not modelled.
\<close>

section \<open>Operations\<close>

fun AddressSpaces :: "AddressSpaceType \<Rightarrow> u64 \<times> u64" where
  "AddressSpaces Kernel = (KERNEL_VMM_ADDRSPACE_BASE, KERNEL_VMM_ADDRSPACE_END)"
| "AddressSpaces KernelHeap = (KERNEL_HEAP_BASE, KERNEL_HEAP_END)"
| "AddressSpaces User = (USER_ADDRSPACE_BASE, USER_ADDRSPACE_END)"

fun extmmNames :: "AddressSpaceType \<Rightarrow> string" where
  "extmmNames Kernel = ''vmm/user''"
| "extmmNames KernelHeap = ''vmm/heap''"
| "extmmNames User = ''vmm/kernel''"

definition all_spaces :: "AddressSpaceType list" where
  "all_spaces = [Kernel, KernelHeap, User]"

definition getAddrSpace :: "u64 \<Rightarrow> u64 \<Rightarrow> AddressSpaceType res" where
  "getAddrSpace addr num =
     (case List.find (\<lambda>t. fst (AddressSpaces t) \<le> addr \<and> addr + ofsPages num \<le> snd (AddressSpaces t)) all_spaces of
        Some t \<Rightarrow> Inr t | None \<Rightarrow> Inl (Abort ''address not in any address space''))"

definition vmm_allocate :: "u64 \<Rightarrow> AddressSpaceType \<Rightarrow> u64 \<Rightarrow> nat \<Rightarrow> kernel \<Rightarrow> (u64 \<times> kernel) res" where
  "vmm_allocate num type flags pid k =
     bindE (allocateAddrSpace num type pid k) (\<lambda>(virt, k1).
     if virt = 0 then Inl (Abort ''vmm::allocate(): out of addrspace!'')
     else let flags' = flags AND NOT PAGE_WRITE
          in bindE (mapZeroedCOW virt num flags' pid k1) (\<lambda>k2.
             bindE (addRegion (k_heap k2) virt num (k_as k2 pid)) (\<lambda>s.
               Inr (virt, upd_as pid (\<lambda>_. s) k2))))"

definition k_newpage :: "kernel \<Rightarrow> (u64 \<times> kernel) res" where
  "k_newpage = vmm_allocate 1 Kernel PAGE_WRITE 0"

definition k_pmm_deallocate :: "u64 \<Rightarrow> u64 \<Rightarrow> kernel \<Rightarrow> (unit \<times> kernel) res" where
  "k_pmm_deallocate addr num = locked PmmLock (\<lambda>k.
     bindE (pmm_deallocate k_newpage addr num (k_pmm k) k) (\<lambda>(p, k'). Inr ((), k'\<lparr>k_pmm := p\<rparr>)))"

definition put_vmm :: "nat \<Rightarrow> AddressSpaceType \<Rightarrow> extmm \<Rightarrow> kernel \<Rightarrow> kernel" where
  "put_vmm pid type x = upd_as pid (\<lambda>s. s\<lparr>as_vmm := (as_vmm s)(type := x)\<rparr>)"

definition space_free :: "nat \<Rightarrow> AddressSpaceType \<Rightarrow> u64 \<Rightarrow> u64 \<Rightarrow> kernel \<Rightarrow> (unit \<times> kernel) res" where
  "space_free pid type addr num = locked (VmmLock pid type) (\<lambda>k.
     bindE (extmm_deallocate k_newpage addr num (as_vmm (k_as k pid) type) k) (\<lambda>(x, k').
       Inr ((), put_vmm pid type x k')))"

definition deallocateAddrSpace :: "u64 \<Rightarrow> u64 \<Rightarrow> nat \<Rightarrow> kernel \<Rightarrow> (unit \<times> kernel) res" where
  "deallocateAddrSpace addr num pid k =
     bindE (assertE (isPageAligned addr) ''addr.isPageAligned()'') (\<lambda>_.
     bindE (getAddrSpace addr num) (\<lambda>type. space_free pid type addr num k))"

definition allocateSpecific :: "u64 \<Rightarrow> u64 \<Rightarrow> nat \<Rightarrow> kernel \<Rightarrow> (u64 \<times> kernel) res" where
  "allocateSpecific addr num pid k =
     bindE (assertE (isPageAligned addr) ''addr.isPageAligned()'') (\<lambda>_.
     bindE (getAddrSpace addr num) (\<lambda>type.
     bindE (locked (VmmLock pid type) (\<lambda>k.
              bindE (extmm_allocateSpecific k_newpage addr num (as_vmm (k_as k pid) type) k) (\<lambda>(virt, x, k').
                Inr (virt, put_vmm pid type x k'))) k) (\<lambda>(virt, k1).
     if virt \<noteq> 0
     then bindE (addRegion (k_heap k1) virt num (k_as k1 pid)) (\<lambda>s. Inr (virt, upd_as pid (\<lambda>_. s) k1))
     else Inr (virt, k1))))"

definition allocateEager :: "u64 \<Rightarrow> AddressSpaceType \<Rightarrow> u64 \<Rightarrow> nat \<Rightarrow> kernel \<Rightarrow> (u64 \<times> kernel) res" where
  "allocateEager num type flags pid k =
     bindE (allocateAddrSpace num type pid k) (\<lambda>(virt, k1).
     if virt = 0 then Inl (Abort ''vmm::allocate(): out of addrspace!'')
     else bindE (k_pmm_allocate num False k1) (\<lambda>(phys, k2).
          if phys = 0 then Inl (Abort ''vmm::allocate(): no physical pages!'')
          else bindE (mapAddress virt phys num (flags OR PAGE_PRESENT) pid k2) (\<lambda>k3.
               bindE (addRegionPhys (k_heap k3) virt phys num (k_as k3 pid)) (\<lambda>s.
                 Inr (virt, upd_as pid (\<lambda>_. s) k3)))))"

text \<open>\<^verbatim>\<open>pmm::deallocate(p, 1)\<close> as the address space calls it.\<close>

definition k_freephys :: "u64 \<Rightarrow> kernel \<Rightarrow> kernel res" where
  "k_freephys p k = bindE (k_pmm_deallocate p 1 k) (\<lambda>(_, k'). Inr k')"

text \<open>
  \<^verbatim>\<open>deallocate\<close>: freeing a frame may need a node page, whose allocation adds a region to the kernel
  process; when that is the process whose regions are being walked, the walk is stopped.
\<close>

definition vmm_deallocate :: "u64 \<Rightarrow> u64 \<Rightarrow> nat \<Rightarrow> kernel \<Rightarrow> kernel res" where
  "vmm_deallocate addr num pid k =
     bindE (assertE (isPageAligned addr) ''addr.isPageAligned()'') (\<lambda>_.
     bindE (unmapAddress addr num False pid k) (\<lambda>(_, k1).
     bindE (deallocateAddrSpace addr num pid k1) (\<lambda>(_, k2).
     bindE (freeRegion (k_heap k2) k_freephys addr num True (k_as k2 pid) k2) (\<lambda>(s, k3).
       if as_regions (k_as k3 pid) \<noteq> as_regions (k_as k2 pid) then Inl OutOfBounds
       else Inr (upd_as pid (\<lambda>a. a\<lparr>as_regions := as_regions s\<rparr>) k3)))))"

section \<open>Setting up and tearing down an address space\<close>

text \<open>
  What \<^verbatim>\<open>setupAddrSpace\<close> reads from other parts of the kernel: the size of the framebuffer, where the
  user-visible stubs are linked, and the local APIC of the processor.
\<close>

record machine =
  fbScan :: u32
  fbResY :: u32
  stubs_begin :: u64
  stubs_end :: u64
  hasLocalAPIC :: bool
  localApicAddr :: u64

definition map_stub :: "machine \<Rightarrow> nat \<Rightarrow> nat \<Rightarrow> kernel \<Rightarrow> kernel res" where
  "map_stub mc pid i k =
     bindE (getPhysAddr (stubs_begin mc + ofsPages (of_nat i)) (k_cur k) k) (\<lambda>(kp, k1).
       mapAddress (USER_KERNEL_STUBS + ofsPages (of_nat i)) kp 1 (PAGE_USER OR PAGE_PRESENT) pid k1)"

definition setupAddrSpace :: "machine \<Rightarrow> nat \<Rightarrow> kernel \<Rightarrow> kernel res" where
  "setupAddrSpace mc pid k =
     (let cr3 = as_cr3 (k_as k pid); cur = k_cur k
      in bindE (assertE (nonZero cr3) ''cr3.nonZero()'') (\<lambda>_.
         bindE (allocateAddrSpace 1 User cur k) (\<lambda>(virt, k1).
         bindE (mapAddress virt cr3 1 (PAGE_PRESENT OR PAGE_WRITE) cur k1) (\<lambda>k2.
         bindE (page_zero (k_mem k2) (cur_cr3 k2) virt) (\<lambda>m1.
         bindE (tab_write m1 (cur_cr3 k2) virt 510 (cr3 OR PAGE_PRESENT OR PAGE_WRITE)) (\<lambda>m2.
         bindE (getPhysAddr (getPDPT 510 511) cur (k2\<lparr>k_mem := m2\<rparr>)) (\<lambda>(pdpt, k3).
         bindE (tab_write (k_mem k3) (cur_cr3 k3) virt 511 (pdpt OR PAGE_WRITE OR PAGE_PRESENT)) (\<lambda>m3.
         let k4 = k3\<lparr>k_mem := m3\<rparr>; numPgs = (ucast (fbScan mc * fbResY mc * 4) + PAGE_SIZE - 1) div PAGE_SIZE
         in bindE (getPhysAddr KERNEL_FRAMEBUFFER cur k4) (\<lambda>(fb, k5).
            bindE (mapAddress USER_FRAMEBUFFER fb numPgs (PAGE_USER OR PAGE_WRITE OR PAGE_PRESENT) pid k5) (\<lambda>k6.
            bindE (assertE (isPageAligned (stubs_begin mc)) ''isPageAligned(stubs_begin)'') (\<lambda>_.
            let numStubs = (stubs_end mc - stubs_begin mc + PAGE_SIZE - 1) div PAGE_SIZE
            in bindE (foldE (map_stub mc pid) [0..<unat numStubs] k6) (\<lambda>k7.
               bindE (if hasLocalAPIC mc
                      then let lapicBase = localApicAddr mc
                           in bindE (allocateSpecific lapicBase 1 pid k7) (\<lambda>(got, k8).
                              if got \<noteq> lapicBase then Inl (Abort ''failed to map lapic to user process!'')
                              else mapAddress lapicBase lapicBase 1 (PAGE_PRESENT OR PAGE_WRITE) pid k8)
                      else Inr k7) (\<lambda>k9.
               bindE (unmapAddress virt 1 False cur k9) (\<lambda>(_, k10).
               bindE (deallocateAddrSpace virt 1 cur k10) (\<lambda>(_, k11). Inr k11)))))))))))))))"

fun kernelBootstrapPages :: "AddressSpaceType \<Rightarrow> u64" where
  "kernelBootstrapPages Kernel = KERN_VMM_STACK0_BOOTSTRAP"
| "kernelBootstrapPages KernelHeap = KERN_VMM_STACK1_BOOTSTRAP"
| "kernelBootstrapPages User = KERN_VMM_STACK2_BOOTSTRAP"

definition vmm_init_space :: "nat \<Rightarrow> AddressSpaceType \<Rightarrow> kernel \<Rightarrow> kernel res" where
  "vmm_init_space pid type k =
     (let (base, top) = AddressSpaces type; page = kernelBootstrapPages type
      in bindE (if pid = 0
                then bindE (k_pmm_allocate 1 False k) (\<lambda>(p, k1).
                     bindE (mapAddress page p 1 (PAGE_WRITE OR PAGE_PRESENT) pid k1) (\<lambda>k2.
                       Inr (put_vmm pid type (extmm_init (extmmNames type) page (page + ofsPages 1) 0) k2)))
                else Inr (put_vmm pid type (extmm_init (extmmNames type) 0 0 0) k)) (\<lambda>k3.
         bindE (space_free pid type base ((top - base) div PAGE_SIZE) k3) (\<lambda>(_, k4). Inr k4)))"

definition vmm_init :: "machine \<Rightarrow> nat \<Rightarrow> kernel \<Rightarrow> kernel res" where
  "vmm_init mc pid k =
     bindE (foldE (vmm_init_space pid) all_spaces k) (\<lambda>k1.
     if pid = 0 then bindE (unmapAddress 0 1 False (k_cur k1) k1) (\<lambda>(_, k2). Inr k2)
     else setupAddrSpace mc pid k1)"

definition vmm_destroy_space :: "nat \<Rightarrow> AddressSpaceType \<Rightarrow> kernel \<Rightarrow> kernel res" where
  "vmm_destroy_space pid type k =
     bindE (locked (VmmLock pid type) (\<lambda>k.
       bindE (extmm_destroy (\<lambda>m. vmm_deallocate m 1 0) (as_vmm (k_as k pid) type) k) (\<lambda>(x, k').
         Inr ((), put_vmm pid type x k'))) k) (\<lambda>(_, k'). Inr k')"

definition vmm_destroy :: "nat \<Rightarrow> kernel \<Rightarrow> kernel res" where
  "vmm_destroy pid k =
     bindE (assertE (pid \<noteq> 0) ''proc && proc->processId != 0'') (\<lambda>_. foldE (vmm_destroy_space pid) all_spaces k)"

section \<open>Address space ranges\<close>

abbreviation vmm_head :: "AddressSpaceType \<Rightarrow> kernel \<Rightarrow> extent list" where
  "vmm_head type k \<equiv> x_head (as_vmm (k_as k (k_cur k)) type)"

text \<open>
  The allocator of one address range of the current process: its extents are well formed, and the pages
  they cover can be mapped, are not mapped and belong to no region.
\<close>

definition space_ok :: "AddressSpaceType \<Rightarrow> kernel \<Rightarrow> bool" where
  "space_ok type k \<longleftrightarrow>
     ext_wf (vmm_head type k) \<and> ext_aligned (vmm_head type k) \<and> (\<forall>e\<in>set (vmm_head type k). e_size e \<noteq> 0) \<and>
     VmmLock (k_cur k) type \<notin> set (k_locks k) \<and> 0 \<notin> ext_free (vmm_head type k) \<and>
     (\<forall>v\<in>pages_of (ext_free (vmm_head type k)). mappable (vpath v) \<and> mmu_walk (k_mem k) (cur_cr3 k) v = None) \<and>
     inj_on vpath (pages_of (ext_free (vmm_head type k))) \<and>
     cover (as_regions (k_as k (k_cur k))) \<inter> ext_free (vmm_head type k) = {}"

lemma page_in_block:
  assumes "block_ok a n" "v \<in> set (page_seq a n)"
  shows "isPageAligned v" "span v 1 \<subseteq> span a n"
proof -
  have f: "fits a n" "isPageAligned a" using assms(1) by (simp_all add: block_ok_def)
  show "isPageAligned v" using assms(2) set_page_seq(1) [OF f] by auto
  from assms(2) obtain i where i: "i < unat n" "v = a + ofsPages (of_nat i)" by (auto simp: page_seq_def)
  have "i * 4096 + 4096 \<le> unat n * 4096" using i(1) by (simp add: Suc_le_eq mult_le_mono1 flip: mult_Suc)
  then show "span v 1 \<subseteq> span a n" using unat_page [OF f(1) i(1)] i(2) by (auto simp: span_def)
qed

lemma allocateAddrSpace_ok:
  assumes ok: "space_ok type k" and num: "num \<noteq> 0" and fit: "\<exists>e\<in>set (vmm_head type k). num \<le> e_size e"
  shows "\<exists>virt x. allocateAddrSpace num type (k_cur k) k = Inr (virt, put_vmm (k_cur k) type x k) \<and>
    extmm_allocate num (\<lambda>_ _. True) (as_vmm (k_as k (k_cur k)) type) = Inr (virt, x) \<and>
    block_ok virt num \<and> virt \<noteq> 0 \<and> span virt num \<subseteq> ext_free (vmm_head type k) \<and>
    ext_wf (x_head x) \<and> ext_aligned (x_head x) \<and> (\<forall>e\<in>set (x_head x). e_size e \<noteq> 0) \<and>
    ext_free (x_head x) = ext_free (vmm_head type k) - span virt num"
proof -
  let ?st = "as_vmm (k_as k (k_cur k)) type"
  have wf: "ext_wf (x_head ?st)" "ext_aligned (x_head ?st)" "\<forall>e\<in>set (x_head ?st). e_size e \<noteq> 0" "0 \<notin> ext_free (x_head ?st)"
    using ok by (auto simp: space_ok_def)
  have "ext_take (\<lambda>_ _. True) num (x_head ?st) \<noteq> None" unfolding ext_take_None using fit by auto
  then obtain virt f es where t: "ext_take (\<lambda>_ _. True) num (x_head ?st) = Some (virt, f, es)" by auto
  let ?x = "?st\<lparr>x_head := es, x_freeHead := (case f of None \<Rightarrow> x_freeHead ?st | Some n \<Rightarrow> n # x_freeHead ?st)\<rparr>"
  have al: "extmm_allocate num (\<lambda>_ _. True) ?st = Inr (virt, ?x)" using t num by (simp add: extmm_allocate_def)
  note c = ext_take_correct [OF t wf(1)] and a = ext_take_aligned [OF t wf(2)] and s = ext_take_pos [OF t wf(3)]
  have "unat virt \<in> span virt num" using num by (simp add: span_def unat_gt_0)
  then have "virt \<noteq> 0" using c wf(4) by auto
  moreover have "allocateAddrSpace num type (k_cur k) k = Inr (virt, put_vmm (k_cur k) type ?x k)"
    unfolding allocateAddrSpace_def using ok al a by (simp add: locked_free space_ok_def put_vmm_def upd_as_def)
  ultimately show ?thesis using al c a s num by (intro exI [of _ virt] exI [of _ ?x]) (auto simp: block_ok_def)
qed

lemma put_vmm_simps [simp]:
  "k_mem (put_vmm pid type x k) = k_mem k" "k_pmm (put_vmm pid type x k) = k_pmm k" "k_cur (put_vmm pid type x k) = k_cur k"
  "k_locks (put_vmm pid type x k) = k_locks k" "k_shared (put_vmm pid type x k) = k_shared k" "k_heap (put_vmm pid type x k) = k_heap k"
  "cur_cr3 (put_vmm pid type x k) = cur_cr3 k"
  "as_regions (k_as (put_vmm pid type x k) p) = as_regions (k_as k p)" "as_shared (k_as (put_vmm pid type x k) p) = as_shared (k_as k p)"
  "as_cr3 (k_as (put_vmm pid type x k) p) = as_cr3 (k_as k p)"
  "as_vmm (k_as (put_vmm pid type x k) p) = (if p = pid then (as_vmm (k_as k p))(type := x) else as_vmm (k_as k p))"
  by (simp_all add: put_vmm_def upd_as_def cur_cr3_def)

lemma put_vmm_map_ok [simp]: "map_ok r root (put_vmm pid type x k) \<longleftrightarrow> map_ok r root k"
  by (simp add: map_ok_def)

lemma k_pmm_allocate_ok:
  assumes "pool_ok (k_pmm k)" "num \<noteq> 0" "\<exists>e\<in>set (x_head (p_ext (k_pmm k))). num \<le> e_size e" "0 \<notin> pmm_free (k_pmm k)"
    and "PmmLock \<notin> set (k_locks k)"
  shows "\<exists>phys p'. k_pmm_allocate num False k = Inr (phys, k\<lparr>k_pmm := p'\<rparr>) \<and> pool_ok p' \<and> block_ok phys num \<and> phys \<noteq> 0 \<and>
    span phys num \<subseteq> pmm_free (k_pmm k) \<and> pmm_free p' = pmm_free (k_pmm k) - span phys num \<and> p_zero p' = p_zero (k_pmm k)"
proof -
  let ?sat = "\<lambda>a l. if False then pmm_end a l < 0xFFFFFFFF else True" and ?st = "p_ext (k_pmm k)"
  have wf: "ext_wf (x_head ?st)" using assms(1) by (simp add: pool_ok_def)
  have "ext_take ?sat num (x_head ?st) \<noteq> None" unfolding ext_take_None using assms(3) by auto
  then obtain ret f es where t: "ext_take ?sat num (x_head ?st) = Some (ret, f, es)" by auto
  have "unat ret \<in> span ret num" using assms(2) by (simp add: span_def unat_gt_0)
  then have "ret \<noteq> 0" using ext_take_correct [OF t wf] assms(4) by auto
  then obtain p' where a: "pmm_allocate num False (k_pmm k) = Inr (ret, p')"
    using t assms(2) by (simp add: pmm_allocate_def extmm_allocate_def)
  note inv = pmm_allocate_inv [OF assms(1) [unfolded pool_pmm_inv] a]
  have "k_pmm_allocate num False k = Inr (ret, k\<lparr>k_pmm := p'\<rparr>)"
    unfolding k_pmm_allocate_def using assms(5) a by (simp add: locked_free)
  then show ?thesis using inv by (auto simp: pmm_inv_def pool_ok_def block_ok_def)
qed

lemma map_ok_fewer:
  assumes "map_ok r root k" "pool_ok p'" "pmm_free p' \<subseteq> pmm_free (k_pmm k)"
  shows "map_ok r root (k\<lparr>k_pmm := p'\<rparr>)"
  using assms pages_of_mono [OF assms(3)] by (auto simp: map_ok_def cur_cr3_def)

lemma card_minus_span:
  assumes "finite B" "block_ok a n" "span a n \<subseteq> B"
  shows "card (B - span a n) = card B - unat n * 4096"
  using assms by (simp add: card_Diff_subset finite_subset [OF assms(3)]) (simp add: span_def)

lemma finite_ext_free [simp]: "finite (ext_free es)"
  by (simp add: ext_free_def span_def)

lemma block_pages: "block_ok a n \<Longrightarrow> span a n \<subseteq> B \<Longrightarrow> set (page_seq a n) \<subseteq> pages_of B"
  using page_in_block by (fastforce simp: pages_of_def)

text \<open>A block taken from a good address range can be mapped.\<close>

lemma space_range_free:
  assumes sp: "space_ok type k" and blk: "block_ok virt num" "unat num \<le> 2 ^ 36" "span virt num \<subseteq> ext_free (vmm_head type k)"
    and user: "\<forall>v\<in>pages_of (ext_free (vmm_head type k)). indexPML4 v > 255 \<longrightarrow> flags AND PAGE_USER = 0"
    and room: "3 * unat num * 4096 \<le> card (pmm_free (k_pmm k'))" and k': "k_mem k' = k_mem k" "cur_cr3 k' = cur_cr3 k"
  shows "range_free virt num flags k'"
  using block_pages [OF blk(1,3)] assms unfolding range_free_def space_ok_def by auto

text \<open>After the block is taken and only its pages were mapped, the rest of the range is as good as before.\<close>

lemma space_ok_after:
  assumes sp: "space_ok type k" and blk: "block_ok virt num" "span virt num \<subseteq> ext_free (vmm_head type k)"
    and h: "ext_wf (vmm_head type k')" "ext_aligned (vmm_head type k')" "\<forall>e\<in>set (vmm_head type k'). e_size e \<noteq> 0"
      "ext_free (vmm_head type k') = ext_free (vmm_head type k) - span virt num"
    and k': "k_cur k' = k_cur k" "k_locks k' = k_locks k" "cur_cr3 k' = cur_cr3 k"
      "cover (as_regions (k_as k' (k_cur k))) \<subseteq> cover (as_regions (k_as k (k_cur k))) \<union> span virt num"
    and walks: "\<And>u. mappable (vpath u) \<Longrightarrow> vpath u \<notin> vpath ` set (page_seq virt num) \<Longrightarrow>
      mmu_walk (k_mem k') (cur_cr3 k) u = mmu_walk (k_mem k) (cur_cr3 k) u"
  shows "space_ok type k'"
proof -
  have inj: "inj_on vpath (pages_of (ext_free (vmm_head type k)))"
    and pg: "\<And>v. v \<in> pages_of (ext_free (vmm_head type k)) \<Longrightarrow> mappable (vpath v) \<and> mmu_walk (k_mem k) (cur_cr3 k) v = None"
    and c: "cover (as_regions (k_as k (k_cur k))) \<inter> ext_free (vmm_head type k) = {}" "0 \<notin> ext_free (vmm_head type k)"
    "VmmLock (k_cur k) type \<notin> set (k_locks k)"
    using sp by (auto simp: space_ok_def)
  have sub: "pages_of (ext_free (vmm_head type k')) \<subseteq> pages_of (ext_free (vmm_head type k))"
    unfolding h(4) by (rule pages_of_mono) blast
  have none: "mappable (vpath v) \<and> mmu_walk (k_mem k') (cur_cr3 k) v = None" if v: "v \<in> pages_of (ext_free (vmm_head type k'))" for v
  proof -
    have vk: "v \<in> pages_of (ext_free (vmm_head type k))" using v sub by blast
    have "vpath v \<notin> vpath ` set (page_seq virt num)"
    proof
      assume "vpath v \<in> vpath ` set (page_seq virt num)"
      then obtain u where u: "u \<in> set (page_seq virt num)" "vpath v = vpath u" by blast
      then have "v = u" using inj_onD [OF inj u(2) vk] block_pages [OF blk] by blast
      then have "span v 1 \<subseteq> span virt num" using page_in_block(2) [OF blk(1) u(1)] by simp
      moreover have "span v 1 \<subseteq> ext_free (vmm_head type k) - span virt num" using v h(4) by (simp add: pages_of_def)
      ultimately have "span v 1 = {}" by blast
      then show False by (simp add: span_one)
    qed
    with walks [of v] pg [OF vk] show ?thesis by simp
  qed
  show ?thesis
    unfolding space_ok_def k'(1,3) using h(1-3) none inj_on_subset [OF inj sub] c k' h(4) by auto
qed

lemma allocateEager_ok:
  assumes ok: "map_ok 510 (cur_cr3 k) k" and sp: "space_ok type k" and heap: "k_heap k"
    and regs: "regions_ok (as_regions (k_as k (k_cur k)))" "\<forall>r\<in>set (as_regions (k_as k (k_cur k))). region_clean r"
    and num: "num \<noteq> 0" "unat num \<le> 2 ^ 36" and fit: "\<exists>e\<in>set (vmm_head type k). num \<le> e_size e"
      "\<exists>e\<in>set (x_head (p_ext (k_pmm k))). num \<le> e_size e"
    and room: "4 * unat num * 4096 \<le> card (pmm_free (k_pmm k))"
    and flags: "flags AND NOT (PAGE_NX OR 0xFFF) = 0"
      "\<forall>v\<in>pages_of (ext_free (vmm_head type k)). indexPML4 v > 255 \<longrightarrow> flags AND PAGE_USER = 0"
  shows "\<exists>virt phys k'. allocateEager num type flags (k_cur k) k = Inr (virt, k') \<and> block_ok virt num \<and> block_ok phys num \<and>
    span virt num \<subseteq> ext_free (vmm_head type k) \<and> span phys num \<subseteq> pmm_free (k_pmm k) \<and>
    map_ok 510 (cur_cr3 k') k' \<and> space_ok type k' \<and> cur_cr3 k' = cur_cr3 k \<and> k_cur k' = k_cur k \<and>
    ext_free (vmm_head type k') = ext_free (vmm_head type k) - span virt num \<and>
    pmm_free (k_pmm k') \<subseteq> pmm_free (k_pmm k) - span phys num \<and>
    (\<forall>i<unat num. getPhysAddr (virt + ofsPages (of_nat i)) (k_cur k) k' = Inr (phys + ofsPages (of_nat i), k') \<and>
       rec_map (as_regions (k_as k' (k_cur k))) (virt + ofsPages (of_nat i)) = Some (phys + ofsPages (of_nat i))) \<and>
    cover (as_regions (k_as k' (k_cur k))) = cover (as_regions (k_as k (k_cur k))) \<union> span virt num \<and>
    (\<forall>u. mappable (vpath u) \<and> vpath u \<notin> vpath ` set (page_seq virt num) \<longrightarrow>
       mmu_walk (k_mem k') (cur_cr3 k) u = mmu_walk (k_mem k) (cur_cr3 k) u)"
proof -
  let ?cur = "k_cur k" and ?root = "cur_cr3 k" and ?fl = "flags OR PAGE_PRESENT"
  from allocateAddrSpace_ok [OF sp num(1) fit(1)] obtain virt x where
    al: "allocateAddrSpace num type ?cur k = Inr (virt, put_vmm ?cur type x k)"
    and v: "block_ok virt num" "virt \<noteq> 0" "span virt num \<subseteq> ext_free (vmm_head type k)"
    and x: "ext_wf (x_head x)" "ext_aligned (x_head x)" "\<forall>e\<in>set (x_head x). e_size e \<noteq> 0"
      "ext_free (x_head x) = ext_free (vmm_head type k) - span virt num" by blast
  let ?k1 = "put_vmm ?cur type x k"
  have pool: "pool_ok (k_pmm k)" "0 \<notin> pmm_free (k_pmm k)" "PmmLock \<notin> set (k_locks k)" using ok by (auto simp: map_ok_def)
  from k_pmm_allocate_ok [of ?k1 num] pool fit(2) num(1) obtain phys p' where
    ph: "k_pmm_allocate num False ?k1 = Inr (phys, ?k1\<lparr>k_pmm := p'\<rparr>)" "pool_ok p'" "block_ok phys num" "phys \<noteq> 0"
      "span phys num \<subseteq> pmm_free (k_pmm k)" "pmm_free p' = pmm_free (k_pmm k) - span phys num" by auto
  let ?k2 = "?k1\<lparr>k_pmm := p'\<rparr>"
  have c2: "cur_cr3 ?k2 = ?root" by (simp add: cur_cr3_def put_vmm_def upd_as_def)
  have ok2: "map_ok 510 (cur_cr3 ?k2) ?k2" unfolding c2 by (rule map_ok_fewer) (use ok ph in simp_all)
  have "card (pmm_free p') = card (pmm_free (k_pmm k)) - unat num * 4096"
    unfolding ph(6) by (rule card_minus_span [OF _ ph(3,5)]) simp
  then have room2: "3 * unat num * 4096 \<le> card (pmm_free (k_pmm ?k2))" using room by simp
  have user: "\<forall>v\<in>pages_of (ext_free (vmm_head type k)). indexPML4 v > 255 \<longrightarrow> ?fl AND PAGE_USER = 0"
    using flags(2) by (simp add: and_or_zero) (simp add: PAGE_PRESENT_def PAGE_USER_def)
  have rf: "range_free virt num ?fl ?k2" by (rule space_range_free [OF sp v(1) num(2) v(3) user room2]) (simp_all add: c2)
  have alp: "isPageAligned phys" using ph(3) by (simp add: block_ok_def)
  have fl: "?fl AND NOT (PAGE_NX OR 0xFFF) = 0" using flags(1) by (simp add: and_or_zero) (simp add: PAGE_PRESENT_def PAGE_NX_def)
  have pok: "\<forall>i<unat num. phys_ok (phys + ofsPages (of_nat i))"
  proof (intro allI impI)
    fix i assume "i < unat num"
    then have "phys + ofsPages (of_nat i) \<in> set (page_seq phys num)" by (auto simp: page_seq_def)
    then have "phys + ofsPages (of_nat i) \<in> pages_of (pmm_free (k_pmm k))" using block_pages [OF ph(3,5)] by blast
    then show "phys_ok (phys + ofsPages (of_nat i))" using ok by (simp add: map_ok_def)
  qed
  have ffl: "?fl OR PAGE_PRESENT = ?fl" by (simp add: or.assoc)
  from mapAddress_ok [OF ok2 rf alp] obtain k3 where
    m: "mapAddress virt phys num ?fl ?cur ?k2 = Inr k3" "map_ok 510 ?root k3"
      "entries_written ?root ?cur (range_entries virt (\<lambda>i. phys + ofsPages i OR ?fl) (unat num)) (3 * unat num) ?k2 k3"
    unfolding c2 ffl by auto
  have S: "same_but_maps ?cur ?k2 k3" using m(3) by (simp add: entries_written_def)
  note same = same_but_mapsD [OF S]
  let ?s = "k_as k3 ?cur"
  have regs3: "as_regions ?s = as_regions (k_as k ?cur)" using same(6) [of ?cur] by simp
  have dj: "span virt num \<inter> cover (as_regions ?s) = {}" using sp v(3) unfolding regs3 space_ok_def by blast
  from addRegionPhys_ok [of ?s virt num phys] regs dj v(1) alp regs3 obtain rs where
    rs: "addRegionPhys True virt phys num ?s = Inr (?s\<lparr>as_regions := rs\<rparr>)" "cover rs = cover (as_regions (k_as k ?cur)) \<union> span virt num"
      "\<And>u. isPageAligned u \<Longrightarrow> rec_map rs u = (if unat u \<in> span virt num then Some (phys + (u - virt)) else rec_map (as_regions (k_as k ?cur)) u)"
    by auto
  let ?k' = "upd_as ?cur (\<lambda>_. ?s\<lparr>as_regions := rs\<rparr>) k3"
  have hp: "k_heap k3" using same(5) heap by simp
  have res: "allocateEager num type flags ?cur k = Inr (virt, ?k')"
    unfolding allocateEager_def using al v(2) ph m(1) rs(1) hp by simp
  have k'c: "cur_cr3 ?k' = ?root" "k_cur ?k' = ?cur" "k_mem ?k' = k_mem k3" "k_pmm ?k' = k_pmm k3" "k_locks ?k' = k_locks k"
      "as_regions (k_as ?k' ?cur) = rs" "as_vmm (k_as ?k' ?cur) = as_vmm (k_as k3 ?cur)"
    using same by (simp_all add: upd_as_def cur_cr3_def c2)
  have mok: "map_ok 510 ?root ?k'" using m(2) same(1) unfolding map_ok_def k'c(1,3,4,5) c2 by (simp add: same)
  have hd: "vmm_head type ?k' = x_head x" using same(7) [of ?cur] k'c by simp
  have walks: "mmu_walk (k_mem ?k') ?root u = mmu_walk (k_mem k) ?root u"
    if "mappable (vpath u)" "vpath u \<notin> vpath ` set (page_seq virt num)" for u
    using m(3) that page_seq_paths(2) [OF v(1) num(2)] unfolding entries_written_def dom_range_entries k'c(3) by (simp add: image_image)
  have pt: "pte (k_mem ?k') ?root (page_path virt i) = Some (phys + ofsPages (of_nat i) OR ?fl)" if i: "i < unat num" for i
  proof -
    have "range_entries virt (\<lambda>i. phys + ofsPages i OR ?fl) (unat num) (page_path virt i) = Some (phys + ofsPages (of_nat i) OR ?fl)"
      by (rule range_entries_page [OF i]) (use vpath_page_inj [OF v(1) num(2) i] in blast)
    with m(3) show ?thesis unfolding entries_written_def k'c(3) by blast
  qed
  have page: "getPhysAddr (virt + ofsPages (of_nat i)) ?cur ?k' = Inr (phys + ofsPages (of_nat i), ?k') \<and>
      rec_map rs (virt + ofsPages (of_nat i)) = Some (phys + ofsPages (of_nat i))" if i: "i < unat num" for i
  proof
    let ?v = "virt + ofsPages (of_nat i)"
    have vin: "?v \<in> set (page_seq virt num)" using i by (auto simp: page_seq_def)
    note pb = page_in_block [OF v(1) vin]
    have "mappable (vpath ?v)" using rf vin by (auto simp: range_free_def)
    from getPhysAddr_ok [OF mok [folded k'c(1)] this pb(1)] pt [OF i] PAGE_ALIGN_entry(1) [OF _ fl] pok i
    show "getPhysAddr ?v ?cur ?k' = Inr (phys + ofsPages (of_nat i), ?k')" by (simp add: k'c present_or present_flag)
    have "unat ?v \<in> span virt num" using pb(2) by (auto simp: span_one)
    then show "rec_map rs ?v = Some (phys + ofsPages (of_nat i))" using rs(3) [OF pb(1)] by simp
  qed
  have "space_ok type ?k'"
    by (rule space_ok_after [OF sp v(1,3)]) (use x hd k'c rs(2) walks in auto)
  moreover have "pmm_free (k_pmm ?k') \<subseteq> pmm_free (k_pmm k) - span phys num"
    using m(3) ph(6) unfolding entries_written_def tables_from_def k'c(4) by auto
  ultimately show ?thesis
    using res v ph(3,5) mok k'c hd x(4) rs(2) page walks by (intro exI [of _ virt] exI [of _ phys] exI [of _ ?k']) auto
qed

section \<open>Page faults\<close>

lemma map_ok_cong:
  "\<lbrakk>k_mem k' = k_mem k; k_pmm k' = k_pmm k; k_locks k' = k_locks k; cur_cr3 k' = cur_cr3 k\<rbrakk> \<Longrightarrow> map_ok r root k' \<longleftrightarrow> map_ok r root k"
  by (simp add: map_ok_def)

lemma is_table_fresh:
  assumes "\<not> is_table mem root f"
  shows "is_table (mem(f := c)) root u \<longleftrightarrow> is_table mem root u"
proof -
  have "walk (mem(f := c)) root p = walk mem root p" if "mappable p" "length p \<le> 3" for p
    by (rule walk_fresh_page [OF assms that(1)]) (use that in simp)
  then show ?thesis unfolding is_table_def by metis
qed

lemma pt_tree_fresh:
  assumes "\<not> is_table mem root f" "pt_tree mem root"
  shows "pt_tree (mem(f := c)) root"
  unfolding pt_tree_def
proof (intro allI impI, elim conjE)
  fix p q t assume h: "mappable p" "mappable q" "length p \<le> 3" "length q \<le> 3"
    "walk (mem(f := c)) root p = Some t" "walk (mem(f := c)) root q = Some t"
  have "walk mem root p = Some t" "walk mem root q = Some t"
    using h walk_fresh_page [OF assms(1), of p c] walk_fresh_page [OF assms(1), of q c] by simp_all
  then show "p = q" using pt_treeD [OF assms(2)] h by blast
qed

text \<open>Writing a page that is not a table.\<close>

lemma map_ok_page:
  assumes ok: "map_ok r root k" and f: "\<not> is_table (k_mem k) root f" "f \<noteq> cur_cr3 k"
  shows "map_ok r root (k\<lparr>k_mem := (k_mem k)(f := c)\<rparr>)"
    and "\<And>u. mappable (vpath u) \<Longrightarrow> mmu_walk ((k_mem k)(f := c)) root u = mmu_walk (k_mem k) root u"
proof -
  let ?m = "(k_mem k)(f := c)"
  have R: "slot (k_mem k) (cur_cr3 k) r root" "pt_tree (k_mem k) root" "cur_cr3 k = root \<or> \<not> is_table (k_mem k) root (cur_cr3 k)"
    using ok by (auto simp: map_ok_def reach_def)
  have "f \<noteq> root" using f(1) is_table_root by auto
  have "reach ?m (cur_cr3 k) r root"
    unfolding reach_def using slot_fresh [OF R(1) f(2)[symmetric, THEN not_sym]] \<open>f \<noteq> root\<close> pt_tree_fresh [OF f(1) R(2)] R(3)
    by (simp add: is_table_fresh [OF f(1)])
  then show "map_ok r root (k\<lparr>k_mem := ?m\<rparr>)"
    using ok by (simp add: map_ok_def is_table_fresh [OF f(1)] cur_cr3_def)
  show "mmu_walk ?m root u = mmu_walk (k_mem k) root u" if "mappable (vpath u)" for u
    using walk_fresh_page [OF f(1) that, of c] by (simp add: mmu_walk_path)
qed

lemma isPageAligned_PAGE_ALIGN [simp]: "isPageAligned (PAGE_ALIGN a)"
proof -
  have m: "(0xFFFFFFFFFFFFF000 :: u64) = 0xFFFFFFFFFFFFF000 AND NOT 0xFFF" "(0x7FFFFFFFFFFFF000 :: u64) = 0x7FFFFFFFFFFFF000 AND NOT 0xFFF" by simp_all
  show ?thesis unfolding isPageAligned_def PAGE_ALIGN_def
    by (auto simp: and.assoc simp del: m) 
qed

text \<open>Overwriting the entry of one page of the current process.\<close>

lemma mapAddressOverwrite_ok:
  assumes ok: "map_ok 510 (cur_cr3 k) k" and v: "mappable (vpath v)" "isPageAligned v" "isPageAligned phys"
    and user: "indexPML4 v > 255 \<Longrightarrow> flags AND PAGE_USER = 0" and room: "3 * 4096 \<le> card (pmm_free (k_pmm k))"
  shows "\<exists>k'. mapAddressOverwrite v phys 1 flags (k_cur k) k = Inr k' \<and> map_ok 510 (cur_cr3 k) k' \<and>
    entries_written (cur_cr3 k) (k_cur k) [vpath v \<mapsto> phys OR (flags OR PAGE_PRESENT)] 3 k k'"
proof -
  have i: "indexPML4 v \<noteq> 509" "indexPML4 v \<noteq> 510" using v(1) by (simp_all add: mappable_vpath)
  have u: "indexPML4 v > 255 \<Longrightarrow> (flags OR PAGE_PRESENT) AND PAGE_USER = 0"
    using user by (simp add: and_or_zero) (simp add: PAGE_PRESENT_def PAGE_USER_def)
  have t: "True \<or> mmu_walk (k_mem k) (cur_cr3 k) v = None" by simp
  from map_core_ok [OF ok i room u t, of "k_cur k" phys] obtain k' where
    k': "map_core 510 (k_cur k) v phys (flags OR PAGE_PRESENT) True k = Inr ((), k')" "map_ok 510 (cur_cr3 k) k'"
      "entries_written (cur_cr3 k) (k_cur k) [vpath v \<mapsto> phys OR (flags OR PAGE_PRESENT)] 3 k k'" by blast
  have "mapAddressOverwrite v phys 1 flags (k_cur k) k = Inr k'"
    using k'(1) map_internal_cur [OF v(2,3), of "flags OR PAGE_PRESENT" k True]
    by (simp add: mapAddressOverwrite_def map_pages_def ofsPages_def)
  with k' show ?thesis by blast
qed

lemma getPageFlags_ok:
  assumes "map_ok 510 (cur_cr3 k) k" "mappable (vpath v)" "isPageAligned v"
  shows "getPageFlags v (k_cur k) k = Inr (case pte (k_mem k) (cur_cr3 k) (vpath v) of None \<Rightarrow> 0 | Some e \<Rightarrow> e AND (PAGE_NX OR 0xFFF), k)"
  using find_entry_ok [of k 510 "cur_cr3 k" v] assms
  by (simp add: getPageFlags_def with_tables_def map_ok_def split: option.splits)

lemma ext_take_rest: "ext_take sat num es = Some (ret, None, es') \<Longrightarrow> \<exists>e\<in>set es'. e_addr e = ext_end ret num"
  by (induction es arbitrary: es') (auto simp: ext_end_def split: if_splits)

text \<open>A block can be given straight back without a new node page.\<close>

lemma deallocate_after_allocate:
  assumes wf: "ext_wf (x_head st)" "\<forall>e\<in>set (x_head st). e_size e \<noteq> 0" and num: "num \<noteq> 0"
    and al: "extmm_allocate num sat st = Inr (a, st')" and sub: "span a num \<inter> ext_free (x_head st') = {}" and a: "a \<noteq> 0"
  shows "\<exists>st''. \<forall>newpage w. extmm_deallocate newpage a num st' w = Inr (st'', w)"
proof -
  from al a obtain f where t: "ext_take sat num (x_head st) = Some (a, f, x_head st')"
    and fh: "f = Some n \<Longrightarrow> x_freeHead st' \<noteq> []" for n
    by (auto simp: extmm_allocate_def split: if_splits option.splits)
  have pos: "\<forall>e\<in>set (x_head st'). e_size e \<noteq> 0" by (rule ext_take_pos [OF t wf(2)])
  show ?thesis
  proof (cases "ext_give a num (x_head st')")
    case (Inl x)
    then obtain e where e: "e \<in> set (x_head st')" "e_addr e = a" using ext_give_Inl by blast
    have "unat a \<in> espan e" "unat a \<in> span a num" using e pos num by (auto simp: span_def unat_gt_0)
    with e(1) sub show ?thesis by (auto simp: ext_free_def)
  next
    case (Inr r)
    show ?thesis
    proof (cases r)
      case (Some es)
      with Inr show ?thesis by (simp add: extmm_deallocate_def)
    next
      case None
      with Inr have n: "\<forall>e\<in>set (x_head st'). e_addr e \<noteq> ext_end a num" using ext_give_None by blast
      then obtain n where "f = Some n" using ext_take_rest t by (cases f) blast+
      with fh obtain m ms where "x_freeHead st' = m # ms" by (cases "x_freeHead st'") auto
      with Inr None show ?thesis by (simp add: extmm_deallocate_def addExtent_def)
    qed
  qed
qed

lemma entries_written_page:
  assumes "entries_written root pid es n k k'" "\<not> is_table (k_mem k) root f" "f \<notin> pages_of (pmm_free (k_pmm k))"
  shows "k_mem k' f = k_mem k f" "\<not> is_table (k_mem k') root f" "pmm_free (k_pmm k') \<subseteq> pmm_free (k_pmm k)"
proof -
  obtain F where "tables_from root n k k' F" using assms(1) unfolding entries_written_def by blast
  then show "k_mem k' f = k_mem k f" "\<not> is_table (k_mem k') root f" "pmm_free (k_pmm k') \<subseteq> pmm_free (k_pmm k)"
    using assms(2,3) by (auto simp: tables_from_def)
qed

lemma entries_writtenD:
  assumes "entries_written root pid es n k k'"
  shows "same_but_maps pid k k'" "es q = Some e \<Longrightarrow> pte (k_mem k') root q = Some e"
    "mappable (vpath u) \<Longrightarrow> vpath u \<notin> dom es \<Longrightarrow> mmu_walk (k_mem k') root u = mmu_walk (k_mem k) root u"
  using assms by (auto simp: entries_written_def)

lemma space_ok_cong:
  assumes "space_ok type k" "as_vmm (k_as k' (k_cur k')) type = as_vmm (k_as k (k_cur k)) type" "k_cur k' = k_cur k" "k_locks k' = k_locks k"
    "cur_cr3 k' = cur_cr3 k" "cover (as_regions (k_as k' (k_cur k'))) = cover (as_regions (k_as k (k_cur k)))"
    "\<And>v. v \<in> pages_of (ext_free (vmm_head type k)) \<Longrightarrow> mmu_walk (k_mem k') (cur_cr3 k) v = mmu_walk (k_mem k) (cur_cr3 k) v"
  shows "space_ok type k'"
  using assms unfolding space_ok_def by auto

lemma page_seq_one: "page_seq v 1 = [v]"
  by (simp add: page_seq_def ofsPages_def)

lemma getAddrSpace_user:
  assumes "unat USER_ADDRSPACE_BASE \<le> unat v" "unat v + 4096 \<le> unat USER_ADDRSPACE_END"
  shows "getAddrSpace v 1 = Inr User"
proof -
  have v: "USER_ADDRSPACE_BASE \<le> v" "v + ofsPages 1 \<le> USER_ADDRSPACE_END" "\<not> KERNEL_VMM_ADDRSPACE_BASE \<le> v" "\<not> KERNEL_HEAP_BASE \<le> v"
    using assms unat_add_nowrap [of v PAGE_SIZE]
    by (simp_all add: word_le_nat_alt ofsPages_def USER_ADDRSPACE_BASE_def USER_ADDRSPACE_END_def KERNEL_VMM_ADDRSPACE_BASE_def KERNEL_HEAP_BASE_def)
  then show ?thesis by (simp add: getAddrSpace_def all_spaces_def)
qed

text \<open>
  C21: \<^verbatim>\<open>vmm::allocateEager\<close> on a process whose tables and ranges are consistent, with room for the frames and
  the tables, returns a block of unused addresses backed by frames that were free: page \<open>i\<close> of the block
  translates to frame \<open>i\<close>, the region list records the same, every other translation is unchanged and all
  invariants hold afterwards.
\<close>

theorem allocateEager_exact:
  assumes "map_ok 510 (cur_cr3 k) k" and "space_ok type k" and "k_heap k"
    and "regions_ok (as_regions (k_as k (k_cur k)))" "\<forall>r\<in>set (as_regions (k_as k (k_cur k))). region_clean r"
    and "num \<noteq> 0" "unat num \<le> 2 ^ 36" and "\<exists>e\<in>set (vmm_head type k). num \<le> e_size e"
      "\<exists>e\<in>set (x_head (p_ext (k_pmm k))). num \<le> e_size e"
    and "4 * unat num * 4096 \<le> card (pmm_free (k_pmm k))"
    and "flags AND NOT (PAGE_NX OR 0xFFF) = 0"
      "\<forall>v\<in>pages_of (ext_free (vmm_head type k)). indexPML4 v > 255 \<longrightarrow> flags AND PAGE_USER = 0"
  shows "\<exists>virt phys k'. allocateEager num type flags (k_cur k) k = Inr (virt, k') \<and> block_ok virt num \<and> block_ok phys num \<and>
    span virt num \<subseteq> ext_free (vmm_head type k) \<and> span phys num \<subseteq> pmm_free (k_pmm k) \<and>
    map_ok 510 (cur_cr3 k') k' \<and> space_ok type k' \<and> cur_cr3 k' = cur_cr3 k \<and> k_cur k' = k_cur k \<and>
    ext_free (vmm_head type k') = ext_free (vmm_head type k) - span virt num \<and>
    pmm_free (k_pmm k') \<subseteq> pmm_free (k_pmm k) - span phys num \<and>
    (\<forall>i<unat num. getPhysAddr (virt + ofsPages (of_nat i)) (k_cur k) k' = Inr (phys + ofsPages (of_nat i), k') \<and>
       rec_map (as_regions (k_as k' (k_cur k))) (virt + ofsPages (of_nat i)) = Some (phys + ofsPages (of_nat i))) \<and>
    cover (as_regions (k_as k' (k_cur k))) = cover (as_regions (k_as k (k_cur k))) \<union> span virt num \<and>
    (\<forall>u. mappable (vpath u) \<and> vpath u \<notin> vpath ` set (page_seq virt num) \<longrightarrow>
       mmu_walk (k_mem k') (cur_cr3 k) u = mmu_walk (k_mem k) (cur_cr3 k) u)"
  by (rule allocateEager_ok [OF assms])

text \<open>The user range of the current process is one of its address spaces and lies in the lower half.\<close>

definition user_range :: "kernel \<Rightarrow> bool" where
  "user_range k \<longleftrightarrow> space_ok User k \<and> vmm_head User k \<noteq> [] \<and>
     ext_free (vmm_head User k) \<subseteq> {unat USER_ADDRSPACE_BASE..<unat USER_ADDRSPACE_END} \<and>
     (\<forall>v\<in>pages_of (ext_free (vmm_head User k)). indexPML4 v \<le> 255)"

section \<open>A concrete kernel\<close>

text \<open>
  One process with the regions and the page table of the earlier examples, an entry \<open>e\<close> for the page
  \<open>0x1000\<close>, sixteen free frames and one free page of user addresses.
\<close>

definition one_extent :: "u64 \<Rightarrow> u64 \<Rightarrow> extmm" where
  "one_extent a n = (extmm_init ''demo'' 0x1000 0x2000 0)\<lparr>x_head := [\<lparr>e_node = 0x1000, e_addr = a, e_size = n\<rparr>], x_bootstrapWatermark := 0x1018\<rparr>"

definition k_demo3 :: "u64 \<Rightarrow> kernel" where
  "k_demo3 e = \<lparr>k_mem = demo_mem e,
     k_pmm = \<lparr>p_ext = one_extent 0x10000 16, p_total = 0x10000, p_allocated = 0, p_zero = 0x9000\<rparr>,
     k_as = (\<lambda>_. as_demo\<lparr>as_cr3 := 0x1000, as_regions := demo_regions, as_vmm := (\<lambda>_. one_extent 0x400000 1)\<rparr>),
     k_cur = 0, k_shared = (\<lambda>_. hm_new), k_heap = True, k_locks = []\<rparr>"

lemma k_demo3_simps [simp]:
  "k_mem (k_demo3 e) = demo_mem e" "k_cur (k_demo3 e) = 0" "cur_cr3 (k_demo3 e) = 0x1000" "k_locks (k_demo3 e) = []" "k_heap (k_demo3 e)"
  "pool_ok (k_pmm (k_demo3 e))" "getZeroPage (k_pmm (k_demo3 e)) = 0x9000"
  "as_regions (k_as (k_demo3 e) 0) = demo_regions" "as_shared (k_as (k_demo3 e) 0) = []"
  "as_vmm (k_as (k_demo3 e) 0) type = one_extent 0x400000 1" "x_head (one_extent a n) = [\<lparr>e_node = 0x1000, e_addr = a, e_size = n\<rparr>]"
  "span 0x10000 16 = {0x10000..<0x20000}" "span 0x400000 1 = {0x400000..<0x401000}"
  "x_head (p_ext (k_pmm (k_demo3 e))) = [\<lparr>e_node = 0x1000, e_addr = 0x10000, e_size = 16\<rparr>]"
  by (simp_all add: k_demo3_def one_extent_def cur_cr3_def pool_ok_def fits_def isPageAligned_def getZeroPage_def span_def as_demo_def)

lemma k_demo3_ok: "map_ok 510 0x1000 (k_demo3 e)"
  by (rule demo_mem_ok [of _ e]) simp_all

lemma one_page: "pages_of {0x400000..<0x401000} = {0x400000}"
proof
  show "pages_of {0x400000..<0x401000} \<subseteq> {0x400000}"
  proof
    fix f assume "f \<in> pages_of {0x400000..<0x401000}"
    then have "span f 1 \<subseteq> {0x400000..<0x401000}" by (simp add: pages_of_def)
    moreover have "unat f \<in> span f 1" "unat f + 4095 \<in> span f 1" by (simp_all add: span_one)
    ultimately have "0x400000 \<le> unat f" "unat f + 4095 < 0x401000" by auto
    then have "unat f = unat (0x400000::u64)" by simp
    then show "f \<in> {0x400000}" by (simp add: word_unat_eq_iff)
  qed
qed (simp add: pages_of_def isPageAligned_def span_one)

lemma k_demo3_walk:
  "mmu_walk (demo_mem e) 0x1000 0x400000 = None" "vpath 0x1000 = [0, 0, 0, 1]" "vpath 0x400000 = [0, 0, 2, 0]"
  "pte (demo_mem e) 0x1000 [0, 0, 0, 1] = Some e"
  by (simp_all add: mmu_walk_def vpath_def demo_mem_step indexPML4_def indexPDPT_def indexPageDir_def indexPageTable_def pte_def)
     (simp add: demo_mem_def)

lemma k_demo3_space: "space_ok User (k_demo3 e)" "user_range (k_demo3 e)"
proof -
  have f: "ext_free (vmm_head User (k_demo3 e)) = {0x400000..<0x401000}" by simp
  show "space_ok User (k_demo3 e)"
    unfolding space_ok_def f one_page
    by (simp add: k_demo3_walk fits_def isPageAligned_def demo_regions_ok) (simp add: mappable_def)
  then show "user_range (k_demo3 e)"
    unfolding user_range_def f one_page by (auto simp: USER_ADDRSPACE_BASE_def USER_ADDRSPACE_END_def indexPML4_def)
qed

theorem allocateEager_exact_witness:
  "\<exists>virt k'. allocateEager 1 User PAGE_USER 0 (k_demo3 0) = Inr (virt, k') \<and> span virt 1 \<subseteq> {0x400000..<0x401000}"
  using allocateEager_exact [of "k_demo3 0" User 1 PAGE_USER] k_demo3_ok [of 0] k_demo3_space(1) [of 0] demo_regions_ok
  by (auto simp: PAGE_USER_def PAGE_NX_def one_page indexPML4_def)

section \<open>Pages for extent nodes\<close>

text \<open>
  The \<^verbatim>\<open>extmm\<close> component takes the pages for its list nodes from \<^verbatim>\<open>vmm::allocate(1, AddressSpace::Kernel)\<close>.
  The kernel's address range is the resource: no step of the mapping code touches it, so each page handed out
  is new. This is the contract \<open>node_pages\<close> of the extent list.
\<close>

definition kspace :: "kernel \<Rightarrow> extmm" where
  "kspace k = as_vmm (k_as k 0) Kernel"

lemma kspace_upd [simp]:
  "kspace (k\<lparr>k_mem := m\<rparr>) = kspace k" "kspace (k\<lparr>k_pmm := p\<rparr>) = kspace k" "kspace (k\<lparr>k_locks := l\<rparr>) = kspace k"
  "kspace (upd_as pid (addTrackedPhysPage x) k) = kspace k"
  by (simp_all add: kspace_def upd_as_def addTrackedPhysPage_def)

lemma locked_kspace:
  assumes "locked l f k = Inr (x, k')" "\<And>k1 k2. f k1 = Inr (x, k2) \<Longrightarrow> kspace k2 = kspace k1"
  shows "kspace k' = kspace k"
  using assms by (fastforce simp: locked_def split: if_splits)

lemma k_pmm_allocate_kspace: "k_pmm_allocate n b k = Inr (x, k') \<Longrightarrow> kspace k' = kspace k"
  unfolding k_pmm_allocate_def by (erule locked_kspace) auto

lemma map_level_kspace: "map_level pid tab i c fl msg k = Inr k' \<Longrightarrow> kspace k' = kspace k"
  by (auto simp: map_level_def alloc_phys_tracked_def dest!: k_pmm_allocate_kspace split: if_splits)

lemma map_core_kspace: "map_core r pid v p fl ov k = Inr (x, k') \<Longrightarrow> kspace k' = kspace k"
  by (auto simp: map_core_def Let_def dest!: map_level_kspace split: if_splits)

lemma allocateAddrSpace_kspace: "allocateAddrSpace n User pid k = Inr (x, k') \<Longrightarrow> kspace k' = kspace k"
  unfolding allocateAddrSpace_def by (erule locked_kspace) (auto simp: kspace_def upd_as_def)

lemma foldE_kspace:
  assumes "foldE f xs k = Inr k'" "\<And>x k1 k2. f x k1 = Inr k2 \<Longrightarrow> kspace k2 = kspace k1"
  shows "kspace k' = kspace k"
  using assms(1) by (induction xs arbitrary: k) (auto dest: assms(2))

lemma unmap_core_kspace: "unmap_core r v n ig k = Inr (x, k') \<Longrightarrow> kspace k' = kspace k"
proof -
  have "kspace k2 = kspace k1" if "unmap_page r ig v k1 = Inr k2" for v k1 k2
  proof (cases "find_entry r v k1")
    case (Inr y)
    with that show ?thesis by (cases y) (auto simp: unmap_page_def Let_def split: if_splits)
  qed (use that in \<open>auto simp: unmap_page_def Let_def split: if_splits\<close>)
  then show "unmap_core r v n ig k = Inr (x, k') \<Longrightarrow> kspace k' = kspace k"
    unfolding unmap_core_def by (auto elim!: foldE_kspace)
qed

lemma poke_509_kspace: "poke_509 t e k = Inr (x, k') \<Longrightarrow> kspace k' = kspace k"
  by (auto simp: poke_509_def dest!: map_core_kspace allocateAddrSpace_kspace unmap_core_kspace)

lemma with_tables_kspace:
  assumes "with_tables pid f k = Inr (x, k')" "\<And>r k1 k2. f r k1 = Inr (x, k2) \<Longrightarrow> kspace k2 = kspace k1"
  shows "kspace k' = kspace k"
proof (cases "pid = k_cur k")
  case False
  with assms(1) have "locked Pml509Lock (\<lambda>k. bindE (temp_map pid k) (\<lambda>(_, k1). bindE (f 509 k1) (\<lambda>(x, k2).
      bindE (temp_unmap pid k2) (\<lambda>(_, k3). Inr (x, k3))))) k = Inr (x, k')" by (simp add: with_tables_def)
  then show ?thesis
    by (rule locked_kspace) (auto simp: temp_map_def temp_unmap_def Let_def dest!: poke_509_kspace assms(2))
qed (use assms in \<open>auto simp: with_tables_def\<close>)

lemma map_internal_kspace: "map_internal v p fl pid ov k = Inr (x, k') \<Longrightarrow> kspace k' = kspace k"
  unfolding map_internal_def by (auto elim!: with_tables_kspace dest: map_core_kspace)

lemma map_pages_kspace: "map_pages v f n fl pid ov k = Inr k' \<Longrightarrow> kspace k' = kspace k"
  unfolding map_pages_def by (erule foldE_kspace) (auto dest!: map_internal_kspace)

lemma addRegion_vmm: "addRegion hi a n s = Inr s' \<Longrightarrow> as_vmm s' = as_vmm s"
  by (auto simp: addRegion_def)

definition kspace_ok :: "kernel \<Rightarrow> bool" where
  "kspace_ok k \<longleftrightarrow> ext_wf (x_head (kspace k)) \<and> ext_aligned (x_head (kspace k))"

definition kspace_taken :: "kernel \<Rightarrow> nat set" where
  "kspace_taken k = - ext_free (x_head (kspace k))"

lemma k_newpage_takes:
  assumes ok: "kspace_ok k" and n: "k_newpage k = Inr (m, k')"
  shows "kspace_ok k' \<and> isPageAligned m \<and> span m 1 \<inter> kspace_taken k = {} \<and> kspace_taken k' = kspace_taken k \<union> span m 1"
proof -
  from n obtain k1 k2 s where a: "allocateAddrSpace 1 Kernel 0 k = Inr (m, k1)" "m \<noteq> 0"
    and z: "mapZeroedCOW m 1 (PAGE_WRITE AND NOT PAGE_WRITE) 0 k1 = Inr k2" "addRegion (k_heap k2) m 1 (k_as k2 0) = Inr s"
      "k' = upd_as 0 (\<lambda>_. s) k2"
    by (auto simp: k_newpage_def vmm_allocate_def Let_def split: if_splits)
  from a(1) obtain x where e: "extmm_allocate 1 (\<lambda>_ _. True) (kspace k) = Inr (m, x)" and k1: "kspace k1 = x"
    by (auto simp: allocateAddrSpace_def locked_def kspace_def upd_as_def split: if_splits)
  have "kspace k2 = x" using z(1) k1 by (auto simp: mapZeroedCOW_def Let_def dest!: map_pages_kspace)
  then have k': "kspace k' = x" using addRegion_vmm [OF z(2)] by (simp add: z(3) kspace_def upd_as_def)
  have wf: "ext_wf (x_head (kspace k))" "ext_aligned (x_head (kspace k))" using ok by (auto simp: kspace_ok_def)
  from extmm_allocate_free [OF e wf(1)] a(2) extmm_allocate_shape(1) [OF e wf(2)] show ?thesis
    unfolding kspace_ok_def kspace_taken_def k' by auto
qed

interpretation kn: node_pages k_newpage kspace_ok kspace_taken
  by unfold_locales (use k_newpage_takes in blast)+



end
