(* ===== verification/PageFault.thy ===== *)
theory PageFault
  imports Vmm
begin

text \<open>
  The page fault handler of \<^verbatim>\<open>kernel/source/mm/page_fault.cpp\<close>: lazily mapped pages get a cleared
  frame, writes to copy-on-write pages get a frame of their own. A store reaches memory when the page is
  present; the write-protect bit of the processor is not modelled.
\<close>

section \<open>Page faults\<close>

definition page_copy :: "physmem \<Rightarrow> u64 \<Rightarrow> u64 \<Rightarrow> u64 \<Rightarrow> physmem res" where
  "page_copy mem cr3 dst src =
     (case (mmu_walk mem cr3 dst, mmu_walk mem cr3 src) of
        (Some d, Some s) \<Rightarrow> Inr (mem(d := mem s)) | (None, _) \<Rightarrow> Inl (Fault dst) | (_, None) \<Rightarrow> Inl (Fault src))"

definition fault_missing :: "u64 \<Rightarrow> u64 \<Rightarrow> kernel \<Rightarrow> (bool \<times> kernel) res" where
  "fault_missing page flags k =
     (let pid = k_cur k; pair = lookupVirtualMapping page (k_as k pid) (k_shared k)
      in if fst pair = None then Inr (False, k)
         else bindE (case snd pair of
                Some ph \<Rightarrow> Inr (ph, False, k)
              | None \<Rightarrow> bindE (k_pmm_allocate 1 False k) (\<lambda>(p, k1).
                         bindE (addPhysicalMapping page p (k_as k1 pid) (k_shared k1)) (\<lambda>(_, s, sh).
                           Inr (p, True, (upd_as pid (\<lambda>_. s) k1)\<lparr>k_shared := sh\<rparr>)))) (\<lambda>(ph, needsClearing, k2).
              bindE (mapAddressOverwrite page ph 1 (flags AND NOT PAGE_COPY_ON_WRITE OR PAGE_PRESENT) pid k2) (\<lambda>k3.
              if needsClearing then bindE (page_zero (k_mem k3) (cur_cr3 k3) page) (\<lambda>m. Inr (True, k3\<lparr>k_mem := m\<rparr>))
              else Inr (True, k3))))"

definition fault_write :: "u64 \<Rightarrow> u64 \<Rightarrow> kernel \<Rightarrow> (bool \<times> kernel) res" where
  "fault_write page flags k =
     (let pid = k_cur k
      in bindE (k_pmm_allocate 1 False k) (\<lambda>(phys, k1).
         bindE (mapAddressOverwrite page phys 1 (flags AND NOT PAGE_COPY_ON_WRITE OR PAGE_WRITE) pid k1) (\<lambda>k2.
         bindE (addPhysicalMapping page phys (k_as k2 pid) (k_shared k2)) (\<lambda>(_, s, sh).
         let k3 = (upd_as pid (\<lambda>_. s) k2)\<lparr>k_shared := sh\<rparr>
         in bindE (getPhysAddr page pid k3) (\<lambda>(old_phys, k4).
            if old_phys \<noteq> getZeroPage (k_pmm k4)
            then bindE (allocateAddrSpace 1 User pid k4) (\<lambda>(scratch, k5).
                 bindE (mapAddress scratch old_phys 1 (PAGE_NX OR PAGE_USER OR PAGE_PRESENT) pid k5) (\<lambda>k6.
                 bindE (page_copy (k_mem k6) (cur_cr3 k6) page scratch) (\<lambda>m.
                 bindE (unmapAddress scratch 1 False pid (k6\<lparr>k_mem := m\<rparr>)) (\<lambda>(_, k7).
                 bindE (deallocateAddrSpace scratch 1 pid k7) (\<lambda>(_, k8). Inr (True, k8))))))
            else bindE (page_zero (k_mem k4) (cur_cr3 k4) page) (\<lambda>m. Inr (True, k4\<lparr>k_mem := m\<rparr>)))))))"

definition handlePageFault :: "u64 \<Rightarrow> u64 \<Rightarrow> kernel \<Rightarrow> (bool \<times> kernel) res" where
  "handlePageFault cr2 errorCode k =
     (let notPresent = (errorCode AND 0x1 = 0); wr = (errorCode AND 0x2 \<noteq> 0); reserved = (errorCode AND 0x8 \<noteq> 0)
      in if reserved then Inr (False, k)
         else let aligned_cr2 = PAGE_ALIGN cr2
              in bindE (getPageFlags aligned_cr2 (k_cur k) k) (\<lambda>(flags, k1).
                 if flags AND PAGE_COPY_ON_WRITE \<noteq> 0
                 then (if notPresent \<or> flags AND PAGE_PRESENT = 0 then fault_missing aligned_cr2 flags k1
                       else if \<not> wr then Inr (False, k1)
                       else fault_write aligned_cr2 flags k1)
                 else Inr (False, k1)))"

text \<open>What the two handlers below need of the faulting page of the current process.\<close>

definition fault_ok :: "u64 \<Rightarrow> u64 \<Rightarrow> kernel \<Rightarrow> bool" where
  "fault_ok page e k \<longleftrightarrow>
     map_ok 510 (cur_cr3 k) k \<and> mappable (vpath page) \<and> isPageAligned page \<and>
     pte (k_mem k) (cur_cr3 k) (vpath page) = Some e \<and> e AND PAGE_COPY_ON_WRITE \<noteq> 0 \<and>
     (indexPML4 page > 255 \<longrightarrow> e AND PAGE_USER = 0) \<and> 4 * 4096 \<le> card (pmm_free (k_pmm k)) \<and>
     regions_ok (as_regions (k_as k (k_cur k))) \<and> unat page \<in> cover (as_regions (k_as k (k_cur k))) \<and>
     (\<forall>r\<in>set (as_shared (k_as k (k_cur k))). \<not> svmr_contains r page)"

lemma fault_flags:
  fixes e :: u64
  defines "fl \<equiv> e AND (PAGE_NX OR 0xFFF)"
  shows "fl AND PAGE_COPY_ON_WRITE = e AND PAGE_COPY_ON_WRITE" "fl AND PAGE_PRESENT = e AND PAGE_PRESENT" "fl AND PAGE_USER = e AND PAGE_USER"
    "(fl AND NOT PAGE_COPY_ON_WRITE) AND NOT (PAGE_NX OR 0xFFF) = 0" "(fl AND NOT PAGE_COPY_ON_WRITE) AND PAGE_USER = e AND PAGE_USER"
proof -
  have a: "(PAGE_NX OR 0xFFF) AND PAGE_COPY_ON_WRITE = PAGE_COPY_ON_WRITE" "(PAGE_NX OR 0xFFF) AND PAGE_PRESENT = PAGE_PRESENT"
    "(PAGE_NX OR 0xFFF) AND PAGE_USER = PAGE_USER" "NOT PAGE_COPY_ON_WRITE AND PAGE_USER = PAGE_USER"
    "(PAGE_NX OR 0xFFF) AND (NOT PAGE_COPY_ON_WRITE AND NOT (PAGE_NX OR 0xFFF)) = 0"
    by (simp_all add: PAGE_NX_def PAGE_COPY_ON_WRITE_def PAGE_PRESENT_def PAGE_USER_def)
  show "fl AND PAGE_COPY_ON_WRITE = e AND PAGE_COPY_ON_WRITE" "fl AND PAGE_PRESENT = e AND PAGE_PRESENT" "fl AND PAGE_USER = e AND PAGE_USER"
    unfolding fl_def and.assoc by (simp_all only: a)
  show "(fl AND NOT PAGE_COPY_ON_WRITE) AND NOT (PAGE_NX OR 0xFFF) = 0"
    unfolding fl_def and.assoc by (simp only: a and_zero_eq)
  show "(fl AND NOT PAGE_COPY_ON_WRITE) AND PAGE_USER = e AND PAGE_USER"
    unfolding fl_def and.assoc by (simp only: a)
qed

lemma addPhysicalMapping_ok:
  assumes "regions_ok (as_regions s)" "isPageAligned v" "unat v \<in> cover (as_regions s)"
  shows "\<exists>old rs'. addPhysicalMapping v p s sh = Inr (old, s\<lparr>as_regions := rs'\<rparr>, sh) \<and> regions_ok rs' \<and>
    cover rs' = cover (as_regions s) \<and> rec_map rs' = (rec_map (as_regions s))(v \<mapsto> p)"
  using region_map_ok [OF assms, of p] by (auto simp: addPhysicalMapping_def)

lemma lookup_region:
  assumes "regions_ok (as_regions s)" "unat v \<in> cover (as_regions s)" "\<forall>r\<in>set (as_shared s). \<not> svmr_contains r v"
  shows "lookupVirtualMapping v s sh = (Some v, rec_map (as_regions s) v)"
proof -
  have "List.find (\<lambda>r. svmr_contains r v) (as_shared s) = None" using assms(3) by (auto simp: find_None_iff)
  moreover have "List.find (\<lambda>r. vmr_contains r v) (as_regions s) \<noteq> None" using find_cover [OF assms(1)] assms(2) by simp
  ultimately show ?thesis by (auto simp: lookupVirtualMapping_def rec_map_def split: option.splits)
qed

lemma allocate_frame:
  assumes "map_ok r root k" "4 * 4096 \<le> card (pmm_free (k_pmm k))"
  shows "\<exists>phys p'. k_pmm_allocate 1 False k = Inr (phys, k\<lparr>k_pmm := p'\<rparr>) \<and> map_ok r root (k\<lparr>k_pmm := p'\<rparr>) \<and>
    phys \<in> pages_of (pmm_free (k_pmm k)) \<and> phys \<notin> pages_of (pmm_free p') \<and> 3 * 4096 \<le> card (pmm_free p') \<and>
    pmm_free p' = pmm_free (k_pmm k) - span phys 1 \<and> p_zero p' = p_zero (k_pmm k)"
proof -
  have pool: "pool_ok (k_pmm k)" "0 \<notin> pmm_free (k_pmm k)" "PmmLock \<notin> set (k_locks k)" using assms(1) by (auto simp: map_ok_def)
  have "pmm_free (k_pmm k) \<noteq> {}" using assms(2) by auto
  then obtain e where e: "e \<in> set (x_head (p_ext (k_pmm k)))" by (cases "x_head (p_ext (k_pmm k))") auto
  then have "1 \<le> e_size e" using pool(1) by (simp add: pool_ok_def word_le_nat_alt unat_gt_0 Suc_le_eq)
  with e have "\<exists>e\<in>set (x_head (p_ext (k_pmm k))). 1 \<le> e_size e" by blast
  from k_pmm_allocate_ok [OF pool(1) _ this pool(2,3)] obtain phys p' where
    a: "k_pmm_allocate 1 False k = Inr (phys, k\<lparr>k_pmm := p'\<rparr>)" "pool_ok p'" "block_ok phys 1" "span phys 1 \<subseteq> pmm_free (k_pmm k)"
      "pmm_free p' = pmm_free (k_pmm k) - span phys 1" "p_zero p' = p_zero (k_pmm k)" by auto
  have "card (pmm_free p') = card (pmm_free (k_pmm k)) - unat (1::u64) * 4096"
    unfolding a(5) by (rule card_minus_span [OF _ a(3,4)]) simp
  then have "3 * 4096 \<le> card (pmm_free p')" using assms(2) by simp
  moreover have "map_ok r root (k\<lparr>k_pmm := p'\<rparr>)" by (rule map_ok_fewer [OF assms(1) a(2)]) (simp add: a(5))
  moreover have "phys \<in> pages_of (pmm_free (k_pmm k))" using a(3,4) by (simp add: pages_of_def block_ok_def)
  moreover have "phys \<notin> pages_of (pmm_free p')" using pages_of_diff a(5) by metis
  ultimately show ?thesis using a by blast
qed


text \<open>
  The scratch page of the fault handler: the frame of the page itself is mapped there, so the copy writes
  the frame with its own contents.
\<close>

lemma scratch_copy:
  assumes ok: "map_ok 510 (cur_cr3 k) k" and ur: "user_range k" and room: "3 * 4096 \<le> card (pmm_free (k_pmm k))"
    and pg: "mappable (vpath page)" "mmu_walk (k_mem k) (cur_cr3 k) page = Some phys"
    and ph: "phys_ok phys" "isPageAligned phys" "phys \<notin> pages_of (pmm_free (k_pmm k))" "\<not> is_table (k_mem k) (cur_cr3 k) phys"
  shows "\<exists>k'. bindE (allocateAddrSpace 1 User (k_cur k) k) (\<lambda>(scratch, k5).
                 bindE (mapAddress scratch phys 1 (PAGE_NX OR PAGE_USER OR PAGE_PRESENT) (k_cur k) k5) (\<lambda>k6.
                 bindE (page_copy (k_mem k6) (cur_cr3 k6) page scratch) (\<lambda>m.
                 bindE (unmapAddress scratch 1 False (k_cur k) (k6\<lparr>k_mem := m\<rparr>)) (\<lambda>(_, k7).
                 bindE (deallocateAddrSpace scratch 1 (k_cur k) k7) (\<lambda>(_, k8). Inr (True, k8)))))) = Inr (True, k') \<and>
    k_mem k' phys = k_mem k phys \<and> map_ok 510 (cur_cr3 k) k' \<and> cur_cr3 k' = cur_cr3 k \<and>
    (\<forall>u. mappable (vpath u) \<longrightarrow> mmu_walk (k_mem k') (cur_cr3 k) u = mmu_walk (k_mem k) (cur_cr3 k) u)"
proof -
  let ?cur = "k_cur k" and ?root = "cur_cr3 k" and ?fl = "PAGE_NX OR PAGE_USER OR PAGE_PRESENT"
  have sp: "space_ok User k" and rng: "ext_free (vmm_head User k) \<subseteq> {unat USER_ADDRSPACE_BASE..<unat USER_ADDRSPACE_END}"
    and low: "\<forall>v\<in>pages_of (ext_free (vmm_head User k)). indexPML4 v > 255 \<longrightarrow> ?fl AND PAGE_USER = 0"
    using ur by (auto simp: user_range_def)
  obtain e where "e \<in> set (vmm_head User k)" using ur by (cases "vmm_head User k") (auto simp: user_range_def)
  moreover have "1 \<le> e_size e" using sp calculation by (simp add: space_ok_def word_le_nat_alt unat_gt_0 Suc_le_eq)
  ultimately have fit: "\<exists>e\<in>set (vmm_head User k). 1 \<le> e_size e" by blast
  from allocateAddrSpace_ok [OF sp _ fit] obtain v x where
    al: "allocateAddrSpace 1 User ?cur k = Inr (v, put_vmm ?cur User x k)"
    and al': "extmm_allocate 1 (\<lambda>_ _. True) (as_vmm (k_as k ?cur) User) = Inr (v, x)"
    and v: "block_ok v 1" "v \<noteq> 0" "span v 1 \<subseteq> ext_free (vmm_head User k)"
    and x: "ext_free (x_head x) = ext_free (vmm_head User k) - span v 1" by auto
  let ?k5 = "put_vmm ?cur User x k"
  have vp: "v \<in> pages_of (ext_free (vmm_head User k))" using v by (simp add: pages_of_def block_ok_def)
  then have vm: "mappable (vpath v)" "mmu_walk (k_mem k) ?root v = None" using sp by (auto simp: space_ok_def)
  then have pv: "vpath page \<noteq> vpath v" using pg(2) by (auto simp: mmu_walk_path)
  have rf: "range_free v 1 ?fl ?k5"
    by (rule space_range_free [OF sp v(1) _ v(3) low]) (use room in simp_all)
  from mapAddress_ok [of ?k5, OF _ rf ph(2)] ok obtain k6 where
    m: "mapAddress v phys 1 ?fl ?cur ?k5 = Inr k6" "map_ok 510 ?root k6"
      "entries_written ?root ?cur (range_entries v (\<lambda>i. phys + ofsPages i OR (?fl OR PAGE_PRESENT)) (unat (1::u64))) (3 * unat (1::u64)) ?k5 k6"
    by auto
  have es: "range_entries v (\<lambda>i. phys + ofsPages i OR (?fl OR PAGE_PRESENT)) (unat (1::u64)) = [vpath v \<mapsto> phys OR (?fl OR PAGE_PRESENT)]"
    by (simp add: ofsPages_def fun_eq_iff)
  note m3 = m(3) [unfolded es]
  note same = same_but_mapsD [OF entries_writtenD(1) [OF m3], simplified]
  have e6: "pte (k_mem k6) ?root (vpath v) = Some (phys OR (?fl OR PAGE_PRESENT))" by (rule entries_writtenD(2) [OF m3]) simp
  have pr: "present (phys OR (?fl OR PAGE_PRESENT))" by (simp add: present_or present_flag)
  have fl: "(?fl OR PAGE_PRESENT) AND NOT (PAGE_NX OR 0xFFF) = 0"
    by (simp add: PAGE_NX_def PAGE_USER_def PAGE_PRESENT_def)
  have wv: "mmu_walk (k_mem k6) ?root v = Some phys"
    using e6 pr walk_pte [of "vpath v" "k_mem k6" ?root] PAGE_ALIGN_entry(2) [OF ph(1) fl] by (simp add: mmu_walk_path)
  have w6: "mmu_walk (k_mem k6) ?root u = mmu_walk (k_mem k) ?root u" if "mappable (vpath u)" "vpath u \<noteq> vpath v" for u
    using entries_writtenD(3) [OF m3 that(1)] that(2) by simp
  have pc: "page_copy (k_mem k6) (cur_cr3 k6) page v = Inr (k_mem k6)"
    using w6 [OF pg(1) pv] pg(2) wv same(1) by (simp add: page_copy_def)
  have al6: "isPageAligned v" using v(1) by (simp add: block_ok_def)
  have um: "\<exists>k'. unmapAddress v 1 False (k_cur k6) k6 = Inr ((), k') \<and> map_ok 510 (cur_cr3 k6) k' \<and>
    entries_written (cur_cr3 k6) (k_cur k6) (\<lambda>q. if q \<in> vpath ` set (page_seq v 1) then Some 0 else None) 0 k6 k'"
    by (rule unmapAddress_ok) (use m(2) same(1) al6 vm(1) e6 pr in \<open>simp_all add: page_seq_one\<close>)
  have ss: "(\<lambda>q. if q \<in> vpath ` set (page_seq v 1) then Some 0 else None) = [vpath v \<mapsto> (0::u64)]"
    by (auto simp: page_seq_one fun_eq_iff)
  from um [unfolded ss same(1,3)] obtain k7 where
    u: "unmapAddress v 1 False ?cur k6 = Inr ((), k7)" "map_ok 510 ?root k7" "entries_written ?root ?cur [vpath v \<mapsto> 0] 0 k6 k7" by blast
  note same7 = same_but_mapsD [OF entries_writtenD(1) [OF u(3)], unfolded same]
  have "pte (k_mem k7) ?root (vpath v) = Some 0" by (rule entries_writtenD(2) [OF u(3)]) simp
  then have wv7: "mmu_walk (k_mem k7) ?root v = None"
    using walk_pte [of "vpath v" "k_mem k7" ?root] by (simp add: mmu_walk_path present_def)
  have w7: "mmu_walk (k_mem k7) ?root u = mmu_walk (k_mem k) ?root u" if um: "mappable (vpath u)" for u
  proof (cases "vpath u = vpath v")
    case True
    then show ?thesis using wv7 vm(2) by (simp add: mmu_walk_path)
  next
    case False
    then show ?thesis using entries_writtenD(3) [OF u(3) um] w6 [OF um] by simp
  qed
  have vx: "as_vmm (k_as k7 ?cur) User = x" using same7(7) [of ?cur] by simp
  have "\<exists>x'. \<forall>newpage (w::kernel). extmm_deallocate newpage v 1 x w = Inr (x', w)"
    by (rule deallocate_after_allocate [OF _ _ _ al' _ v(2)]) (use sp x in \<open>auto simp: space_ok_def\<close>)
  then obtain x' where x': "\<And>newpage (w::kernel). extmm_deallocate newpage v 1 x w = Inr (x', w)" by blast
  have "unat v \<in> span v 1" "unat v + 4095 \<in> span v 1" by (simp_all add: span_one)
  with v(3) rng have b: "unat v \<in> {unat USER_ADDRSPACE_BASE..<unat USER_ADDRSPACE_END}"
    "unat v + 4095 \<in> {unat USER_ADDRSPACE_BASE..<unat USER_ADDRSPACE_END}" by blast+
  then have ga: "getAddrSpace v 1 = Inr User" by (intro getAddrSpace_user) simp_all
  have lk: "VmmLock ?cur User \<notin> set (k_locks k7)" using sp same7(2) by (simp add: space_ok_def)
  let ?k' = "put_vmm ?cur User x' k7"
  have "deallocateAddrSpace v 1 ?cur k7 = Inr ((), ?k')"
    unfolding deallocateAddrSpace_def space_free_def using al6 ga lk vx x'
    by (simp add: locked_free put_vmm_def upd_as_def)
  with al m(1) pc u(1) have res: "bindE (allocateAddrSpace 1 User ?cur k) (\<lambda>(scratch, k5).
                 bindE (mapAddress scratch phys 1 ?fl ?cur k5) (\<lambda>k6.
                 bindE (page_copy (k_mem k6) (cur_cr3 k6) page scratch) (\<lambda>m.
                 bindE (unmapAddress scratch 1 False ?cur (k6\<lparr>k_mem := m\<rparr>)) (\<lambda>(_, k7).
                 bindE (deallocateAddrSpace scratch 1 ?cur k7) (\<lambda>(_, k8). Inr (True, k8)))))) = Inr (True, ?k')" by simp
  have "k_mem k6 phys = k_mem k phys" "\<not> is_table (k_mem k6) ?root phys" "pmm_free (k_pmm k6) \<subseteq> pmm_free (k_pmm k)"
    using entries_written_page [OF m3, of phys] ph(3,4) by simp_all
  moreover have "phys \<notin> pages_of (pmm_free (k_pmm k6))" using ph(3) pages_of_mono [OF calculation(3)] by blast
  ultimately have "k_mem k7 phys = k_mem k phys" using entries_written_page(1) [OF u(3), of phys] by simp
  then show ?thesis using res u(2) w7 same7(1) by (intro exI [of _ ?k']) simp
qed

text \<open>The page after the write fault's remapping: a free frame is mapped and recorded, nothing else changed.\<close>

lemma write_fault_remap:
  assumes f: "fault_ok (PAGE_ALIGN cr2) e k" and pr: "present e" and ur: "user_range k" and room: "7 * 4096 \<le> card (pmm_free (k_pmm k))"
    and zero: "getZeroPage (k_pmm k) \<notin> pages_of (pmm_free (k_pmm k))"
  obtains phys k1 k2 old s k3 where
    "k_pmm_allocate 1 False k = Inr (phys, k1)"
    "mapAddressOverwrite (PAGE_ALIGN cr2) phys 1 ((e AND (PAGE_NX OR 0xFFF)) AND NOT PAGE_COPY_ON_WRITE OR PAGE_WRITE) (k_cur k) k1 = Inr k2"
    "addPhysicalMapping (PAGE_ALIGN cr2) phys (k_as k2 (k_cur k)) (k_shared k2) = Inr (old, s, k_shared k2)"
    "k3 = (upd_as (k_cur k) (\<lambda>_. s) k2)\<lparr>k_shared := k_shared k2\<rparr>"
    "getPhysAddr (PAGE_ALIGN cr2) (k_cur k) k3 = Inr (phys, k3)" "phys \<noteq> getZeroPage (k_pmm k3)"
    "map_ok 510 (cur_cr3 k3) k3" "user_range k3" "3 * 4096 \<le> card (pmm_free (k_pmm k3))"
    "cur_cr3 k3 = cur_cr3 k" "k_cur k3 = k_cur k"
    "phys \<in> pages_of (pmm_free (k_pmm k))" "phys \<notin> pages_of (pmm_free (k_pmm k3))" "\<not> is_table (k_mem k3) (cur_cr3 k) phys"
    "mmu_walk (k_mem k3) (cur_cr3 k) (PAGE_ALIGN cr2) = Some phys" "k_mem k3 phys = k_mem k phys"
    "\<And>u. mappable (vpath u) \<Longrightarrow> vpath u \<noteq> vpath (PAGE_ALIGN cr2) \<Longrightarrow> mmu_walk (k_mem k3) (cur_cr3 k) u = mmu_walk (k_mem k) (cur_cr3 k) u"
proof -
  let ?page = "PAGE_ALIGN cr2" and ?root = "cur_cr3 k" and ?cur = "k_cur k" and ?fl = "e AND (PAGE_NX OR 0xFFF)"
  let ?nfl = "?fl AND NOT PAGE_COPY_ON_WRITE OR PAGE_WRITE"
  have ok: "map_ok 510 ?root k" and v: "mappable (vpath ?page)" and e: "pte (k_mem k) ?root (vpath ?page) = Some e" "e AND PAGE_COPY_ON_WRITE \<noteq> 0"
    and user: "indexPML4 ?page > 255 \<Longrightarrow> e AND PAGE_USER = 0" and room0: "4 * 4096 \<le> card (pmm_free (k_pmm k))"
    and rg: "regions_ok (as_regions (k_as k ?cur))" "unat ?page \<in> cover (as_regions (k_as k ?cur))"
    using f by (auto simp: fault_ok_def)
  note ff = fault_flags [of e]
  from allocate_frame [OF ok room0] obtain phys p' where al: "k_pmm_allocate 1 False k = Inr (phys, k\<lparr>k_pmm := p'\<rparr>)"
    and ok1: "map_ok 510 ?root (k\<lparr>k_pmm := p'\<rparr>)" and ph: "phys \<in> pages_of (pmm_free (k_pmm k))" "phys \<notin> pages_of (pmm_free p')"
    and pf: "pmm_free p' = pmm_free (k_pmm k) - span phys 1" "p_zero p' = p_zero (k_pmm k)" by blast
  let ?k1 = "k\<lparr>k_pmm := p'\<rparr>"
  have c1: "cur_cr3 ?k1 = ?root" by (simp add: cur_cr3_def)
  have pa: "isPageAligned phys" "phys_ok phys" "\<not> is_table (k_mem k) ?root phys" "phys \<noteq> ?root" using ph(1) ok by (auto simp: pages_of_def map_ok_def)
  have "card (pmm_free (k_pmm k)) \<le> card (pmm_free p') + 4096"
    unfolding pf(1) using diff_card_le_card_Diff [of "span phys 1" "pmm_free (k_pmm k)"] by (simp add: span_one)
  then have room1: "6 * 4096 \<le> card (pmm_free (k_pmm ?k1))" using room by simp
  have nf: "(?nfl OR PAGE_PRESENT) AND NOT (PAGE_NX OR 0xFFF) = 0"
    using ff(4) by (simp add: and_or_zero) (simp add: PAGE_PRESENT_def PAGE_WRITE_def PAGE_NX_def)
  have nu: "indexPML4 ?page > 255 \<Longrightarrow> ?nfl AND PAGE_USER = 0"
    using user ff(5) by (simp add: and_or_zero) (simp add: PAGE_WRITE_def PAGE_USER_def)
  from mapAddressOverwrite_ok [of ?k1, OF _ v _ pa(1) nu] ok1 room1 c1 obtain k2 where
    m: "mapAddressOverwrite ?page phys 1 ?nfl ?cur ?k1 = Inr k2" "map_ok 510 ?root k2"
      "entries_written ?root ?cur [vpath ?page \<mapsto> phys OR (?nfl OR PAGE_PRESENT)] 3 ?k1 k2" by auto
  note same = same_but_mapsD [OF entries_writtenD(1) [OF m(3)], unfolded c1, simplified]
  have e2: "pte (k_mem k2) ?root (vpath ?page) = Some (phys OR (?nfl OR PAGE_PRESENT))" by (rule entries_writtenD(2) [OF m(3)]) simp
  have pe: "present (phys OR (?nfl OR PAGE_PRESENT))" by (simp add: present_or present_flag)
  have w2: "mmu_walk (k_mem k2) ?root ?page = Some phys"
    using e2 pe walk_pte [of "vpath ?page" "k_mem k2" ?root] PAGE_ALIGN_entry(2) [OF pa(2) nf] by (simp add: mmu_walk_path)
  have wo: "mmu_walk (k_mem k2) ?root u = mmu_walk (k_mem k) ?root u" if "mappable (vpath u)" "vpath u \<noteq> vpath ?page" for u
    using entries_writtenD(3) [OF m(3) that(1)] that(2) by simp
  note fresh = entries_written_page [OF m(3), of phys, simplified, OF pa(3) ph(2)]
  from addPhysicalMapping_ok [of "k_as k2 ?cur" ?page phys "k_shared k2"] rg same(6) [of ?cur] obtain old rs' where
    ap: "addPhysicalMapping ?page phys (k_as k2 ?cur) (k_shared k2) = Inr (old, (k_as k2 ?cur)\<lparr>as_regions := rs'\<rparr>, k_shared k2)"
      "cover rs' = cover (as_regions (k_as k ?cur))" by auto
  define k3 where "k3 = (upd_as ?cur (\<lambda>_. (k_as k2 ?cur)\<lparr>as_regions := rs'\<rparr>) k2)\<lparr>k_shared := k_shared k2\<rparr>"
  have c3: "cur_cr3 k3 = ?root" "k_mem k3 = k_mem k2" "k_pmm k3 = k_pmm k2" "k_locks k3 = k_locks k2" "k_cur k3 = ?cur"
      "as_regions (k_as k3 ?cur) = rs'" "as_vmm (k_as k3 ?cur) = as_vmm (k_as k2 ?cur)"
    using same(1,3) by (simp_all add: k3_def upd_as_def cur_cr3_def)
  have ok3: "map_ok 510 (cur_cr3 k3) k3" unfolding c3(1) using m(2) map_ok_cong [of k3 k2] same(1) c3 by simp
  have gp: "getPhysAddr ?page ?cur k3 = Inr (phys, k3)"
    using getPhysAddr_ok [OF ok3 v] e2 pe PAGE_ALIGN_entry(1) [OF pa(2) nf] unfolding c3 by simp
  have "phys \<noteq> getZeroPage (k_pmm k3)" using ph(1) zero same(10) pf(2) by (auto simp: getZeroPage_def c3)
  have ur3: "user_range k3"
  proof -
    have sp: "space_ok User k" using ur by (simp add: user_range_def)
    have "space_ok User k3"
    proof (rule space_ok_cong [OF sp])
      fix u assume u: "u \<in> pages_of (ext_free (vmm_head User k))"
      have "mmu_walk (k_mem k) ?root ?page \<noteq> None"
        using e(1) pr walk_pte [of "vpath ?page" "k_mem k" ?root] by (simp add: mmu_walk_path)
      then have "vpath u \<noteq> vpath ?page" using u sp by (auto simp: space_ok_def mmu_walk_path)
      then show "mmu_walk (k_mem k3) ?root u = mmu_walk (k_mem k) ?root u" using wo u sp by (auto simp: space_ok_def c3)
    qed (use ap(2) same(7) [of ?cur] in \<open>simp_all add: c3 same\<close>)
    then show ?thesis using ur same(7) [of ?cur] by (simp add: user_range_def c3)
  qed
  have room3: "3 * 4096 \<le> card (pmm_free (k_pmm k3))"
    using entries_written_bytes [OF m(3)] ok1 room1 by (simp add: c3 map_ok_def)
  have "phys \<notin> pages_of (pmm_free (k_pmm k3))" using ph(2) pages_of_mono [OF fresh(3)] unfolding c3 by auto
  moreover have "\<not> is_table (k_mem k3) ?root phys" "k_mem k3 phys = k_mem k phys" "mmu_walk (k_mem k3) ?root ?page = Some phys"
    using fresh w2 unfolding c3 by simp_all
  moreover have "mmu_walk (k_mem k3) ?root u = mmu_walk (k_mem k) ?root u" if "mappable (vpath u)" "vpath u \<noteq> vpath ?page" for u
    using wo that unfolding c3 by simp
  ultimately show thesis
    using that [OF al m(1) ap(1) k3_def gp \<open>phys \<noteq> getZeroPage (k_pmm k3)\<close> ok3 ur3 room3 c3(1,5) ph(1)] by blast
qed

text \<open>
  C24: A write to a present copy-on-write page of the current process is reported as resolved, but the new
  frame is neither a copy of the old one nor cleared: the handler reads the \<open>old\<close> frame after it has
  overwritten the entry, so it copies the new frame onto itself. The page then shows whatever the free
  frame contained before the fault.
\<close>

theorem write_fault_shows_stale_frame:
  assumes f: "fault_ok (PAGE_ALIGN cr2) e k" and ec: "errorCode AND 0x8 = 0" "errorCode AND 0x1 \<noteq> 0" "errorCode AND 0x2 \<noteq> 0"
    and pr: "present e" and ur: "user_range k" and room: "7 * 4096 \<le> card (pmm_free (k_pmm k))"
    and zero: "getZeroPage (k_pmm k) \<notin> pages_of (pmm_free (k_pmm k))"
  shows "\<exists>phys k'. handlePageFault cr2 errorCode k = Inr (True, k') \<and> phys \<in> pages_of (pmm_free (k_pmm k)) \<and>
    mmu_walk (k_mem k') (cur_cr3 k') (PAGE_ALIGN cr2) = Some phys \<and> k_mem k' phys = k_mem k phys \<and>
    (\<forall>u. mappable (vpath u) \<and> vpath u \<noteq> vpath (PAGE_ALIGN cr2) \<longrightarrow>
       mmu_walk (k_mem k') (cur_cr3 k') u = mmu_walk (k_mem k) (cur_cr3 k) u)"
proof -
  let ?page = "PAGE_ALIGN cr2" and ?root = "cur_cr3 k"
  have v: "mappable (vpath ?page)" and ok: "map_ok 510 ?root k" and e: "pte (k_mem k) ?root (vpath ?page) = Some e" "e AND PAGE_COPY_ON_WRITE \<noteq> 0"
    using f by (auto simp: fault_ok_def)
  note ff = fault_flags [of e]
  from write_fault_remap [OF f pr ur room zero] obtain phys k1 k2 old s k3 where
    r: "k_pmm_allocate 1 False k = Inr (phys, k1)"
      "mapAddressOverwrite ?page phys 1 ((e AND (PAGE_NX OR 0xFFF)) AND NOT PAGE_COPY_ON_WRITE OR PAGE_WRITE) (k_cur k) k1 = Inr k2"
      "addPhysicalMapping ?page phys (k_as k2 (k_cur k)) (k_shared k2) = Inr (old, s, k_shared k2)"
      "k3 = (upd_as (k_cur k) (\<lambda>_. s) k2)\<lparr>k_shared := k_shared k2\<rparr>"
      "getPhysAddr ?page (k_cur k) k3 = Inr (phys, k3)" "phys \<noteq> getZeroPage (k_pmm k3)"
    and k3: "map_ok 510 (cur_cr3 k3) k3" "user_range k3" "3 * 4096 \<le> card (pmm_free (k_pmm k3))" "cur_cr3 k3 = ?root" "k_cur k3 = k_cur k"
    and ph: "phys \<in> pages_of (pmm_free (k_pmm k))" "phys \<notin> pages_of (pmm_free (k_pmm k3))" "\<not> is_table (k_mem k3) ?root phys"
      "mmu_walk (k_mem k3) ?root ?page = Some phys" "k_mem k3 phys = k_mem k phys"
    and wo: "\<And>u. mappable (vpath u) \<Longrightarrow> vpath u \<noteq> vpath ?page \<Longrightarrow> mmu_walk (k_mem k3) ?root u = mmu_walk (k_mem k) ?root u"
    by blast
  have pa: "isPageAligned phys" "phys_ok phys" using ph(1) ok by (auto simp: pages_of_def map_ok_def)
  have "mmu_walk (k_mem k3) (cur_cr3 k3) ?page = Some phys" "\<not> is_table (k_mem k3) (cur_cr3 k3) phys" using ph(3,4) k3(4) by simp_all
  from scratch_copy [OF k3(1-3) v this(1) pa(2,1) ph(2) this(2)] obtain k' where
    k': "bindE (allocateAddrSpace 1 User (k_cur k) k3) (\<lambda>(scratch, k5).
                 bindE (mapAddress scratch phys 1 (PAGE_NX OR PAGE_USER OR PAGE_PRESENT) (k_cur k) k5) (\<lambda>k6.
                 bindE (page_copy (k_mem k6) (cur_cr3 k6) ?page scratch) (\<lambda>m.
                 bindE (unmapAddress scratch 1 False (k_cur k) (k6\<lparr>k_mem := m\<rparr>)) (\<lambda>(_, k7).
                 bindE (deallocateAddrSpace scratch 1 (k_cur k) k7) (\<lambda>(_, k8). Inr (True, k8)))))) = Inr (True, k')"
      "k_mem k' phys = k_mem k3 phys" "cur_cr3 k' = ?root"
      "\<And>u. mappable (vpath u) \<Longrightarrow> mmu_walk (k_mem k') ?root u = mmu_walk (k_mem k3) ?root u"
    unfolding k3(4,5) by blast
  have "handlePageFault cr2 errorCode k = Inr (True, k')"
    using getPageFlags_ok [OF ok v] e ff(1,2) pr ec r(1-3) r(5,6) [unfolded r(4)] k'(1) [unfolded r(4)]
    by (simp add: handlePageFault_def fault_write_def Let_def present_def)
  then show ?thesis
    using ph(1,4,5) k'(2-4) wo v by (intro exI [of _ phys] exI [of _ k']) auto
qed

lemma k_demo3_fault: "e AND PAGE_COPY_ON_WRITE \<noteq> 0 \<Longrightarrow> fault_ok 0x1000 e (k_demo3 e)"
  using k_demo3_ok [of e]
  by (simp add: fault_ok_def k_demo3_walk demo_regions_ok isPageAligned_def) (simp add: mappable_vpath indexPML4_def mappable_def)


theorem write_fault_shows_stale_frame_witness:
  "\<exists>phys k'. handlePageFault 0x1234 7 (k_demo3 0x9205) = Inr (True, k') \<and> mmu_walk (k_mem k') (cur_cr3 k') 0x1000 = Some phys \<and>
     k_mem k' phys = demo_mem 0x9205 phys"
proof -
  have p: "PAGE_ALIGN 0x1234 = 0x1000" by (simp add: PAGE_ALIGN_def)
  have "fault_ok 0x1000 0x9205 (k_demo3 0x9205)" by (rule k_demo3_fault) (simp add: PAGE_COPY_ON_WRITE_def)
  moreover have "0x9000 \<notin> pages_of {0x10000..<0x20000}"
    by (auto simp: pages_of_def span_one)
  ultimately show ?thesis
    using write_fault_shows_stale_frame [of "0x1234" "0x9205" "k_demo3 0x9205" 7] k_demo3_space(2) [of "0x9205"]
    by (auto simp: p present_def PAGE_PRESENT_def demo_regions_ok)
qed

end
