(* ===== verification/Treelike.thy ===== *)
theory Treelike
  imports Prelude "HOL-Library.Tree"
begin

text \<open>
  The ordered map of the kernel's runtime library: \<^verbatim>\<open>krt/types/impl/treelike.h\<close> (an AVL tree with parent
  pointers) and its container \<^verbatim>\<open>krt/types/treemap.h\<close>. Nodes are objects in a heap, pointers are optional
  addresses. Every step of the code that reads or writes through a pointer does so here too: a null pointer
  is \<open>Fault 0\<close>, a node that was freed is \<open>OutOfBounds\<close>. The allocator hands out an address that was not used
  before. Loops along pointers get the number of addresses handed out as a bound, which no path in a tree
  exceeds; the theorems show that the bound is never reached.
\<close>

section \<open>Nodes and the container\<close>

type_synonym nptr = "nat option"

record ('k, 'v) tnode =
  n_key :: 'k
  n_value :: 'v
  n_left :: nptr
  n_right :: nptr
  n_parent :: nptr
  n_height :: int
  n_balance :: int

record ('k, 'v) treemap =
  t_heap :: "nat \<Rightarrow> ('k, 'v) tnode option"
  t_next :: nat
  t_root :: nptr
  t_cnt :: u64

definition treemap_new :: "('k, 'v) treemap" where
  "treemap_new = \<lparr>t_heap = (\<lambda>_. None), t_next = 1, t_root = None, t_cnt = 0\<rparr>"

definition deref :: "nptr \<Rightarrow> ('k, 'v) treemap \<Rightarrow> ('k, 'v) tnode res" where
  "deref p m = (case p of None \<Rightarrow> Inl (Fault 0)
     | Some a \<Rightarrow> (case t_heap m a of None \<Rightarrow> Inl OutOfBounds | Some n \<Rightarrow> Inr n))"

definition modify :: "nptr \<Rightarrow> (('k, 'v) tnode \<Rightarrow> ('k, 'v) tnode) \<Rightarrow> ('k, 'v) treemap \<Rightarrow> ('k, 'v) treemap res" where
  "modify p f m = bindE (deref p m) (\<lambda>n. Inr (m\<lparr>t_heap := (t_heap m)(the p \<mapsto> f n)\<rparr>))"

definition createNode :: "'k \<Rightarrow> 'v \<Rightarrow> nptr \<Rightarrow> ('k, 'v) treemap \<Rightarrow> nptr \<times> ('k, 'v) treemap" where
  "createNode k v p m =
     (Some (t_next m),
      m\<lparr>t_heap := (t_heap m)(t_next m \<mapsto> \<lparr>n_key = k, n_value = v, n_left = None, n_right = None, n_parent = p, n_height = 0, n_balance = 0\<rparr>),
        t_next := Suc (t_next m)\<rparr>)"

section \<open>Balancing\<close>

definition node_height :: "nptr \<Rightarrow> ('k, 'v) treemap \<Rightarrow> int res" where
  "node_height p m = (if p = None then Inr (- 1) else bindE (deref p m) (\<lambda>n. Inr (n_height n)))"

definition setHeight :: "nptr \<Rightarrow> ('k, 'v) treemap \<Rightarrow> ('k, 'v) treemap res" where
  "setHeight p m =
     (if p = None then Inr m
      else bindE (deref p m) (\<lambda>n.
           bindE (node_height (n_left n) m) (\<lambda>hl.
           bindE (node_height (n_right n) m) (\<lambda>hr.
             modify p (n_height_update (\<lambda>_. 1 + max hl hr)) m))))"

definition setBalance :: "nptr \<Rightarrow> ('k, 'v) treemap \<Rightarrow> ('k, 'v) treemap res" where
  "setBalance p m =
     bindE (setHeight p m) (\<lambda>m1.
     bindE (deref p m1) (\<lambda>n.
     bindE (node_height (n_right n) m1) (\<lambda>hr.
     bindE (node_height (n_left n) m1) (\<lambda>hl.
       modify p (n_balance_update (\<lambda>_. hr - hl)) m1))))"

text \<open>The child pointer of the parent of \<open>b\<close>, which a rotation redirects from \<open>a\<close> to \<open>b\<close>.\<close>

definition relink :: "nptr \<Rightarrow> nptr \<Rightarrow> ('k, 'v) treemap \<Rightarrow> ('k, 'v) treemap res" where
  "relink a b m =
     bindE (deref b m) (\<lambda>nb.
     if n_parent nb \<noteq> None
     then bindE (deref (n_parent nb) m) (\<lambda>np.
          if n_right np = a then modify (n_parent nb) (n_right_update (\<lambda>_. b)) m
          else modify (n_parent nb) (n_left_update (\<lambda>_. b)) m)
     else Inr m)"

text \<open>The pointer part of \<^verbatim>\<open>rotateLeft\<close>: the right child takes the place of \<open>a\<close>.\<close>

definition swingLeft :: "nptr \<Rightarrow> ('k, 'v) treemap \<Rightarrow> (nptr \<times> ('k, 'v) treemap) res" where
  "swingLeft a m =
     bindE (deref a m) (\<lambda>na.
     let b = n_right na
     in bindE (modify b (n_parent_update (\<lambda>_. n_parent na)) m) (\<lambda>m1.
        bindE (deref b m1) (\<lambda>nb.
        let c = n_left nb
        in bindE (modify a (n_right_update (\<lambda>_. c)) m1) (\<lambda>m2.
           bindE (if c \<noteq> None then modify c (n_parent_update (\<lambda>_. a)) m2 else Inr m2) (\<lambda>m3.
           bindE (modify b (n_left_update (\<lambda>_. a)) m3) (\<lambda>m4.
           bindE (modify a (n_parent_update (\<lambda>_. b)) m4) (\<lambda>m5.
           bindE (relink a b m5) (\<lambda>m6. Inr (b, m6)))))))))"

definition rotateLeft :: "nptr \<Rightarrow> ('k, 'v) treemap \<Rightarrow> (nptr \<times> ('k, 'v) treemap) res" where
  "rotateLeft a m =
     bindE (swingLeft a m) (\<lambda>(b, m1).
     bindE (setBalance a m1) (\<lambda>m2.
     bindE (setBalance b m2) (\<lambda>m3. Inr (b, m3))))"

text \<open>The pointer part of \<^verbatim>\<open>rotateRight\<close>: the left child takes the place of \<open>a\<close>.\<close>

definition swingRight :: "nptr \<Rightarrow> ('k, 'v) treemap \<Rightarrow> (nptr \<times> ('k, 'v) treemap) res" where
  "swingRight a m =
     bindE (deref a m) (\<lambda>na.
     let b = n_left na
     in bindE (modify b (n_parent_update (\<lambda>_. n_parent na)) m) (\<lambda>m1.
        bindE (deref b m1) (\<lambda>nb.
        let c = n_right nb
        in bindE (modify a (n_left_update (\<lambda>_. c)) m1) (\<lambda>m2.
           bindE (if c \<noteq> None then modify c (n_parent_update (\<lambda>_. a)) m2 else Inr m2) (\<lambda>m3.
           bindE (modify b (n_right_update (\<lambda>_. a)) m3) (\<lambda>m4.
           bindE (modify a (n_parent_update (\<lambda>_. b)) m4) (\<lambda>m5.
           bindE (relink a b m5) (\<lambda>m6. Inr (b, m6)))))))))"

definition rotateRight :: "nptr \<Rightarrow> ('k, 'v) treemap \<Rightarrow> (nptr \<times> ('k, 'v) treemap) res" where
  "rotateRight a m =
     bindE (swingRight a m) (\<lambda>(b, m1).
     bindE (setBalance a m1) (\<lambda>m2.
     bindE (setBalance b m2) (\<lambda>m3. Inr (b, m3))))"

definition rotateLeftThenRight :: "nptr \<Rightarrow> ('k, 'v) treemap \<Rightarrow> (nptr \<times> ('k, 'v) treemap) res" where
  "rotateLeftThenRight n m =
     bindE (deref n m) (\<lambda>nn.
     bindE (rotateLeft (n_left nn) m) (\<lambda>(b, m1).
     bindE (modify n (n_left_update (\<lambda>_. b)) m1) (rotateRight n)))"

definition rotateRightThenLeft :: "nptr \<Rightarrow> ('k, 'v) treemap \<Rightarrow> (nptr \<times> ('k, 'v) treemap) res" where
  "rotateRightThenLeft n m =
     bindE (deref n m) (\<lambda>nn.
     bindE (rotateRight (n_right nn) m) (\<lambda>(b, m1).
     bindE (modify n (n_right_update (\<lambda>_. b)) m1) (rotateLeft n)))"

definition rebalance_node :: "nptr \<Rightarrow> ('k, 'v) treemap \<Rightarrow> (nptr \<times> ('k, 'v) treemap) res" where
  "rebalance_node n m =
     bindE (setBalance n m) (\<lambda>m1.
     bindE (deref n m1) (\<lambda>nn.
     if n_balance nn = - 2
     then bindE (deref (n_left nn) m1) (\<lambda>l.
          bindE (node_height (n_left l) m1) (\<lambda>hl.
          bindE (node_height (n_right l) m1) (\<lambda>hr.
          if hl \<ge> hr then rotateRight n m1 else rotateLeftThenRight n m1)))
     else if n_balance nn = 2
     then bindE (deref (n_right nn) m1) (\<lambda>r.
          bindE (node_height (n_right r) m1) (\<lambda>hr.
          bindE (node_height (n_left r) m1) (\<lambda>hl.
          if hr \<ge> hl then rotateLeft n m1 else rotateRightThenLeft n m1)))
     else Inr (n, m1)))"

fun rebalance :: "nat \<Rightarrow> nptr \<Rightarrow> ('k, 'v) treemap \<Rightarrow> ('k, 'v) treemap res" where
  "rebalance 0 n m = Inl loop_error"
| "rebalance (Suc fuel) n m =
     (if n = None then Inr m
      else bindE (rebalance_node n m) (\<lambda>(n', m').
           bindE (deref n' m') (\<lambda>nn.
           if n_parent nn \<noteq> None then rebalance fuel (n_parent nn) m'
           else Inr (m'\<lparr>t_root := n'\<rparr>))))"

section \<open>Looking up and inserting\<close>

fun find_from :: "nat \<Rightarrow> 'k::linorder \<Rightarrow> nptr \<Rightarrow> ('k, 'v) treemap \<Rightarrow> nptr res" where
  "find_from 0 k n m = Inl loop_error"
| "find_from (Suc fuel) k n m =
     (if n = None then Inr None
      else bindE (deref n m) (\<lambda>nn.
           if n_key nn = k then Inr n
           else find_from fuel k (if k < n_key nn then n_left nn else n_right nn) m))"

definition tree_find :: "'k::linorder \<Rightarrow> ('k, 'v) treemap \<Rightarrow> nptr res" where
  "tree_find k m = find_from (Suc (t_next m)) k (t_root m) m"

fun insert_from :: "nat \<Rightarrow> 'k::linorder \<Rightarrow> 'v \<Rightarrow> nptr \<Rightarrow> ('k, 'v) treemap \<Rightarrow> (bool \<times> ('k, 'v) treemap) res" where
  "insert_from 0 k v n m = Inl loop_error"
| "insert_from (Suc fuel) k v n m =
     bindE (deref n m) (\<lambda>nn.
     if n_key nn = k then Inr (False, m)
     else let goLeft = k < n_key nn; n' = (if goLeft then n_left nn else n_right nn)
          in if n' = None
             then let (newnode, m1) = createNode k v n m
                  in bindE (if goLeft then modify n (n_left_update (\<lambda>_. newnode)) m1 else modify n (n_right_update (\<lambda>_. newnode)) m1) (\<lambda>m2.
                     bindE (rebalance (Suc (t_next m2)) n m2) (\<lambda>m3. Inr (True, m3)))
             else insert_from fuel k v n' m)"

definition tree_insert :: "'k::linorder \<Rightarrow> 'v \<Rightarrow> ('k, 'v) treemap \<Rightarrow> (bool \<times> ('k, 'v) treemap) res" where
  "tree_insert k v m =
     bindE (if t_root m = None
            then let (n, m1) = createNode k v None m in Inr (True, m1\<lparr>t_root := n\<rparr>)
            else insert_from (t_next m) k v (t_root m) m) (\<lambda>(done, m').
     Inr (done, if done then m'\<lparr>t_cnt := t_cnt m' + 1\<rparr> else m'))"

fun findOrInsert_from :: "nat \<Rightarrow> 'v \<Rightarrow> 'k::linorder \<Rightarrow> nptr \<Rightarrow> ('k, 'v) treemap \<Rightarrow> (nptr \<times> ('k, 'v) treemap) res" where
  "findOrInsert_from 0 d k p m = Inl loop_error"
| "findOrInsert_from (Suc fuel) d k p m =
     bindE (deref p m) (\<lambda>np.
     if n_key np = k then Inr (p, m)
     else let n = (if k < n_key np then n_left np else n_right np)
          in if n \<noteq> None then findOrInsert_from fuel d k n m
             else if k < n_key np
             then let (newnode, m1) = createNode k d p m
                  in bindE (modify p (n_left_update (\<lambda>_. newnode)) m1) (\<lambda>m2.
                     bindE (rebalance (Suc (t_next m2)) p (m2\<lparr>t_cnt := t_cnt m2 + 1\<rparr>)) (\<lambda>m3.
                     bindE (deref p m3) (\<lambda>np'. Inr (n_left np', m3))))
             else let (newnode, m1) = createNode k d p m
                  in bindE (modify p (n_right_update (\<lambda>_. newnode)) m1) (\<lambda>m2.
                     bindE (rebalance (Suc (t_next m2)) p (m2\<lparr>t_cnt := t_cnt m2 + 1\<rparr>)) (\<lambda>m3.
                     bindE (deref p m3) (\<lambda>np'. Inr (n_right np', m3)))))"

definition findOrInsertDefault :: "'v \<Rightarrow> 'k::linorder \<Rightarrow> ('k, 'v) treemap \<Rightarrow> (nptr \<times> ('k, 'v) treemap) res" where
  "findOrInsertDefault d k m =
     (if t_root m = None
      then let (n, m1) = createNode k d None m in Inr (n, m1\<lparr>t_root := n, t_cnt := t_cnt m1 + 1\<rparr>)
      else findOrInsert_from (t_next m) d k (t_root m) m)"

text \<open>The value \<^verbatim>\<open>m[k]\<close> refers to; \<open>d\<close> is the default value of the type.\<close>

definition tree_subscript :: "'v \<Rightarrow> 'k::linorder \<Rightarrow> ('k, 'v) treemap \<Rightarrow> ('v \<times> ('k, 'v) treemap) res" where
  "tree_subscript d k m =
     bindE (findOrInsertDefault d k m) (\<lambda>(n, m1). bindE (deref n m1) (\<lambda>nn. Inr (n_value nn, m1)))"

section \<open>Removing\<close>

fun destroyNode :: "nat \<Rightarrow> nptr \<Rightarrow> ('k, 'v) treemap \<Rightarrow> ('k, 'v) treemap res" where
  "destroyNode 0 n m = Inl loop_error"
| "destroyNode (Suc fuel) n m =
     (if n = None then Inr m
      else bindE (deref n m) (\<lambda>nn.
           bindE (destroyNode fuel (n_left nn) m) (\<lambda>m1.
           bindE (destroyNode fuel (n_right nn) m1) (\<lambda>m2.
             Inr (m2\<lparr>t_heap := (t_heap m2)(the n := None)\<rparr>)))))"

fun rightmost :: "nat \<Rightarrow> nptr \<Rightarrow> ('k, 'v) treemap \<Rightarrow> nptr res" where
  "rightmost 0 n m = Inl loop_error"
| "rightmost (Suc fuel) n m = bindE (deref n m) (\<lambda>nn. if n_right nn \<noteq> None then rightmost fuel (n_right nn) m else Inr n)"

fun leftmost :: "nat \<Rightarrow> nptr \<Rightarrow> ('k, 'v) treemap \<Rightarrow> nptr res" where
  "leftmost 0 n m = Inl loop_error"
| "leftmost (Suc fuel) n m = bindE (deref n m) (\<lambda>nn. if n_left nn \<noteq> None then leftmost fuel (n_left nn) m else Inr n)"

definition move_data :: "nptr \<Rightarrow> nptr \<Rightarrow> ('k, 'v) treemap \<Rightarrow> ('k, 'v) treemap res" where
  "move_data child node m =
     bindE (deref child m) (\<lambda>nc. modify node (\<lambda>n. n\<lparr>n_key := n_key nc, n_value := n_value nc\<rparr>) m)"

definition delete_leaf :: "nptr \<Rightarrow> ('k, 'v) treemap \<Rightarrow> ('k, 'v) treemap res" where
  "delete_leaf node m =
     bindE (deref node m) (\<lambda>nn.
     let m0 = m\<lparr>t_cnt := t_cnt m - 1\<rparr>
     in if n_parent nn = None
        then bindE (destroyNode (Suc (t_next m)) (t_root m0) m0) (\<lambda>m1. Inr (m1\<lparr>t_root := None\<rparr>))
        else let parent = n_parent nn
             in bindE (deref parent m0) (\<lambda>np.
                bindE (if n_left np \<noteq> None \<and> n_left np = node
                       then bindE (destroyNode (Suc (t_next m)) (n_left np) m0) (modify parent (n_left_update (\<lambda>_. None)))
                       else if n_right np \<noteq> None
                       then bindE (destroyNode (Suc (t_next m)) (n_right np) m0) (modify parent (n_right_update (\<lambda>_. None)))
                       else Inr m0) (\<lambda>m1.
                bindE (deref parent m1) (\<lambda>np1. rebalance (Suc (t_next m)) (n_parent np1) m1))))"

fun deleteNode :: "nat \<Rightarrow> nptr \<Rightarrow> ('k, 'v) treemap \<Rightarrow> ('k, 'v) treemap res" where
  "deleteNode 0 node m = Inl loop_error"
| "deleteNode (Suc fuel) node m =
     (if node = None then Inr m
      else bindE (deref node m) (\<lambda>nn.
           if n_left nn = None \<and> n_right nn = None then delete_leaf node m
           else if n_left nn \<noteq> None
           then bindE (rightmost (t_next m) (n_left nn) m) (\<lambda>child.
                bindE (move_data child node m) (deleteNode fuel child))
           else bindE (leftmost (t_next m) (n_right nn) m) (\<lambda>child.
                bindE (move_data child node m) (deleteNode fuel child))))"

fun remove_from :: "nat \<Rightarrow> 'k::linorder \<Rightarrow> nptr \<Rightarrow> ('k, 'v) treemap \<Rightarrow> (bool \<times> ('k, 'v) treemap) res" where
  "remove_from 0 k child m = Inl loop_error"
| "remove_from (Suc fuel) k child m =
     (if child = None then Inr (False, m)
      else bindE (deref child m) (\<lambda>nn.
           if k = n_key nn then bindE (deleteNode (t_next m) child m) (\<lambda>m1. Inr (True, m1))
           else remove_from fuel k (if k < n_key nn then n_left nn else n_right nn) m))"

definition tree_remove :: "'k::linorder \<Rightarrow> ('k, 'v) treemap \<Rightarrow> (bool \<times> ('k, 'v) treemap) res" where
  "tree_remove k m = (if t_root m = None then Inr (False, m) else remove_from (Suc (t_next m)) k (t_root m) m)"

section \<open>Iterating, copying and clearing\<close>

fun climb :: "nat \<Rightarrow> nptr \<Rightarrow> ('k, 'v) treemap \<Rightarrow> nptr res" where
  "climb 0 succ m = Inl loop_error"
| "climb (Suc fuel) succ m =
     bindE (deref succ m) (\<lambda>ns.
     if n_parent ns = None then Inr None
     else bindE (deref (n_parent ns) m) (\<lambda>np.
          if succ = n_right np then climb fuel (n_parent ns) m else Inr (n_parent ns)))"

definition tree_successor :: "nptr \<Rightarrow> ('k, 'v) treemap \<Rightarrow> nptr res" where
  "tree_successor n m =
     (if n = None then Inr None
      else bindE (deref n m) (\<lambda>nn.
           if n_right nn \<noteq> None then leftmost (t_next m) (n_right nn) m
           else if n_parent nn \<noteq> None
           then bindE (deref (n_parent nn) m) (\<lambda>np.
                if n = n_left np then Inr (n_parent nn) else climb (t_next m) n m)
           else Inr None))"

definition tree_begin :: "('k, 'v) treemap \<Rightarrow> nptr res" where
  "tree_begin m = (if t_root m = None then Inr None else leftmost (t_next m) (t_root m) m)"

fun copyNode :: "nat \<Rightarrow> nptr \<Rightarrow> ('k, 'v) treemap \<Rightarrow> (nptr \<times> ('k, 'v) treemap) res" where
  "copyNode 0 n m = Inl loop_error"
| "copyNode (Suc fuel) n m =
     (if n = None then Inr (None, m)
      else bindE (deref n m) (\<lambda>nn.
           let (ret, m1) = createNode (n_key nn) (n_value nn) (n_parent nn) m
           in bindE (copyNode fuel (n_left nn) m1) (\<lambda>(l, m2).
              bindE (modify ret (n_left_update (\<lambda>_. l)) m2) (\<lambda>m3.
              bindE (copyNode fuel (n_right nn) m3) (\<lambda>(r, m4).
              bindE (modify ret (n_right_update (\<lambda>_. r)) m4) (\<lambda>m5. Inr (ret, m5)))))))"

text \<open>The copy constructor; the result is the new container, in the same heap.\<close>

definition tree_copy :: "('k, 'v) treemap \<Rightarrow> ('k, 'v) treemap res" where
  "tree_copy m = bindE (copyNode (Suc (t_next m)) (t_root m) m) (\<lambda>(r, m1). Inr (m1\<lparr>t_root := r\<rparr>))"

definition tree_clear :: "('k, 'v) treemap \<Rightarrow> ('k, 'v) treemap res" where
  "tree_clear m = destroyNode (Suc (t_next m)) (t_root m) (m\<lparr>t_cnt := 0\<rparr>)"

definition tree_erase :: "nptr \<Rightarrow> ('k, 'v) treemap \<Rightarrow> ('k, 'v) treemap res" where
  "tree_erase it m = (if it \<noteq> None then deleteNode (t_next m) it m else Inr m)"

definition tree_size :: "('k, 'v) treemap \<Rightarrow> u64" where
  "tree_size m = t_cnt m"

definition tree_empty :: "('k, 'v) treemap \<Rightarrow> bool" where
  "tree_empty m \<longleftrightarrow> t_cnt m = 0"

section \<open>Trees in the heap\<close>

text \<open>
  The abstract tree carries everything a node stores except the pointers and the balance: its address, key,
  value and stored height. A context is the path from a subtree to the root, innermost step first.
\<close>

type_synonym ('k, 'v) cell = "nat \<times> 'k \<times> 'v \<times> int"
type_synonym ('k, 'v) atree = "('k, 'v) cell tree"

datatype ('k, 'v) frame = LFrame "('k, 'v) cell" "('k, 'v) atree" | RFrame "('k, 'v) atree" "('k, 'v) cell"

fun frame_cell :: "('k, 'v) frame \<Rightarrow> ('k, 'v) cell" where
  "frame_cell (LFrame x r) = x"
| "frame_cell (RFrame l x) = x"

fun sibling :: "('k, 'v) frame \<Rightarrow> ('k, 'v) atree" where
  "sibling (LFrame x r) = r"
| "sibling (RFrame l x) = l"

fun plug1 :: "('k, 'v) atree \<Rightarrow> ('k, 'v) frame \<Rightarrow> ('k, 'v) atree" where
  "plug1 t (LFrame x r) = Node t x r"
| "plug1 t (RFrame l x) = Node l x t"

fun plug :: "('k, 'v) atree \<Rightarrow> ('k, 'v) frame list \<Rightarrow> ('k, 'v) atree" where
  "plug t [] = t"
| "plug t (f # c) = plug (plug1 t f) c"

fun root :: "('k, 'v) atree \<Rightarrow> nptr" where
  "root Leaf = None"
| "root (Node l x r) = Some (fst x)"

fun par :: "('k, 'v) frame list \<Rightarrow> nptr" where
  "par [] = None"
| "par (f # c) = Some (fst (frame_cell f))"

abbreviation addrs :: "('k, 'v) atree \<Rightarrow> nat set" where
  "addrs t \<equiv> fst ` set_tree t"

definition frame_addrs :: "('k, 'v) frame \<Rightarrow> nat set" where
  "frame_addrs f = insert (fst (frame_cell f)) (addrs (sibling f))"

fun ctx_addrs :: "('k, 'v) frame list \<Rightarrow> nat set" where
  "ctx_addrs [] = {}"
| "ctx_addrs (f # c) = frame_addrs f \<union> ctx_addrs c"

definition is_node :: "('k, 'v) treemap \<Rightarrow> nat \<Rightarrow> 'k \<Rightarrow> 'v \<Rightarrow> nptr \<Rightarrow> nptr \<Rightarrow> nptr \<Rightarrow> int \<Rightarrow> bool" where
  "is_node m a k v l r p h \<longleftrightarrow>
     (\<exists>b. t_heap m a = Some \<lparr>n_key = k, n_value = v, n_left = l, n_right = r, n_parent = p, n_height = h, n_balance = b\<rparr>)"

fun treep :: "('k, 'v) treemap \<Rightarrow> nptr \<Rightarrow> ('k, 'v) atree \<Rightarrow> bool" where
  "treep m p Leaf \<longleftrightarrow> True"
| "treep m p (Node l (a, k, v, h) r) \<longleftrightarrow>
     is_node m a k v (root l) (root r) p h \<and> treep m (Some a) l \<and> treep m (Some a) r \<and>
     a \<notin> addrs l \<and> a \<notin> addrs r \<and> addrs l \<inter> addrs r = {}"

fun framep :: "('k, 'v) treemap \<Rightarrow> nptr \<Rightarrow> nptr \<Rightarrow> ('k, 'v) frame \<Rightarrow> bool" where
  "framep m hole p (LFrame (a, k, v, h) r) \<longleftrightarrow> is_node m a k v hole (root r) p h \<and> treep m (Some a) r \<and> a \<notin> addrs r"
| "framep m hole p (RFrame l (a, k, v, h)) \<longleftrightarrow> is_node m a k v (root l) hole p h \<and> treep m (Some a) l \<and> a \<notin> addrs l"

fun ctxp :: "('k, 'v) treemap \<Rightarrow> nptr \<Rightarrow> ('k, 'v) frame list \<Rightarrow> bool" where
  "ctxp m hole [] \<longleftrightarrow> True"
| "ctxp m hole (f # c) \<longleftrightarrow> framep m hole (par c) f \<and> ctxp m (par (f # c)) c \<and> frame_addrs f \<inter> ctx_addrs c = {}"

text \<open>The whole picture: the subtree, its context, and no address twice.\<close>

definition zipp :: "('k, 'v) treemap \<Rightarrow> ('k, 'v) atree \<Rightarrow> ('k, 'v) frame list \<Rightarrow> bool" where
  "zipp m t c \<longleftrightarrow> treep m (par c) t \<and> ctxp m (root t) c \<and> addrs t \<inter> ctx_addrs c = {}"

lemma addrs_plug1: "addrs (plug1 t f) = addrs t \<union> frame_addrs f"
  by (cases f) (auto simp: frame_addrs_def)

lemma addrs_plug: "addrs (plug t c) = addrs t \<union> ctx_addrs c"
  by (induction c arbitrary: t) (auto simp: addrs_plug1)

lemma root_plug1 [simp]: "root (plug1 t f) = Some (fst (frame_cell f))"
  by (cases f) simp_all

lemma zipp_up: "zipp m t (f # c) \<longleftrightarrow> zipp m (plug1 t f) c"
proof (cases f)
  case (LFrame x r)
  obtain a k v h where x: "x = (a, k, v, h)" by (metis prod_cases4)
  show ?thesis by (auto simp: zipp_def LFrame x frame_addrs_def)
next
  case (RFrame l x)
  obtain a k v h where x: "x = (a, k, v, h)" by (metis prod_cases4)
  show ?thesis by (auto simp: zipp_def RFrame x frame_addrs_def)
qed

lemma zipp_plug: "zipp m t c \<longleftrightarrow> treep m None (plug t c)"
proof (induction c arbitrary: t)
  case Nil
  then show ?case by (simp add: zipp_def)
next
  case (Cons f c)
  then show ?case by (simp add: zipp_up)
qed

lemma treep_cong: "\<forall>a\<in>addrs t. t_heap m' a = t_heap m a \<Longrightarrow> treep m' p t \<longleftrightarrow> treep m p t"
proof (induction t arbitrary: p)
  case (Node l x r)
  obtain a k v h where x: "x = (a, k, v, h)" by (metis prod_cases4)
  have "treep m' (Some a) l \<longleftrightarrow> treep m (Some a) l" "treep m' (Some a) r \<longleftrightarrow> treep m (Some a) r"
    using Node.prems by (intro Node.IH; simp)+
  then show ?case using Node.prems by (simp add: x is_node_def)
qed simp

lemma framep_cong: "\<forall>a\<in>frame_addrs f. t_heap m' a = t_heap m a \<Longrightarrow> framep m' q p f \<longleftrightarrow> framep m q p f"
  using treep_cong [of "sibling f" m' m "Some (fst (frame_cell f))"]
  by (cases "(m, q, p, f)" rule: framep.cases) (simp_all add: is_node_def frame_addrs_def)

lemma ctxp_cong: "\<forall>a\<in>ctx_addrs c. t_heap m' a = t_heap m a \<Longrightarrow> ctxp m' q c \<longleftrightarrow> ctxp m q c"
proof (induction c arbitrary: q)
  case (Cons f c)
  have "ctxp m' (par (f # c)) c \<longleftrightarrow> ctxp m (par (f # c)) c" using Cons.prems by (intro Cons.IH) simp
  then show ?case using Cons.prems framep_cong [of f m' m q "par c"] by simp
qed simp

fun sh :: "('k, 'v) atree \<Rightarrow> int" where
  "sh Leaf = - 1"
| "sh (Node l (a, k, v, h) r) = h"

fun mk :: "('k, 'v) atree \<Rightarrow> ('k, 'v) cell \<Rightarrow> ('k, 'v) atree \<Rightarrow> ('k, 'v) atree" where
  "mk l (a, k, v, h) r = Node l (a, k, v, 1 + max (sh l) (sh r)) r"

definition keeps :: "nat set \<Rightarrow> ('k, 'v) treemap \<Rightarrow> ('k, 'v) treemap \<Rightarrow> bool" where
  "keeps A m m' \<longleftrightarrow> t_next m' = t_next m \<and> t_root m' = t_root m \<and> t_cnt m' = t_cnt m \<and> (\<forall>a. a \<notin> A \<longrightarrow> t_heap m' a = t_heap m a)"

lemma keeps_trans: "keeps A m m1 \<Longrightarrow> keeps A m1 m2 \<Longrightarrow> keeps A m m2"
  by (simp add: keeps_def)

lemma keeps_mono: "keeps A m m' \<Longrightarrow> A \<subseteq> B \<Longrightarrow> keeps B m m'"
  by (auto simp: keeps_def)

lemma treep_upd [simp]: "a \<notin> addrs t \<Longrightarrow> treep (m\<lparr>t_heap := g(a := z)\<rparr>) p t \<longleftrightarrow> treep (m\<lparr>t_heap := g\<rparr>) p t"
  by (rule treep_cong) auto

lemma ctxp_upd [simp]: "a \<notin> ctx_addrs c \<Longrightarrow> ctxp (m\<lparr>t_heap := g(a := z)\<rparr>) q c \<longleftrightarrow> ctxp (m\<lparr>t_heap := g\<rparr>) q c"
  by (rule ctxp_cong) auto

lemma heap_id [simp]: "m\<lparr>t_heap := t_heap m\<rparr> = m"
  by simp

lemma deref_Some [simp]: "t_heap m a = Some n \<Longrightarrow> deref (Some a) m = Inr n"
  by (simp add: deref_def)

lemma modify_Some [simp]: "t_heap m a = Some n \<Longrightarrow> modify (Some a) f m = Inr (m\<lparr>t_heap := (t_heap m)(a \<mapsto> f n)\<rparr>)"
  by (simp add: modify_def)

lemma node_height_tree [simp]: "treep m p t \<Longrightarrow> node_height (root t) m = Inr (sh t)"
  by (cases "(m, p, t)" rule: treep.cases) (auto simp: node_height_def is_node_def)

lemma zipp_node:
  assumes "zipp m (Node l (a, k, v, h) r) c"
  obtains b where "t_heap m a = Some \<lparr>n_key = k, n_value = v, n_left = root l, n_right = root r, n_parent = par c, n_height = h, n_balance = b\<rparr>"
    "treep m (Some a) l" "treep m (Some a) r" "a \<notin> addrs l" "a \<notin> addrs r" "addrs l \<inter> addrs r = {}" "a \<notin> ctx_addrs c" "addrs l \<inter> ctx_addrs c = {}" "addrs r \<inter> ctx_addrs c = {}"
    "ctxp m (Some a) c"
  using assms by (auto simp: zipp_def is_node_def image_Un Int_Un_distrib2)

text \<open>Changing the stored height and balance of the node in focus.\<close>

lemma zipp_set_height:
  assumes "zipp m (Node l (a, k, v, h) r) c"
    and "t_heap m' = (t_heap m)(a \<mapsto> \<lparr>n_key = k', n_value = v', n_left = root l, n_right = root r, n_parent = par c, n_height = h', n_balance = b\<rparr>)"
  shows "zipp m' (Node l (a, k', v', h') r) c"
proof -
  from assms(1) obtain z: "treep m (Some a) l" "treep m (Some a) r" "a \<notin> addrs l" "a \<notin> addrs r" "addrs l \<inter> addrs r = {}" "a \<notin> ctx_addrs c"
    "addrs l \<inter> ctx_addrs c = {}" "addrs r \<inter> ctx_addrs c = {}" "ctxp m (Some a) c" by (rule zipp_node)
  have o: "\<forall>x. x \<noteq> a \<longrightarrow> t_heap m' x = t_heap m x" using assms(2) by simp
  have "treep m' (Some a) l" "treep m' (Some a) r" "ctxp m' (Some a) c"
    using z treep_cong [of l m' m] treep_cong [of r m' m] ctxp_cong [of c m' m] o by metis+
  then show ?thesis using z assms(2) by (simp add: zipp_def is_node_def image_Un Int_Un_distrib2)
qed

lemma setBalance_ok:
  assumes z: "zipp m (Node l x r) c"
  shows "\<exists>m'. setBalance (Some (fst x)) m = Inr m' \<and> zipp m' (mk l x r) c \<and> keeps {fst x} m m' \<and>
    (\<exists>n. t_heap m' (fst x) = Some n \<and> n_balance n = sh r - sh l)"
proof -
  obtain a k v h where x: "x = (a, k, v, h)" by (metis prod_cases4)
  from z obtain b where n: "t_heap m a = Some \<lparr>n_key = k, n_value = v, n_left = root l, n_right = root r, n_parent = par c, n_height = h, n_balance = b\<rparr>"
    and t: "treep m (Some a) l" "treep m (Some a) r" "a \<notin> addrs l" "a \<notin> addrs r" unfolding x by (elim zipp_node)
  let ?h = "1 + max (sh l) (sh r)"
  let ?m1 = "m\<lparr>t_heap := (t_heap m)(a \<mapsto> \<lparr>n_key = k, n_value = v, n_left = root l, n_right = root r, n_parent = par c, n_height = ?h, n_balance = b\<rparr>)\<rparr>"
  let ?m2 = "m\<lparr>t_heap := (t_heap m)(a \<mapsto> \<lparr>n_key = k, n_value = v, n_left = root l, n_right = root r, n_parent = par c, n_height = ?h, n_balance = sh r - sh l\<rparr>)\<rparr>"
  have s: "setHeight (Some a) m = Inr ?m1" using n t(1,2) by (simp add: setHeight_def)
  have "treep ?m1 (Some a) l" "treep ?m1 (Some a) r" using t by simp_all
  then have "setBalance (Some a) m = Inr ?m2" unfolding setBalance_def s by simp
  moreover have "zipp ?m2 (mk l x r) c" using zipp_set_height [OF z [unfolded x], of ?m2 k v ?h] by (simp add: x)
  ultimately show ?thesis by (simp add: x keeps_def)
qed

lemma root_in: "root t = Some a \<Longrightarrow> a \<in> addrs t"
  by (cases t) auto

lemma relink_ok:
  assumes "t_heap m b = Some nb" "n_parent nb = par c" "ctxp m (Some a) c" "a \<notin> ctx_addrs c"
  shows "\<exists>m'. relink (Some a) (Some b) m = Inr m' \<and> ctxp m' (Some b) c \<and> keeps (ctx_addrs c) m m'"
proof (cases c)
  case Nil
  then show ?thesis using assms by (simp add: relink_def keeps_def)
next
  case (Cons f d)
  show ?thesis
  proof (cases f)
    case (LFrame x r)
    obtain p k v h where x: "x = (p, k, v, h)" by (metis prod_cases4)
    have "root r \<noteq> Some a" using assms(4) root_in [of r a] by (auto simp: Cons LFrame frame_addrs_def)
    moreover from assms(3) have "p \<notin> addrs r" "p \<notin> ctx_addrs d" "frame_addrs f \<inter> ctx_addrs d = {}" by (auto simp: Cons LFrame x frame_addrs_def)
    moreover from assms(3) obtain q where "t_heap m p = Some \<lparr>n_key = k, n_value = v, n_left = Some a, n_right = root r, n_parent = par d, n_height = h, n_balance = q\<rparr>"
      by (auto simp: Cons LFrame x is_node_def)
    ultimately show ?thesis using assms by (auto simp: Cons LFrame x relink_def keeps_def is_node_def frame_addrs_def)
  next
    case (RFrame l x)
    obtain p k v h where x: "x = (p, k, v, h)" by (metis prod_cases4)
    from assms(3) have "p \<notin> addrs l" "p \<notin> ctx_addrs d" "frame_addrs f \<inter> ctx_addrs d = {}" by (auto simp: Cons RFrame x frame_addrs_def)
    moreover from assms(3) obtain q where "t_heap m p = Some \<lparr>n_key = k, n_value = v, n_left = root l, n_right = Some a, n_parent = par d, n_height = h, n_balance = q\<rparr>"
      by (auto simp: Cons RFrame x is_node_def)
    ultimately show ?thesis using assms by (auto simp: Cons RFrame x relink_def keeps_def is_node_def frame_addrs_def)
  qed
qed

lemma reparent_ok:
  assumes "treep m p t"
  shows "\<exists>m'. (if root t \<noteq> None then modify (root t) (n_parent_update (\<lambda>_. q)) m else Inr m) = Inr m' \<and> treep m' q t \<and> keeps (addrs t) m m'"
proof (cases t)
  case (Node l x r)
  obtain a k v h where x: "x = (a, k, v, h)" by (metis prod_cases4)
  from assms obtain b where "t_heap m a = Some \<lparr>n_key = k, n_value = v, n_left = root l, n_right = root r, n_parent = p, n_height = h, n_balance = b\<rparr>"
    by (auto simp: Node x is_node_def)
  then show ?thesis using assms by (simp add: Node x is_node_def keeps_def)
qed (simp add: keeps_def)

lemma treep_keeps: "keeps A m m' \<Longrightarrow> A \<inter> addrs t = {} \<Longrightarrow> treep m p t \<Longrightarrow> treep m' p t"
  using treep_cong [of t m' m p] by (auto simp: keeps_def)

lemma ctxp_keeps: "keeps A m m' \<Longrightarrow> A \<inter> ctx_addrs c = {} \<Longrightarrow> ctxp m q c \<Longrightarrow> ctxp m' q c"
  using ctxp_cong [of c m' m q] by (auto simp: keeps_def)

lemma keeps_at: "keeps A m m' \<Longrightarrow> a \<notin> A \<Longrightarrow> t_heap m' a = t_heap m a"
  by (simp add: keeps_def)

lemma swingLeft_ok:
  assumes z: "zipp m (Node l x (Node u y r)) c"
  shows "\<exists>m'. swingLeft (Some (fst x)) m = Inr (Some (fst y), m') \<and> zipp m' (Node (Node l x u) y r) c \<and>
    keeps (addrs (Node l x (Node u y r)) \<union> ctx_addrs c) m m'"
proof -
  obtain a ka va ha b kb vb hb where x: "x = (a, ka, va, ha)" and y: "y = (b, kb, vb, hb)" by (metis prod_cases4)
  from z obtain qa qb where na: "t_heap m a = Some \<lparr>n_key = ka, n_value = va, n_left = root l, n_right = Some b, n_parent = par c, n_height = ha, n_balance = qa\<rparr>"
    and nb: "t_heap m b = Some \<lparr>n_key = kb, n_value = vb, n_left = root u, n_right = root r, n_parent = Some a, n_height = hb, n_balance = qb\<rparr>"
    and tl: "treep m (Some a) l" and tu: "treep m (Some b) u" and tr: "treep m (Some b) r" and tc: "ctxp m (Some a) c"
    unfolding x y by (auto simp: zipp_def is_node_def)
  from z have ne: "a \<noteq> b" "a \<notin> addrs l" "a \<notin> addrs u" "a \<notin> addrs r" "b \<notin> addrs l" "b \<notin> addrs u" "b \<notin> addrs r" "a \<notin> ctx_addrs c" "b \<notin> ctx_addrs c"
    unfolding x y by (auto simp: zipp_def)
  from z have dj: "addrs l \<inter> addrs u = {}" "addrs l \<inter> addrs r = {}" "addrs u \<inter> addrs r = {}" "addrs l \<inter> ctx_addrs c = {}" "addrs u \<inter> ctx_addrs c = {}" "addrs r \<inter> ctx_addrs c = {}"
    unfolding x y zipp_def by (simp_all add: image_Un Int_Un_distrib2 Int_Un_distrib)
  define m2 where "m2 = m\<lparr>t_heap := (t_heap m)(b \<mapsto> \<lparr>n_key = kb, n_value = vb, n_left = root u, n_right = root r, n_parent = par c, n_height = hb, n_balance = qb\<rparr>,
      a \<mapsto> \<lparr>n_key = ka, n_value = va, n_left = root l, n_right = root u, n_parent = par c, n_height = ha, n_balance = qa\<rparr>)\<rparr>"
  have t2: "treep m2 (Some a) l" "treep m2 (Some b) u" "treep m2 (Some b) r" "ctxp m2 (Some a) c" using ne tl tu tr tc by (simp_all add: m2_def)
  from reparent_ok [OF t2(2), of "Some a"] obtain m3 where m3: "(if root u \<noteq> None then modify (root u) (n_parent_update (\<lambda>_. Some a)) m2 else Inr m2) = Inr m3"
    "treep m3 (Some a) u" "keeps (addrs u) m2 m3" by blast
  have h3: "t_heap m3 a = t_heap m2 a" "t_heap m3 b = t_heap m2 b" using m3(3) ne by (simp_all add: keeps_at)
  define m5 where "m5 = m3\<lparr>t_heap := (t_heap m3)(b \<mapsto> \<lparr>n_key = kb, n_value = vb, n_left = Some a, n_right = root r, n_parent = par c, n_height = hb, n_balance = qb\<rparr>,
      a \<mapsto> \<lparr>n_key = ka, n_value = va, n_left = root l, n_right = root u, n_parent = Some b, n_height = ha, n_balance = qa\<rparr>)\<rparr>"
  have t3: "treep m3 (Some a) l" "treep m3 (Some b) r" "ctxp m3 (Some a) c"
    using treep_keeps [OF m3(3) _ t2(1)] treep_keeps [OF m3(3) _ t2(3)] ctxp_keeps [OF m3(3) _ t2(4)] dj by auto
  have t5: "treep m5 (Some a) l" "treep m5 (Some a) u" "treep m5 (Some b) r" "ctxp m5 (Some a) c" using ne t3 m3(2) by (simp_all add: m5_def)
  have h5: "t_heap m5 b = Some \<lparr>n_key = kb, n_value = vb, n_left = Some a, n_right = root r, n_parent = par c, n_height = hb, n_balance = qb\<rparr>"
    "t_heap m5 a = Some \<lparr>n_key = ka, n_value = va, n_left = root l, n_right = root u, n_parent = Some b, n_height = ha, n_balance = qa\<rparr>"
    using ne by (simp_all add: m5_def)
  from relink_ok [OF h5(1) _ t5(4) ne(8)] obtain m6 where m6: "relink (Some a) (Some b) m5 = Inr m6" "ctxp m6 (Some b) c" "keeps (ctx_addrs c) m5 m6" by auto
  have h6: "t_heap m6 a = t_heap m5 a" "t_heap m6 b = t_heap m5 b" using m6(3) ne by (simp_all add: keeps_at)
  have t6: "treep m6 (Some a) l" "treep m6 (Some a) u" "treep m6 (Some b) r"
    using treep_keeps [OF m6(3) _ t5(1)] treep_keeps [OF m6(3) _ t5(2)] treep_keeps [OF m6(3) _ t5(3)] dj(4-6) by (simp_all add: Int_commute)
  have "swingLeft (Some a) m = Inr (Some b, m6)"
  proof -
    have "modify (Some b) (n_parent_update (\<lambda>_. par c)) m = Inr (m\<lparr>t_heap := (t_heap m)(b \<mapsto> \<lparr>n_key = kb, n_value = vb, n_left = root u, n_right = root r, n_parent = par c, n_height = hb, n_balance = qb\<rparr>)\<rparr>)"
      using nb by simp
    moreover have "modify (Some a) (n_right_update (\<lambda>_. root u)) (m\<lparr>t_heap := (t_heap m)(b \<mapsto> \<lparr>n_key = kb, n_value = vb, n_left = root u, n_right = root r, n_parent = par c, n_height = hb, n_balance = qb\<rparr>)\<rparr>) = Inr m2"
      using na ne by (simp add: m2_def)
    moreover have "bindE (modify (Some b) (n_left_update (\<lambda>_. Some a)) m3) (modify (Some a) (n_parent_update (\<lambda>_. Some b))) = Inr m5"
      using h3 ne by (simp add: m5_def m2_def)
    ultimately show ?thesis using na m3(1) m6(1) by (auto simp: swingLeft_def Let_def)
  qed
  moreover have "zipp m6 (Node (Node l x u) y r) c"
    using t6 m6(2) h6 h5 ne dj by (simp add: zipp_def x y is_node_def image_Un Int_Un_distrib2 Int_Un_distrib)
  moreover have "keeps (addrs (Node l x (Node u y r)) \<union> ctx_addrs c) m m6"
    using m3(3) m6(3) by (simp add: keeps_def m2_def m5_def x y image_Un)
  ultimately show ?thesis by (auto simp: x y)
qed

lemma swingRight_ok:
  assumes z: "zipp m (Node (Node l y u) x r) c"
  shows "\<exists>m'. swingRight (Some (fst x)) m = Inr (Some (fst y), m') \<and> zipp m' (Node l y (Node u x r)) c \<and>
    keeps (addrs (Node (Node l y u) x r) \<union> ctx_addrs c) m m'"
proof -
  obtain a ka va ha b kb vb hb where x: "x = (a, ka, va, ha)" and y: "y = (b, kb, vb, hb)" by (metis prod_cases4)
  from z obtain qa qb where na: "t_heap m a = Some \<lparr>n_key = ka, n_value = va, n_left = Some b, n_right = root r, n_parent = par c, n_height = ha, n_balance = qa\<rparr>"
    and nb: "t_heap m b = Some \<lparr>n_key = kb, n_value = vb, n_left = root l, n_right = root u, n_parent = Some a, n_height = hb, n_balance = qb\<rparr>"
    and tl: "treep m (Some b) l" and tu: "treep m (Some b) u" and tr: "treep m (Some a) r" and tc: "ctxp m (Some a) c"
    unfolding x y by (auto simp: zipp_def is_node_def)
  from z have ne: "a \<noteq> b" "a \<notin> addrs l" "a \<notin> addrs u" "a \<notin> addrs r" "b \<notin> addrs l" "b \<notin> addrs u" "b \<notin> addrs r" "a \<notin> ctx_addrs c" "b \<notin> ctx_addrs c"
    unfolding x y by (auto simp: zipp_def)
  from z have dj: "addrs l \<inter> addrs u = {}" "addrs l \<inter> addrs r = {}" "addrs u \<inter> addrs r = {}" "addrs l \<inter> ctx_addrs c = {}" "addrs u \<inter> ctx_addrs c = {}" "addrs r \<inter> ctx_addrs c = {}"
    unfolding x y zipp_def by (simp_all add: image_Un Int_Un_distrib2 Int_Un_distrib)
  define m2 where "m2 = m\<lparr>t_heap := (t_heap m)(b \<mapsto> \<lparr>n_key = kb, n_value = vb, n_left = root l, n_right = root u, n_parent = par c, n_height = hb, n_balance = qb\<rparr>,
      a \<mapsto> \<lparr>n_key = ka, n_value = va, n_left = root u, n_right = root r, n_parent = par c, n_height = ha, n_balance = qa\<rparr>)\<rparr>"
  have t2: "treep m2 (Some b) l" "treep m2 (Some b) u" "treep m2 (Some a) r" "ctxp m2 (Some a) c" using ne tl tu tr tc by (simp_all add: m2_def)
  from reparent_ok [OF t2(2), of "Some a"] obtain m3 where m3: "(if root u \<noteq> None then modify (root u) (n_parent_update (\<lambda>_. Some a)) m2 else Inr m2) = Inr m3"
    "treep m3 (Some a) u" "keeps (addrs u) m2 m3" by blast
  have h3: "t_heap m3 a = t_heap m2 a" "t_heap m3 b = t_heap m2 b" using m3(3) ne by (simp_all add: keeps_at)
  define m5 where "m5 = m3\<lparr>t_heap := (t_heap m3)(b \<mapsto> \<lparr>n_key = kb, n_value = vb, n_left = root l, n_right = Some a, n_parent = par c, n_height = hb, n_balance = qb\<rparr>,
      a \<mapsto> \<lparr>n_key = ka, n_value = va, n_left = root u, n_right = root r, n_parent = Some b, n_height = ha, n_balance = qa\<rparr>)\<rparr>"
  have t3: "treep m3 (Some b) l" "treep m3 (Some a) r" "ctxp m3 (Some a) c"
    using treep_keeps [OF m3(3) _ t2(1)] treep_keeps [OF m3(3) _ t2(3)] ctxp_keeps [OF m3(3) _ t2(4)] dj by auto
  have t5: "treep m5 (Some b) l" "treep m5 (Some a) u" "treep m5 (Some a) r" "ctxp m5 (Some a) c" using ne t3 m3(2) by (simp_all add: m5_def)
  have h5: "t_heap m5 b = Some \<lparr>n_key = kb, n_value = vb, n_left = root l, n_right = Some a, n_parent = par c, n_height = hb, n_balance = qb\<rparr>"
    "t_heap m5 a = Some \<lparr>n_key = ka, n_value = va, n_left = root u, n_right = root r, n_parent = Some b, n_height = ha, n_balance = qa\<rparr>"
    using ne by (simp_all add: m5_def)
  from relink_ok [OF h5(1) _ t5(4) ne(8)] obtain m6 where m6: "relink (Some a) (Some b) m5 = Inr m6" "ctxp m6 (Some b) c" "keeps (ctx_addrs c) m5 m6" by auto
  have h6: "t_heap m6 a = t_heap m5 a" "t_heap m6 b = t_heap m5 b" using m6(3) ne by (simp_all add: keeps_at)
  have t6: "treep m6 (Some b) l" "treep m6 (Some a) u" "treep m6 (Some a) r"
    using treep_keeps [OF m6(3) _ t5(1)] treep_keeps [OF m6(3) _ t5(2)] treep_keeps [OF m6(3) _ t5(3)] dj(4-6) by (simp_all add: Int_commute)
  have "swingRight (Some a) m = Inr (Some b, m6)"
  proof -
    have "modify (Some b) (n_parent_update (\<lambda>_. par c)) m = Inr (m\<lparr>t_heap := (t_heap m)(b \<mapsto> \<lparr>n_key = kb, n_value = vb, n_left = root l, n_right = root u, n_parent = par c, n_height = hb, n_balance = qb\<rparr>)\<rparr>)"
      using nb by simp
    moreover have "modify (Some a) (n_left_update (\<lambda>_. root u)) (m\<lparr>t_heap := (t_heap m)(b \<mapsto> \<lparr>n_key = kb, n_value = vb, n_left = root l, n_right = root u, n_parent = par c, n_height = hb, n_balance = qb\<rparr>)\<rparr>) = Inr m2"
      using na ne by (simp add: m2_def)
    moreover have "bindE (modify (Some b) (n_right_update (\<lambda>_. Some a)) m3) (modify (Some a) (n_parent_update (\<lambda>_. Some b))) = Inr m5"
      using h3 ne by (simp add: m5_def m2_def)
    ultimately show ?thesis using na m3(1) m6(1) by (auto simp: swingRight_def Let_def)
  qed
  moreover have "zipp m6 (Node l y (Node u x r)) c"
    using t6 m6(2) h6 h5 ne dj by (simp add: zipp_def x y is_node_def image_Un Int_Un_distrib2 Int_Un_distrib)
  moreover have "keeps (addrs (Node (Node l y u) x r) \<union> ctx_addrs c) m m6"
    using m3(3) m6(3) by (simp add: keeps_def m2_def m5_def x y image_Un)
  ultimately show ?thesis by (auto simp: x y)
qed

lemma addrs_mk [simp]: "addrs (mk l x r) = addrs (Node l x r)"
  by (cases "(l, x, r)" rule: mk.cases) simp

lemma mk_not_Leaf [simp]: "mk l x r \<noteq> Leaf"
  by (cases "(l, x, r)" rule: mk.cases) simp

lemma root_mk [simp]: "root (mk l x r) = Some (fst x)"
  by (cases "(l, x, r)" rule: mk.cases) simp

lemma keeps_two: "keeps A m m1 \<Longrightarrow> keeps {p} m1 m2 \<Longrightarrow> keeps {q} m2 m3 \<Longrightarrow> p \<in> A \<Longrightarrow> q \<in> A \<Longrightarrow> keeps A m m3"
  by (rule keeps_trans [OF keeps_trans [OF _ keeps_mono] keeps_mono]) auto

lemma rotateLeft_ok:
  assumes z: "zipp m (Node l x (Node u y r)) c"
  shows "\<exists>m'. rotateLeft (Some (fst x)) m = Inr (Some (fst y), m') \<and> zipp m' (mk (mk l x u) y r) c \<and>
    keeps (addrs (Node l x (Node u y r)) \<union> ctx_addrs c) m m'"
proof -
  let ?A = "addrs (Node l x (Node u y r)) \<union> ctx_addrs c"
  from swingLeft_ok [OF z] obtain m1 where m1: "swingLeft (Some (fst x)) m = Inr (Some (fst y), m1)"
    "zipp m1 (Node l x u) (LFrame y r # c)" "keeps ?A m m1" by (auto simp: zipp_up)
  from setBalance_ok [OF m1(2)] obtain m2 where m2: "setBalance (Some (fst x)) m1 = Inr m2" "zipp m2 (Node (mk l x u) y r) c" "keeps {fst x} m1 m2"
    by (auto simp: zipp_up)
  from setBalance_ok [OF m2(2)] obtain m3 where m3: "setBalance (Some (fst y)) m2 = Inr m3" "zipp m3 (mk (mk l x u) y r) c" "keeps {fst y} m2 m3" by blast
  have "keeps ?A m m3" by (rule keeps_two [OF m1(3) m2(3) m3(3)]) simp_all
  with m1(1) m2(1) m3(1,2) show ?thesis by (simp add: rotateLeft_def)
qed

lemma rotateRight_ok:
  assumes z: "zipp m (Node (Node l y u) x r) c"
  shows "\<exists>m'. rotateRight (Some (fst x)) m = Inr (Some (fst y), m') \<and> zipp m' (mk l y (mk u x r)) c \<and>
    keeps (addrs (Node (Node l y u) x r) \<union> ctx_addrs c) m m'"
proof -
  let ?A = "addrs (Node (Node l y u) x r) \<union> ctx_addrs c"
  from swingRight_ok [OF z] obtain m1 where m1: "swingRight (Some (fst x)) m = Inr (Some (fst y), m1)"
    "zipp m1 (Node u x r) (RFrame l y # c)" "keeps ?A m m1" by (auto simp: zipp_up)
  from setBalance_ok [OF m1(2)] obtain m2 where m2: "setBalance (Some (fst x)) m1 = Inr m2" "zipp m2 (Node l y (mk u x r)) c" "keeps {fst x} m1 m2"
    by (auto simp: zipp_up)
  from setBalance_ok [OF m2(2)] obtain m3 where m3: "setBalance (Some (fst y)) m2 = Inr m3" "zipp m3 (mk l y (mk u x r)) c" "keeps {fst y} m2 m3" by blast
  have "keeps ?A m m3" by (rule keeps_two [OF m1(3) m2(3) m3(3)]) simp_all
  with m1(1) m2(1) m3(1,2) show ?thesis by (simp add: rotateRight_def)
qed

text \<open>Writing a pointer that already has the value changes nothing.\<close>

lemma rewrite_left:
  assumes "zipp m (Node l x r) c"
  shows "modify (Some (fst x)) (n_left_update (\<lambda>_. root l)) m = Inr m"
    and "modify (Some (fst x)) (n_right_update (\<lambda>_. root r)) m = Inr m"
proof -
  obtain a k v h where x: "x = (a, k, v, h)" by (metis prod_cases4)
  from assms obtain b where "t_heap m a = Some \<lparr>n_key = k, n_value = v, n_left = root l, n_right = root r, n_parent = par c, n_height = h, n_balance = b\<rparr>"
    unfolding x by (rule zipp_node)
  then show "modify (Some (fst x)) (n_left_update (\<lambda>_. root l)) m = Inr m" "modify (Some (fst x)) (n_right_update (\<lambda>_. root r)) m = Inr m"
    by (simp_all add: x fun_upd_idem)
qed

lemma zipp_deref:
  assumes "zipp m (Node l x r) c"
  obtains n where "deref (Some (fst x)) m = Inr n" "n_left n = root l" "n_right n = root r" "n_parent n = par c" "n_height n = sh (Node l x r)"
    "n_key n = fst (snd x)" "n_value n = fst (snd (snd x))"
proof -
  obtain a k v h where x: "x = (a, k, v, h)" by (metis prod_cases4)
  from assms obtain b where "t_heap m a = Some \<lparr>n_key = k, n_value = v, n_left = root l, n_right = root r, n_parent = par c, n_height = h, n_balance = b\<rparr>"
    unfolding x by (rule zipp_node)
  then show thesis by (auto intro!: that simp: x)
qed

lemma rotateLeftThenRight_ok:
  assumes z: "zipp m (Node (Node ll y (Node a w b)) x r) c"
  shows "\<exists>m'. rotateLeftThenRight (Some (fst x)) m = Inr (Some (fst w), m') \<and> zipp m' (mk (mk ll y a) w (mk b x r)) c \<and>
    keeps (addrs (Node (Node ll y (Node a w b)) x r) \<union> ctx_addrs c) m m'"
proof -
  let ?A = "addrs (Node (Node ll y (Node a w b)) x r) \<union> ctx_addrs c"
  have z1: "zipp m (Node ll y (Node a w b)) (LFrame x r # c)" using z by (simp add: zipp_up)
  from rotateLeft_ok [OF z1] obtain m1 where m1: "rotateLeft (Some (fst y)) m = Inr (Some (fst w), m1)"
    "zipp m1 (Node (mk (mk ll y a) w b) x r) c" "keeps ?A m m1" by (auto simp: zipp_up frame_addrs_def Un_ac image_Un)
  obtain aw kw vw hw where w: "w = (aw, kw, vw, hw)" by (metis prod_cases4)
  define w' where "w' = (aw, kw, vw, 1 + max (sh (mk ll y a)) (sh b))"
  have mkw: "mk (mk ll y a) w b = Node (mk ll y a) w' b" and fw: "fst w' = fst w" by (simp_all add: w w'_def)
  from rotateRight_ok [OF m1(2) [unfolded mkw]] obtain m2 where m2: "rotateRight (Some (fst x)) m1 = Inr (Some (fst w), m2)"
    "zipp m2 (mk (mk ll y a) w' (mk b x r)) c" "keeps ?A m1 m2" by (auto simp: fw Un_ac image_Un insert_commute)
  have "mk (mk ll y a) w' (mk b x r) = mk (mk ll y a) w (mk b x r)" by (simp add: w w'_def)
  moreover from zipp_deref [OF z] obtain n where "deref (Some (fst x)) m = Inr n" "n_left n = Some (fst y)" by auto
  ultimately show ?thesis
    using m1(1) rewrite_left(1) [OF m1(2)] m2 keeps_trans [OF m1(3) m2(3)] by (simp add: rotateLeftThenRight_def)
qed

lemma rotateRightThenLeft_ok:
  assumes z: "zipp m (Node l x (Node (Node a w b) y rr)) c"
  shows "\<exists>m'. rotateRightThenLeft (Some (fst x)) m = Inr (Some (fst w), m') \<and> zipp m' (mk (mk l x a) w (mk b y rr)) c \<and>
    keeps (addrs (Node l x (Node (Node a w b) y rr)) \<union> ctx_addrs c) m m'"
proof -
  let ?A = "addrs (Node l x (Node (Node a w b) y rr)) \<union> ctx_addrs c"
  have z1: "zipp m (Node (Node a w b) y rr) (RFrame l x # c)" using z by (simp add: zipp_up)
  from rotateRight_ok [OF z1] obtain m1 where m1: "rotateRight (Some (fst y)) m = Inr (Some (fst w), m1)"
    "zipp m1 (Node l x (mk a w (mk b y rr))) c" "keeps ?A m m1" by (auto simp: zipp_up frame_addrs_def Un_ac image_Un)
  obtain aw kw vw hw where w: "w = (aw, kw, vw, hw)" by (metis prod_cases4)
  define w' where "w' = (aw, kw, vw, 1 + max (sh a) (sh (mk b y rr)))"
  have mkw: "mk a w (mk b y rr) = Node a w' (mk b y rr)" and fw: "fst w' = fst w" by (simp_all add: w w'_def)
  from rotateLeft_ok [OF m1(2) [unfolded mkw]] obtain m2 where m2: "rotateLeft (Some (fst x)) m1 = Inr (Some (fst w), m2)"
    "zipp m2 (mk (mk l x a) w' (mk b y rr)) c" "keeps ?A m1 m2" by (auto simp: fw Un_ac image_Un insert_commute)
  have "mk (mk l x a) w' (mk b y rr) = mk (mk l x a) w (mk b y rr)" by (simp add: w w'_def)
  moreover from zipp_deref [OF z] obtain n where "deref (Some (fst x)) m = Inr n" "n_right n = Some (fst y)" by auto
  ultimately show ?thesis
    using m1(1) rewrite_left(2) [OF m1(2)] m2 keeps_trans [OF m1(3) m2(3)] by (simp add: rotateRightThenLeft_def)
qed

section \<open>Rebalancing on abstract trees\<close>

fun fix_left :: "('k, 'v) atree \<Rightarrow> ('k, 'v) cell \<Rightarrow> ('k, 'v) atree \<Rightarrow> ('k, 'v) atree" where
  "fix_left (Node ll y lr) x r =
     (if sh ll \<ge> sh lr then mk ll y (mk lr x r)
      else case lr of Leaf \<Rightarrow> Leaf | Node a w b \<Rightarrow> mk (mk ll y a) w (mk b x r))"
| "fix_left Leaf x r = Leaf"

fun fix_right :: "('k, 'v) atree \<Rightarrow> ('k, 'v) cell \<Rightarrow> ('k, 'v) atree \<Rightarrow> ('k, 'v) atree" where
  "fix_right l x (Node rl y rr) =
     (if sh rr \<ge> sh rl then mk (mk l x rl) y rr
      else case rl of Leaf \<Rightarrow> Leaf | Node a w b \<Rightarrow> mk (mk l x a) w (mk b y rr))"
| "fix_right l x Leaf = Leaf"

fun fixup :: "('k, 'v) atree \<Rightarrow> ('k, 'v) atree" where
  "fixup (Node l x r) =
     (if sh r - sh l = - 2 then fix_left l x r else if sh r - sh l = 2 then fix_right l x r else mk l x r)"
| "fixup Leaf = Leaf"

fun reb :: "('k, 'v) atree \<Rightarrow> ('k, 'v) frame list \<Rightarrow> ('k, 'v) atree" where
  "reb t [] = fixup t"
| "reb t (f # c) = reb (plug1 (fixup t) f) c"

text \<open>Stored heights are at least \<open>0\<close>, which is what makes the nodes a rotation needs exist.\<close>

fun pos :: "('k, 'v) atree \<Rightarrow> bool" where
  "pos Leaf \<longleftrightarrow> True"
| "pos (Node l x r) \<longleftrightarrow> 0 \<le> sh (Node l x r) \<and> pos l \<and> pos r"

fun ctx_pos :: "('k, 'v) frame list \<Rightarrow> bool" where
  "ctx_pos [] \<longleftrightarrow> True"
| "ctx_pos (f # c) \<longleftrightarrow> 0 \<le> snd (snd (snd (frame_cell f))) \<and> pos (sibling f) \<and> ctx_pos c"

lemma pos_ge [simp]: "pos t \<Longrightarrow> - 1 \<le> sh t"
  by (cases t) auto

lemma pos_mk [simp]: "pos (mk l x r) \<longleftrightarrow> pos l \<and> pos r"
proof -
  obtain a k v h where x: "x = (a, k, v, h)" by (metis prod_cases4)
  have "pos l \<Longrightarrow> pos r \<Longrightarrow> 0 \<le> 1 + max (sh l) (sh r)" using pos_ge [of l] pos_ge [of r] by linarith
  then show ?thesis by (auto simp: x)
qed

lemma pos_cell: "pos (Node l x r) \<longleftrightarrow> 0 \<le> snd (snd (snd x)) \<and> pos l \<and> pos r"
  by (cases x) simp

lemma pos_plug1: "pos (plug1 t f) \<longleftrightarrow> pos t \<and> 0 \<le> snd (snd (snd (frame_cell f))) \<and> pos (sibling f)"
  by (cases f) (auto simp: pos_cell simp del: pos.simps(2))

lemma pos_plug: "pos (plug t c) \<longleftrightarrow> pos t \<and> ctx_pos c"
  by (induction c arbitrary: t) (auto simp: pos_plug1)

definition nid :: "('k, 'v) cell \<Rightarrow> nat \<times> 'k \<times> 'v" where
  "nid x = (fst x, fst (snd x), fst (snd (snd x)))"

abbreviation ids :: "('k, 'v) atree \<Rightarrow> (nat \<times> 'k \<times> 'v) list" where
  "ids t \<equiv> map nid (inorder t)"

lemma ids_mk [simp]: "ids (mk l x r) = ids l @ nid x # ids r"
  by (cases "(l, x, r)" rule: mk.cases) (simp add: nid_def)

lemma fixup_shape:
  assumes "pos t" "t \<noteq> Leaf"
  shows "ids (fixup t) = ids t" "addrs (fixup t) = addrs t" "pos (fixup t)" "fixup t \<noteq> Leaf"
proof -
  obtain l x r where t: "t = Node l x r" using assms(2) by (cases t) auto
  have lr: "pos l" "pos r" "- 1 \<le> sh l" "- 1 \<le> sh r" using assms(1) by (auto simp: t)
  consider "sh r - sh l = - 2" | "sh r - sh l = 2" | "sh r - sh l \<noteq> - 2" "sh r - sh l \<noteq> 2" by blast
  then have "ids (fixup t) = ids t \<and> addrs (fixup t) = addrs t \<and> pos (fixup t) \<and> fixup t \<noteq> Leaf"
  proof cases
    case 1
    then obtain ll y lr' where l: "l = Node ll y lr'" using lr by (cases l) auto
    show ?thesis
    proof (cases "sh ll \<ge> sh lr'")
      case True
      with 1 lr show ?thesis by (auto simp: t l pos_cell image_Un Un_ac simp del: pos.simps(2))
    next
      case False
      then obtain a w b where "lr' = Node a w b" using lr(1) by (cases lr') (auto simp: l dest: pos_ge)
      with 1 False lr show ?thesis by (auto simp: t l pos_cell image_Un Un_ac simp del: pos.simps(2))
    qed
  next
    case 2
    then obtain rl y rr where r: "r = Node rl y rr" using lr by (cases r) auto
    show ?thesis
    proof (cases "sh rr \<ge> sh rl")
      case True
      with 2 lr show ?thesis by (auto simp: t r pos_cell image_Un Un_ac simp del: pos.simps(2))
    next
      case False
      then obtain a w b where "rl = Node a w b" using lr(2) by (cases rl) (auto simp: r dest: pos_ge)
      with 2 False lr show ?thesis by (auto simp: t r pos_cell image_Un Un_ac simp del: pos.simps(2))
    qed
  next
    case 3
    with lr show ?thesis by (simp add: t)
  qed
  then show "ids (fixup t) = ids t" "addrs (fixup t) = addrs t" "pos (fixup t)" "fixup t \<noteq> Leaf" by auto
qed

lemma treep_fields [simp]:
  "treep (m\<lparr>t_root := q\<rparr>) p t \<longleftrightarrow> treep m p t" "treep (m\<lparr>t_cnt := n\<rparr>) p t \<longleftrightarrow> treep m p t" "treep (m\<lparr>t_next := i\<rparr>) p t \<longleftrightarrow> treep m p t"
  by (rule treep_cong; simp)+

lemma mk_cell: obtains x' where "mk l x r = Node l x' r" "fst x' = fst x" "\<And>l r. mk l x' r = mk l x r"
  by (cases x) (auto intro!: that)

lemma fix_left_mk: "(\<And>l r. mk l x' r = mk l x r) \<Longrightarrow> fix_left l x' r = fix_left l x r"
  by (cases l) (auto split: tree.splits)

lemma fix_right_mk: "(\<And>l r. mk l x' r = mk l x r) \<Longrightarrow> fix_right l x' r = fix_right l x r"
  by (cases r) (auto split: tree.splits)

lemma rotate_left_case:
  assumes z: "zipp m (Node l x r) c" and p: "pos l" "pos r" and b: "sh r - sh l = - 2"
  obtains nl hl hr m' where "deref (root l) m = Inr nl" "node_height (n_left nl) m = Inr hl" "node_height (n_right nl) m = Inr hr"
    "(if hl \<ge> hr then rotateRight (Some (fst x)) m else rotateLeftThenRight (Some (fst x)) m) = Inr (root (fix_left l x r), m')"
    "zipp m' (fix_left l x r) c" "keeps (addrs (Node l x r) \<union> ctx_addrs c) m m'"
proof -
  have "- 1 \<le> sh r" using p by simp
  with b obtain ll y lr where l: "l = Node ll y lr" by (cases l) auto
  have zl: "zipp m (Node ll y lr) (LFrame x r # c)" using z by (simp add: l zipp_up)
  from zipp_deref [OF zl] obtain nl where nl: "deref (Some (fst y)) m = Inr nl" "n_left nl = root ll" "n_right nl = root lr" by blast
  obtain ay ky vy hy where y: "y = (ay, ky, vy, hy)" by (metis prod_cases4)
  have "treep m (Some ay) ll" "treep m (Some ay) lr" using zl by (auto simp: zipp_def y)
  then have h: "node_height (n_left nl) m = Inr (sh ll)" "node_height (n_right nl) m = Inr (sh lr)" by (simp_all add: nl)
  show thesis
  proof (cases "sh ll \<ge> sh lr")
    case True
    with rotateRight_ok [OF z [unfolded l]] nl h show thesis by (auto simp: l intro: that)
  next
    case False
    then obtain a w d where lr: "lr = Node a w d" using p(1) by (cases lr) (auto simp: l dest: pos_ge)
    with False rotateLeftThenRight_ok [OF z [unfolded l lr]] nl h show thesis by (auto simp: l intro: that)
  qed
qed

lemma rotate_right_case:
  assumes z: "zipp m (Node l x r) c" and p: "pos l" "pos r" and b: "sh r - sh l = 2"
  obtains nr hl hr m' where "deref (root r) m = Inr nr" "node_height (n_left nr) m = Inr hl" "node_height (n_right nr) m = Inr hr"
    "(if hr \<ge> hl then rotateLeft (Some (fst x)) m else rotateRightThenLeft (Some (fst x)) m) = Inr (root (fix_right l x r), m')"
    "zipp m' (fix_right l x r) c" "keeps (addrs (Node l x r) \<union> ctx_addrs c) m m'"
proof -
  have "- 1 \<le> sh l" using p by simp
  with b obtain rl y rr where r: "r = Node rl y rr" by (cases r) auto
  have zr: "zipp m (Node rl y rr) (RFrame l x # c)" using z by (simp add: r zipp_up)
  from zipp_deref [OF zr] obtain nr where nr: "deref (Some (fst y)) m = Inr nr" "n_left nr = root rl" "n_right nr = root rr" by blast
  obtain ay ky vy hy where y: "y = (ay, ky, vy, hy)" by (metis prod_cases4)
  have "treep m (Some ay) rl" "treep m (Some ay) rr" using zr by (auto simp: zipp_def y)
  then have h: "node_height (n_left nr) m = Inr (sh rl)" "node_height (n_right nr) m = Inr (sh rr)" by (simp_all add: nr)
  show thesis
  proof (cases "sh rr \<ge> sh rl")
    case True
    with rotateLeft_ok [OF z [unfolded r]] nr h show thesis by (auto simp: r intro: that)
  next
    case False
    then obtain a w d where rl: "rl = Node a w d" using p(2) by (cases rl) (auto simp: r dest: pos_ge)
    with False rotateRightThenLeft_ok [OF z [unfolded r rl]] nr h show thesis by (auto simp: r intro: that)
  qed
qed

lemma rebalance_node_ok:
  assumes z: "zipp m t c" and t: "t \<noteq> Leaf" "pos t"
  shows "\<exists>m'. rebalance_node (root t) m = Inr (root (fixup t), m') \<and> zipp m' (fixup t) c \<and> keeps (addrs t \<union> ctx_addrs c) m m'"
proof -
  obtain l x r where n: "t = Node l x r" using t(1) by (cases t) auto
  have p: "pos l" "pos r" using t(2) by (simp_all add: n)
  let ?A = "addrs (Node l x r) \<union> ctx_addrs c"
  from setBalance_ok [OF z [unfolded n]] obtain m1 nn where m1: "setBalance (Some (fst x)) m = Inr m1" "zipp m1 (mk l x r) c" "keeps {fst x} m m1"
    "t_heap m1 (fst x) = Some nn" "n_balance nn = sh r - sh l" by blast
  obtain x' where x': "mk l x r = Node l x' r" "fst x' = fst x" "\<And>l r. mk l x' r = mk l x r" using mk_cell [of l x r] by metis
  have z1: "zipp m1 (Node l x' r) c" using m1(2) x'(1) by simp
  from zipp_deref [OF z1] x'(2) m1(4) have nn: "n_left nn = root l" "n_right nn = root r" by (auto simp: deref_def)
  have k1: "keeps ?A m m1" by (rule keeps_mono [OF m1(3)]) simp
  have A: "addrs (Node l x' r) \<union> ctx_addrs c = ?A" using x'(2) by simp
  note start = m1(1,4,5) nn
  consider "sh r - sh l = - 2" | "sh r - sh l = 2" | "sh r - sh l \<noteq> - 2" "sh r - sh l \<noteq> 2" by blast
  then show ?thesis
  proof cases
    case 1
    from rotate_left_case [OF z1 p 1] obtain nl hl hr m' where r: "deref (root l) m1 = Inr nl" "node_height (n_left nl) m1 = Inr hl" "node_height (n_right nl) m1 = Inr hr"
      "(if hl \<ge> hr then rotateRight (Some (fst x)) m1 else rotateLeftThenRight (Some (fst x)) m1) = Inr (root (fix_left l x r), m')"
      "zipp m' (fix_left l x r) c" "keeps ?A m1 m'" unfolding A fix_left_mk [OF x'(3)] x'(2) .
    have "rebalance_node (root t) m = Inr (root (fix_left l x r), m')" using start 1 r(1-4) by (simp add: n rebalance_node_def)
    with r(5) keeps_trans [OF k1 r(6)] 1 show ?thesis by (simp add: n)
  next
    case 2
    from rotate_right_case [OF z1 p 2] obtain nr hl hr m' where r: "deref (root r) m1 = Inr nr" "node_height (n_left nr) m1 = Inr hl" "node_height (n_right nr) m1 = Inr hr"
      "(if hr \<ge> hl then rotateLeft (Some (fst x)) m1 else rotateRightThenLeft (Some (fst x)) m1) = Inr (root (fix_right l x r), m')"
      "zipp m' (fix_right l x r) c" "keeps ?A m1 m'" unfolding A fix_right_mk [OF x'(3)] x'(2) .
    have "rebalance_node (root t) m = Inr (root (fix_right l x r), m')" using start 2 r(1-4) by (simp add: n rebalance_node_def)
    with r(5) keeps_trans [OF k1 r(6)] 2 show ?thesis by (simp add: n)
  next
    case 3
    with start m1(2) k1 show ?thesis by (simp add: n rebalance_node_def)
  qed
qed

lemma rebalance_ok:
  assumes "zipp m t c" "t \<noteq> Leaf" "pos (plug t c)" "length c < fuel"
  shows "\<exists>m'. rebalance fuel (root t) m = Inr m' \<and> treep m' None (reb t c) \<and> t_root m' = root (reb t c) \<and>
    t_next m' = t_next m \<and> t_cnt m' = t_cnt m \<and> (\<forall>a. a \<notin> addrs t \<union> ctx_addrs c \<longrightarrow> t_heap m' a = t_heap m a)"
  using assms
proof (induction c arbitrary: m t fuel)
  case Nil
  then obtain n where f: "fuel = Suc n" by (cases fuel) auto
  from rebalance_node_ok [OF Nil.prems(1,2)] Nil.prems(3) obtain m' where m': "rebalance_node (root t) m = Inr (root (fixup t), m')"
    "zipp m' (fixup t) []" "keeps (addrs t) m m'" by auto
  note s = fixup_shape [of t] 
  obtain l x r where n: "fixup t = Node l x r" using s(4) Nil.prems(2,3) by (cases "fixup t") auto
  from zipp_deref [OF m'(2) [unfolded n]] obtain nn where "deref (Some (fst x)) m' = Inr nn" "n_parent nn = None" by auto
  with m' Nil.prems(2) n show ?case by (cases t) (auto simp: f zipp_def keeps_def)
next
  case (Cons g c)
  then obtain k where f: "fuel = Suc k" "length c < k" by (cases fuel) auto
  have p: "pos t" "ctx_pos (g # c)" using Cons.prems(3) by (simp_all add: pos_plug del: plug.simps)
  from rebalance_node_ok [OF Cons.prems(1,2) p(1)] obtain m' where m': "rebalance_node (root t) m = Inr (root (fixup t), m')"
    "zipp m' (fixup t) (g # c)" "keeps (addrs t \<union> ctx_addrs (g # c)) m m'" by blast
  note s = fixup_shape [OF p(1) Cons.prems(2)]
  obtain l x r where n: "fixup t = Node l x r" using s(4) by (cases "fixup t") auto
  from zipp_deref [OF m'(2) [unfolded n]] obtain nn where nn: "deref (Some (fst x)) m' = Inr nn" "n_parent nn = Some (fst (frame_cell g))" by auto
  have z: "zipp m' (plug1 (fixup t) g) c" using m'(2) by (simp add: zipp_up)
  have "plug1 (fixup t) g \<noteq> Leaf" by (cases g) simp_all
  moreover have "pos (plug (plug1 (fixup t) g) c)" using p s(3) by (simp add: pos_plug pos_plug1)
  ultimately obtain m2 where m2: "rebalance k (root (plug1 (fixup t) g)) m' = Inr m2" "treep m2 None (reb (plug1 (fixup t) g) c)"
    "t_root m2 = root (reb (plug1 (fixup t) g) c)" "t_next m2 = t_next m'" "t_cnt m2 = t_cnt m'"
    "\<forall>a. a \<notin> addrs (plug1 (fixup t) g) \<union> ctx_addrs c \<longrightarrow> t_heap m2 a = t_heap m' a"
    using Cons.IH [OF z _ _ f(2)] by blast
  have "addrs (plug1 (fixup t) g) \<union> ctx_addrs c = addrs t \<union> ctx_addrs (g # c)" using s(2) by (simp add: addrs_plug1 Un_assoc)
  with m2 m' nn n Cons.prems(2) f show ?case by (cases t) (auto simp: keeps_def)
qed

end
