(* ===== verification/Treemap.thy ===== *)
theory Treemap
  imports Treelike
begin

text \<open>
  What the tree map of the runtime library guarantees: lookup, insertion, removal and iteration of
  \<^verbatim>\<open>krt/types/treemap.h\<close> as operations on a finite map, the balance of the tree, and the cases in which the
  code does not keep its promises.
\<close>

section \<open>The order of the keys\<close>

abbreviation ckey :: "('k, 'v) cell \<Rightarrow> 'k" where
  "ckey x \<equiv> fst (snd x)"

abbreviation cent :: "('k, 'v) cell \<Rightarrow> 'k \<times> 'v" where
  "cent x \<equiv> (fst (snd x), fst (snd (snd x)))"

abbreviation ents :: "('k, 'v) atree \<Rightarrow> ('k \<times> 'v) list" where
  "ents t \<equiv> map cent (inorder t)"

fun lefts :: "('k, 'v) frame list \<Rightarrow> ('k, 'v) cell list" where
  "lefts [] = []"
| "lefts (LFrame x r # c) = lefts c"
| "lefts (RFrame l x # c) = lefts c @ inorder l @ [x]"

fun rights :: "('k, 'v) frame list \<Rightarrow> ('k, 'v) cell list" where
  "rights [] = []"
| "rights (LFrame x r # c) = x # inorder r @ rights c"
| "rights (RFrame l x # c) = rights c"

lemma inorder_plug: "inorder (plug t c) = lefts c @ inorder t @ rights c"
proof (induction c arbitrary: t)
  case (Cons f c)
  then show ?case by (cases f) auto
qed simp

definition ascending :: "('k::linorder \<times> 'v) list \<Rightarrow> bool" where
  "ascending xs \<longleftrightarrow> sorted_wrt (<) (map fst xs)"

lemma ascending_append: "ascending (xs @ ys) \<longleftrightarrow> ascending xs \<and> ascending ys \<and> (\<forall>x\<in>set xs. \<forall>y\<in>set ys. fst x < fst y)"
  by (auto simp: ascending_def sorted_wrt_append)

lemma ascending_Cons: "ascending (x # xs) \<longleftrightarrow> (\<forall>y\<in>set xs. fst x < fst y) \<and> ascending xs"
  by (auto simp: ascending_def)

fun descend :: "'k::linorder \<Rightarrow> ('k, 'v) atree \<Rightarrow> ('k, 'v) frame list \<Rightarrow> ('k, 'v) atree \<times> ('k, 'v) frame list" where
  "descend k Leaf c = (Leaf, c)"
| "descend k (Node l x r) c =
     (if ckey x = k then (Node l x r, c)
      else if k < ckey x then descend k l (LFrame x r # c) else descend k r (RFrame l x # c))"

lemma descend_plug:
  "descend k t c = (t', c') \<Longrightarrow> plug t' c' = plug t c \<and> length c' + height t' \<le> length c + height t \<and>
     (t' \<noteq> Leaf \<longrightarrow> (\<exists>l x r. t' = Node l x r \<and> ckey x = k))"
proof (induction k t c rule: descend.induct)
  case (2 k l x r c)
  then show ?case by (fastforce split: if_splits)
qed simp

lemma descend_order:
  assumes "descend k t c = (t', c')" "ascending (ents t)" "\<forall>x\<in>set (lefts c). ckey x < k" "\<forall>x\<in>set (rights c). k < ckey x"
  shows "(\<forall>x\<in>set (lefts c'). ckey x < k) \<and> (\<forall>x\<in>set (rights c'). k < ckey x)"
  using assms
proof (induction k t c rule: descend.induct)
  case (2 k l x r c)
  have a: "ascending (ents l)" "ascending (ents r)" "\<forall>y\<in>set (inorder l). ckey y < ckey x" "\<forall>y\<in>set (inorder r). ckey x < ckey y"
    using 2(4) by (auto simp: ascending_append ascending_Cons)
  consider "ckey x = k" | "ckey x \<noteq> k" "k < ckey x" | "ckey x \<noteq> k" "\<not> k < ckey x" by blast
  then show ?case
  proof cases
    case 2
    have "\<forall>y\<in>set (rights (LFrame x r # c)). k < ckey y" using 2 a(4) "2.prems"(4) by auto
    then show ?thesis using 2 "2.IH"(1) [OF 2] "2.prems" a(1) by simp
  next
    case 3
    have "\<forall>y\<in>set (lefts (RFrame l x # c)). ckey y < k" using 3 a(3) "2.prems"(3) by auto
    then show ?thesis using 3 "2.IH"(2) [OF 3] "2.prems" a(2) by simp
  qed (use "2.prems" in auto)
qed simp

lemma height_size: "height t \<le> size (t :: 'a tree)"
  by (induction t) auto

lemma find_from_ok:
  assumes "treep m p t" "height t < fuel"
  shows "find_from fuel k (root t) m = Inr (root (fst (descend k t c)))"
  using assms
proof (induction t arbitrary: p fuel c)
  case (Node l x r)
  obtain a kx v h where x: "x = (a, kx, v, h)" by (metis prod_cases4)
  from Node.prems obtain f where f: "fuel = Suc f" "height l < f" "height r < f" by (cases fuel) auto
  from Node.prems obtain nn where "t_heap m a = Some nn" "n_key nn = kx" "n_left nn = root l" "n_right nn = root r"
    and "treep m (Some a) l" "treep m (Some a) r" by (auto simp: x is_node_def)
  then show ?case using Node.IH(1) [of "Some a" f "LFrame x r # c"] Node.IH(2) [of "Some a" f "RFrame l x # c"] f by (auto simp: x)
next
  case Leaf
  then show ?case by (cases fuel) auto
qed

lemma heap_only [simp]: "treep (m1\<lparr>t_heap := t_heap m\<rparr>) p t \<longleftrightarrow> treep m p t" "ctxp (m1\<lparr>t_heap := t_heap m\<rparr>) q c \<longleftrightarrow> ctxp m q c"
  by (rule treep_cong, simp) (rule ctxp_cong, simp)

text \<open>A new leaf in the empty place the context ends at.\<close>

lemma link_leaf:
  assumes z: "zipp m Leaf (f # c)" and new: "b \<notin> ctx_addrs (f # c)"
    and n: "t_heap m1 = (t_heap m)(b \<mapsto> \<lparr>n_key = k, n_value = v, n_left = None, n_right = None, n_parent = Some (fst (frame_cell f)), n_height = 0, n_balance = 0\<rparr>)"
  shows "(case f of LFrame x r \<Rightarrow> modify (Some (fst x)) (n_left_update (\<lambda>_. Some b)) m1 = Inr m2
                  | RFrame l x \<Rightarrow> modify (Some (fst x)) (n_right_update (\<lambda>_. Some b)) m1 = Inr m2) \<Longrightarrow>
    zipp m2 (Node Leaf (b, k, v, 0) Leaf) (f # c) \<and> t_next m2 = t_next m1 \<and> t_cnt m2 = t_cnt m1 \<and>
    (\<forall>a. a \<notin> insert b (ctx_addrs (f # c)) \<longrightarrow> t_heap m2 a = t_heap m a)"
proof (cases f)
  case (LFrame x r)
  obtain a ka va ha where x: "x = (a, ka, va, ha)" by (metis prod_cases4)
  from z obtain q where "t_heap m a = Some \<lparr>n_key = ka, n_value = va, n_left = None, n_right = root r, n_parent = par c, n_height = ha, n_balance = q\<rparr>"
    and t: "treep m (Some a) r" "ctxp m (Some a) c" "a \<notin> addrs r" "frame_addrs f \<inter> ctx_addrs c = {}"
    by (auto simp: zipp_def LFrame x is_node_def)
  moreover have "b \<noteq> a" "b \<notin> addrs r" "b \<notin> ctx_addrs c" using new by (auto simp: LFrame x frame_addrs_def)
  moreover assume "case f of LFrame x r \<Rightarrow> modify (Some (fst x)) (n_left_update (\<lambda>_. Some b)) m1 = Inr m2
                  | RFrame l x \<Rightarrow> modify (Some (fst x)) (n_right_update (\<lambda>_. Some b)) m1 = Inr m2"
  ultimately have m2: "m2 = m1\<lparr>t_heap := (t_heap m1)(a \<mapsto> \<lparr>n_key = ka, n_value = va, n_left = Some b, n_right = root r, n_parent = par c, n_height = ha, n_balance = q\<rparr>)\<rparr>"
    by (simp add: LFrame x n)
  have "treep m2 (Some a) r" "ctxp m2 (Some a) c"
    using t \<open>b \<notin> addrs r\<close> \<open>b \<notin> ctx_addrs c\<close> by (auto simp: m2 n LFrame x frame_addrs_def)
  then show ?thesis using t \<open>b \<noteq> a\<close> \<open>b \<notin> addrs r\<close> \<open>b \<notin> ctx_addrs c\<close> new
    by (auto simp: zipp_def LFrame x is_node_def m2 n frame_addrs_def)
next
  case (RFrame l x)
  obtain a ka va ha where x: "x = (a, ka, va, ha)" by (metis prod_cases4)
  from z obtain q where "t_heap m a = Some \<lparr>n_key = ka, n_value = va, n_left = root l, n_right = None, n_parent = par c, n_height = ha, n_balance = q\<rparr>"
    and t: "treep m (Some a) l" "ctxp m (Some a) c" "a \<notin> addrs l" "frame_addrs f \<inter> ctx_addrs c = {}"
    by (auto simp: zipp_def RFrame x is_node_def)
  moreover have "b \<noteq> a" "b \<notin> addrs l" "b \<notin> ctx_addrs c" using new by (auto simp: RFrame x frame_addrs_def)
  moreover assume "case f of LFrame x r \<Rightarrow> modify (Some (fst x)) (n_left_update (\<lambda>_. Some b)) m1 = Inr m2
                  | RFrame l x \<Rightarrow> modify (Some (fst x)) (n_right_update (\<lambda>_. Some b)) m1 = Inr m2"
  ultimately have m2: "m2 = m1\<lparr>t_heap := (t_heap m1)(a \<mapsto> \<lparr>n_key = ka, n_value = va, n_left = root l, n_right = Some b, n_parent = par c, n_height = ha, n_balance = q\<rparr>)\<rparr>"
    by (simp add: RFrame x n)
  have "treep m2 (Some a) l" "ctxp m2 (Some a) c"
    using t \<open>b \<notin> addrs l\<close> \<open>b \<notin> ctx_addrs c\<close> by (auto simp: m2 n RFrame x frame_addrs_def)
  then show ?thesis using t \<open>b \<noteq> a\<close> \<open>b \<notin> addrs l\<close> \<open>b \<notin> ctx_addrs c\<close> new
    by (auto simp: zipp_def RFrame x is_node_def m2 n frame_addrs_def)
qed

lemma zipp_fields:
  "zipp (m\<lparr>t_root := q\<rparr>) t c \<longleftrightarrow> zipp m t c" "zipp (m\<lparr>t_cnt := n\<rparr>) t c \<longleftrightarrow> zipp m t c" "zipp (m\<lparr>t_next := i\<rparr>) t c \<longleftrightarrow> zipp m t c"
  by (simp_all add: zipp_plug)

lemma reb_shape:
  assumes "pos (plug t c)" "t \<noteq> Leaf"
  shows "ids (reb t c) = ids (plug t c) \<and> addrs (reb t c) = addrs (plug t c) \<and> pos (reb t c)"
  using assms
proof (induction c arbitrary: t)
  case (Cons f c)
  have p: "pos t" "0 \<le> snd (snd (snd (frame_cell f)))" "pos (sibling f)" "ctx_pos c" using Cons.prems(1) by (simp_all add: pos_plug pos_plug1)
  note s = fixup_shape [OF p(1) Cons.prems(2)]
  have "plug1 (fixup t) f \<noteq> Leaf" by (cases f) simp_all
  moreover have "pos (plug (plug1 (fixup t) f) c)" using p s(3) by (simp add: pos_plug pos_plug1)
  moreover have "ids (plug (plug1 (fixup t) f) c) = ids (plug (plug1 t f) c)" using s(1) by (cases f) (simp_all add: inorder_plug)
  moreover have "addrs (plug (plug1 (fixup t) f) c) = addrs (plug (plug1 t f) c)" using s(2) by (simp add: addrs_plug addrs_plug1)
  ultimately show ?case using Cons.IH [of "plug1 (fixup t) f"] by simp
next
  case Nil
  then show ?case using fixup_shape [of t] by simp
qed

lemma zipp_node_deref:
  assumes "zipp m (Node l (a, k, v, h) r) c"
  obtains nn where "deref (Some a) m = Inr nn" "n_key nn = k" "n_left nn = root l" "n_right nn = root r" "n_parent nn = par c"
  using zipp_deref [OF assms] by auto

definition new_leaf :: "('k, 'v) treemap \<Rightarrow> 'k \<Rightarrow> 'v \<Rightarrow> ('k, 'v) atree" where
  "new_leaf m k v = Node Leaf (t_next m, k, v, 0) Leaf"

text \<open>Creating a leaf below the last node of the path and rebalancing from there.\<close>

lemma add_leaf:
  assumes z: "zipp m Leaf (f # c)" and new: "t_next m \<notin> ctx_addrs (f # c)" and pos: "ctx_pos (f # c)" and len: "length c \<le> Suc (t_next m)"
    and m1: "createNode k v (Some (fst (frame_cell f))) m = (nd, m1)"
    and m2: "(case f of LFrame x r \<Rightarrow> modify (Some (fst x)) (n_left_update (\<lambda>_. nd)) m1
                      | RFrame l x \<Rightarrow> modify (Some (fst x)) (n_right_update (\<lambda>_. nd)) m1) = Inr m2"
  shows "\<exists>m'. rebalance (Suc (t_next m2)) (Some (fst (frame_cell f))) (m2\<lparr>t_cnt := n\<rparr>) = Inr m' \<and>
    treep m' None (reb (plug1 (new_leaf m k v) f) c) \<and> t_root m' = root (reb (plug1 (new_leaf m k v) f) c) \<and>
    t_next m' = Suc (t_next m) \<and> t_cnt m' = n \<and> (\<forall>a. a \<notin> insert (t_next m) (ctx_addrs (f # c)) \<longrightarrow> t_heap m' a = t_heap m a)"
proof -
  have h: "t_heap m1 = (t_heap m)(t_next m \<mapsto> \<lparr>n_key = k, n_value = v, n_left = None, n_right = None, n_parent = Some (fst (frame_cell f)), n_height = 0, n_balance = 0\<rparr>)"
    and nd: "nd = Some (t_next m)" and nx: "t_next m1 = Suc (t_next m)" using m1 by (auto simp: createNode_def)
  have l: "zipp m2 (new_leaf m k v) (f # c) \<and> t_next m2 = t_next m1 \<and> t_cnt m2 = t_cnt m1 \<and>
      (\<forall>a. a \<notin> insert (t_next m) (ctx_addrs (f # c)) \<longrightarrow> t_heap m2 a = t_heap m a)"
    unfolding new_leaf_def by (rule link_leaf [OF z new h]) (use m2 nd in \<open>auto split: frame.splits\<close>)
  let ?t = "plug1 (new_leaf m k v) f"
  have z2: "zipp (m2\<lparr>t_cnt := n\<rparr>) ?t c"
    using l by (simp add: zipp_up zipp_fields)
  have nl: "?t \<noteq> Leaf" by (cases f) simp_all
  have p: "pos (plug ?t c)" using pos by (simp add: pos_plug pos_plug1 new_leaf_def)
  have A: "addrs ?t \<union> ctx_addrs c = insert (t_next m) (ctx_addrs (f # c))" by (simp add: addrs_plug1 new_leaf_def)
  have "length c < Suc (t_next m2)" using len l nx by simp
  from rebalance_ok [OF z2 nl p this] l nx show ?thesis unfolding A by (auto simp: new_leaf_def simp del: rebalance.simps)
qed

lemma insert_from_ok:
  assumes "zipp m t c" "t \<noteq> Leaf" "height t \<le> fuel" "t_next m \<notin> addrs (plug t c)" "pos (plug t c)" "length c + height t \<le> t_next m"
    and "descend k t c = (t', c')"
  shows "if t' \<noteq> Leaf then insert_from fuel k v (root t) m = Inr (False, m)
    else \<exists>f d m'. c' = f # d \<and> insert_from fuel k v (root t) m = Inr (True, m') \<and>
      treep m' None (reb (plug1 (new_leaf m k v) f) d) \<and> t_root m' = root (reb (plug1 (new_leaf m k v) f) d) \<and>
      t_next m' = Suc (t_next m) \<and> t_cnt m' = t_cnt m \<and> (\<forall>a. a \<notin> insert (t_next m) (addrs (plug t c)) \<longrightarrow> t_heap m' a = t_heap m a)"
  using assms
proof (induction fuel arbitrary: t c)
  case (Suc fuel)
  obtain l a kx vx hx r where t: "t = Node l (a, kx, vx, hx) r" using Suc.prems(2) by (cases t) auto
  let ?x = "(a, kx, vx, hx)"
  from zipp_node_deref [OF Suc.prems(1) [unfolded t]] obtain nn where nn: "deref (Some a) m = Inr nn" "n_key nn = kx" "n_left nn = root l" "n_right nn = root r" by metis
  consider "kx = k" | "kx \<noteq> k" "k < kx" | "kx \<noteq> k" "\<not> k < kx" by blast
  then show ?case
  proof cases
    case 1
    with Suc.prems(7) nn show ?thesis by (auto simp: t)
  next
    case 2
    have d: "descend k l (LFrame ?x r # c) = (t', c')" using 2 Suc.prems(7) by (simp add: t)
    have z: "zipp m l (LFrame ?x r # c)" using Suc.prems(1) by (simp add: t zipp_up)
    show ?thesis
    proof (cases "l = Leaf")
      case True
      obtain nd m1 where m1: "createNode k v (Some a) m = (nd, m1)" by fastforce
      obtain na where "t_heap m a = Some na" using nn(1) by (auto simp: deref_def split: option.splits)
      then have "t_heap m1 a \<noteq> None" using m1 by (auto simp: createNode_def)
      then obtain m2 where m2: "modify (Some a) (n_left_update (\<lambda>_. nd)) m1 = Inr m2" by (auto simp: modify_def)
      have "t_cnt m2 = t_cnt m" using m1 m2 by (auto simp: createNode_def modify_def deref_def split: option.splits)
      then have m2c: "m2\<lparr>t_cnt := t_cnt m\<rparr> = m2" by simp
      have "t_next m \<notin> ctx_addrs (LFrame ?x r # c)" "ctx_pos (LFrame ?x r # c)" "length c \<le> Suc (t_next m)"
        using Suc.prems(4-6) True by (auto simp: t addrs_plug pos_plug frame_addrs_def)
      from add_leaf [OF z [unfolded True] this(1-3), of k v nd m1 m2 "t_cnt m"] m1 m2 m2c d True 2 nn
      show ?thesis by (auto simp: t frame_addrs_def addrs_plug simp del: rebalance.simps)
    next
      case False
      have e: "insert_from (Suc fuel) k v (root t) m = insert_from fuel k v (root l) m" using 2 nn False by (cases l) (auto simp: t)
      have pl: "plug l (LFrame ?x r # c) = plug t c" by (simp add: t)
      have "height l \<le> fuel" "length (LFrame ?x r # c) + height l \<le> t_next m" using Suc.prems(3,6) by (simp_all add: t)
      from Suc.IH [OF z False this(1) _ _ this(2) d, unfolded pl, OF Suc.prems(4,5)] show ?thesis unfolding e .
    qed
  next
    case 3
    have d: "descend k r (RFrame l ?x # c) = (t', c')" using 3 Suc.prems(7) by (simp add: t)
    have z: "zipp m r (RFrame l ?x # c)" using Suc.prems(1) by (simp add: t zipp_up)
    show ?thesis
    proof (cases "r = Leaf")
      case True
      obtain nd m1 where m1: "createNode k v (Some a) m = (nd, m1)" by fastforce
      obtain na where "t_heap m a = Some na" using nn(1) by (auto simp: deref_def split: option.splits)
      then have "t_heap m1 a \<noteq> None" using m1 by (auto simp: createNode_def)
      then obtain m2 where m2: "modify (Some a) (n_right_update (\<lambda>_. nd)) m1 = Inr m2" by (auto simp: modify_def)
      have "t_cnt m2 = t_cnt m" using m1 m2 by (auto simp: createNode_def modify_def deref_def split: option.splits)
      then have m2c: "m2\<lparr>t_cnt := t_cnt m\<rparr> = m2" by simp
      have "t_next m \<notin> ctx_addrs (RFrame l ?x # c)" "ctx_pos (RFrame l ?x # c)" "length c \<le> Suc (t_next m)"
        using Suc.prems(4-6) True by (auto simp: t addrs_plug pos_plug frame_addrs_def)
      from add_leaf [OF z [unfolded True] this(1-3), of k v nd m1 m2 "t_cnt m"] m1 m2 m2c d True 3 nn
      show ?thesis by (auto simp: t frame_addrs_def addrs_plug simp del: rebalance.simps)
    next
      case False
      have e: "insert_from (Suc fuel) k v (root t) m = insert_from fuel k v (root r) m" using 3 nn False by (cases r) (auto simp: t)
      have pl: "plug r (RFrame l ?x # c) = plug t c" by (simp add: t)
      have "height r \<le> fuel" "length (RFrame l ?x # c) + height r \<le> t_next m" using Suc.prems(3,6) by (simp_all add: t)
      from Suc.IH [OF z False this(1) _ _ this(2) d, unfolded pl, OF Suc.prems(4,5)] show ?thesis unfolding e .
    qed
  qed
qed (use assms in \<open>auto simp: neq_Leaf_iff\<close>)

section \<open>Balance\<close>

text \<open>Stored heights are the real ones and the subtrees of every node differ in height by at most one.\<close>

fun balanced_at :: "('k, 'v) atree \<Rightarrow> bool" where
  "balanced_at Leaf \<longleftrightarrow> True"
| "balanced_at (Node l x r) \<longleftrightarrow> sh (Node l x r) = 1 + max (sh l) (sh r) \<and> \<bar>sh l - sh r\<bar> \<le> 1 \<and> balanced_at l \<and> balanced_at r"

lemma balanced_height: "balanced_at t \<Longrightarrow> sh t = int (height t) - 1"
proof (induction t)
  case (Node l x r)
  then show ?case by (cases x) auto
qed simp

lemma balanced_ge [simp]: "balanced_at t \<Longrightarrow> - 1 \<le> sh t"
  by (simp add: balanced_height)

lemma balanced_mk: "balanced_at (mk l x r) \<longleftrightarrow> \<bar>sh l - sh r\<bar> \<le> 1 \<and> balanced_at l \<and> balanced_at r"
  by (cases x) auto

lemma sh_mk [simp]: "sh (mk l x r) = 1 + max (sh l) (sh r)"
  by (cases x) auto

lemma sh_balanced: "balanced_at (Node l x r) \<Longrightarrow> sh (Node l x r) = 1 + max (sh l) (sh r)"
  by simp

lemma fix_left_balanced:
  assumes "balanced_at l" "balanced_at r" "sh l = sh r + 2"
  shows "balanced_at (fix_left l x r) \<and> sh (fix_left l x r) \<in> {sh l, sh l + 1}"
proof -
  have "sh l \<ge> 1" using assms balanced_ge [of r] by linarith
  then obtain ll y lr where l: "l = Node ll y lr" by (cases l) auto
  have b: "balanced_at ll" "balanced_at lr" "\<bar>sh ll - sh lr\<bar> \<le> 1" "sh l = 1 + max (sh ll) (sh lr)" using assms(1) by (auto simp: l)
  show ?thesis
  proof (cases "sh ll \<ge> sh lr")
    case True
    with b assms show ?thesis by (auto simp: l balanced_mk)
  next
    case False
    then obtain a w d where lr: "lr = Node a w d" using b by (cases lr) (auto dest: balanced_ge)
    have "balanced_at a" "balanced_at d" "\<bar>sh a - sh d\<bar> \<le> 1" "sh lr = 1 + max (sh a) (sh d)" using b(2) by (auto simp: lr)
    with False b assms show ?thesis by (auto simp: l lr balanced_mk)
  qed
qed

lemma fix_right_balanced:
  assumes "balanced_at l" "balanced_at r" "sh r = sh l + 2"
  shows "balanced_at (fix_right l x r) \<and> sh (fix_right l x r) \<in> {sh r, sh r + 1}"
proof -
  have "sh r \<ge> 1" using assms balanced_ge [of l] by linarith
  then obtain rl y rr where r: "r = Node rl y rr" by (cases r) auto
  have b: "balanced_at rl" "balanced_at rr" "\<bar>sh rl - sh rr\<bar> \<le> 1" "sh r = 1 + max (sh rl) (sh rr)" using assms(2) by (auto simp: r)
  show ?thesis
  proof (cases "sh rr \<ge> sh rl")
    case True
    with b assms show ?thesis by (auto simp: r balanced_mk)
  next
    case False
    then obtain a w d where rl: "rl = Node a w d" using b by (cases rl) (auto dest: balanced_ge)
    have "balanced_at a" "balanced_at d" "\<bar>sh a - sh d\<bar> \<le> 1" "sh rl = 1 + max (sh a) (sh d)" using b(1) by (auto simp: rl)
    with False b assms show ?thesis by (auto simp: r rl balanced_mk)
  qed
qed

lemma fixup_balanced:
  assumes "balanced_at l" "balanced_at r" "\<bar>sh l - sh r\<bar> \<le> 2"
  shows "balanced_at (fixup (Node l x r)) \<and>
    (if \<bar>sh l - sh r\<bar> \<le> 1 then sh (fixup (Node l x r)) = 1 + max (sh l) (sh r)
     else sh (fixup (Node l x r)) \<in> {max (sh l) (sh r), 1 + max (sh l) (sh r)})"
proof -
  consider "sh l = sh r + 2" | "sh r = sh l + 2" | "\<bar>sh l - sh r\<bar> \<le> 1" using assms(3) by linarith
  then show ?thesis
  proof cases
    case 1
    with fix_left_balanced [OF assms(1,2) 1, of x] show ?thesis by auto
  next
    case 2
    with fix_right_balanced [OF assms(1,2) 2, of x] show ?thesis by auto
  next
    case 3
    with assms show ?thesis by (auto simp: balanced_mk)
  qed
qed

lemma fixup_grown:
  assumes "balanced_at (plug1 t0 f)" "balanced_at t" "sh t = sh t0 \<or> sh t = sh t0 + 1"
  shows "balanced_at (fixup (plug1 t f)) \<and> (sh (fixup (plug1 t f)) = sh (plug1 t0 f) \<or> sh (fixup (plug1 t f)) = sh (plug1 t0 f) + 1)"
proof (cases f)
  case (LFrame x r)
  have b: "balanced_at r" "\<bar>sh t0 - sh r\<bar> \<le> 1" "sh (plug1 t0 f) = 1 + max (sh t0) (sh r)" using assms(1) by (auto simp: LFrame)
  have "\<bar>sh t - sh r\<bar> \<le> 2" using b(2) assms(3) by linarith
  from fixup_balanced [OF assms(2) b(1) this, of x] show ?thesis
    unfolding b(3) using b(2) assms(3) by (auto simp: LFrame max_def split: if_splits)
next
  case (RFrame l x)
  have b: "balanced_at l" "\<bar>sh t0 - sh l\<bar> \<le> 1" "sh (plug1 t0 f) = 1 + max (sh l) (sh t0)" using assms(1) by (auto simp: RFrame)
  have "\<bar>sh l - sh t\<bar> \<le> 2" using b(2) assms(3) by linarith
  from fixup_balanced [OF b(1) assms(2) this, of x] show ?thesis
    unfolding b(3) using b(2) assms(3) by (auto simp: RFrame max_def split: if_splits)
qed

lemma balanced_plug: "balanced_at (plug t c) \<Longrightarrow> balanced_at t"
proof (induction c arbitrary: t)
  case (Cons f c)
  then have "balanced_at (plug1 t f)" by simp
  then show ?case by (cases f) auto
qed simp

lemma reb_balanced:
  assumes "balanced_at (plug (plug1 t0 f) c)" "balanced_at t" "sh t = sh t0 \<or> sh t = sh t0 + 1"
  shows "balanced_at (reb (plug1 t f) c)"
  using assms
proof (induction c arbitrary: t0 t f)
  case Nil
  then show ?case using fixup_grown [of t0 f t] by simp
next
  case (Cons g c)
  have "balanced_at (plug1 t0 f)" using Cons.prems(1) by (rule balanced_plug)
  from fixup_grown [OF this Cons.prems(2,3)] Cons.IH [of "plug1 t0 f" g "fixup (plug1 t f)"] Cons.prems(1) show ?case by simp
qed

section \<open>The container\<close>

definition tree_inv :: "('k::linorder, 'v) treemap \<Rightarrow> ('k, 'v) atree \<Rightarrow> bool" where
  "tree_inv m t \<longleftrightarrow>
     treep m None t \<and> t_root m = root t \<and> (\<forall>a. t_heap m a \<noteq> None \<longleftrightarrow> a \<in> addrs t) \<and> (\<forall>a\<in>addrs t. a < t_next m) \<and>
     pos t \<and> ascending (ents t) \<and> t_cnt m = of_nat (length (inorder t))"

definition tree_map :: "('k, 'v) atree \<Rightarrow> ('k \<rightharpoonup> 'v)" where
  "tree_map t = map_of (ents t)"

lemma treep_distinct: "treep m p t \<Longrightarrow> distinct (map fst (inorder t))"
proof (induction t arbitrary: p)
  case (Node l x r)
  obtain a k v h where x: "x = (a, k, v, h)" by (metis prod_cases4)
  show ?case using Node.prems Node.IH(1) [of "Some a"] Node.IH(2) [of "Some a"] by (auto simp: x)
qed simp

lemma tree_inv_size:
  assumes "tree_inv m t"
  shows "length (inorder t) \<le> t_next m" "height t \<le> t_next m"
proof -
  have "distinct (map fst (inorder t))" using assms treep_distinct by (auto simp: tree_inv_def)
  then have "length (inorder t) = card (addrs t)" using distinct_card [of "map fst (inorder t)"] by simp
  also have "\<dots> \<le> card {..<t_next m}" using assms by (intro card_mono) (auto simp: tree_inv_def)
  finally show l: "length (inorder t) \<le> t_next m" by simp
  have "height t \<le> length (inorder t)" using height_size [of t] by simp
  with l show "height t \<le> t_next m" by simp
qed

lemma ents_ids: "ents t = map snd (ids t)"
  by (simp add: nid_def comp_def)

lemma ascending_lookup:
  assumes "ascending (xs @ (k, v) # ys)"
  shows "map_of (xs @ (k, v) # ys) = (map_of (xs @ ys))(k \<mapsto> v)" "map_of (xs @ ys) k = None"
proof -
  have k: "k \<notin> fst ` set xs" "k \<notin> fst ` set ys" using assms by (force simp: ascending_append ascending_Cons)+
  then show "map_of (xs @ ys) k = None" by (auto simp: map_of_eq_None_iff)
  show "map_of (xs @ (k, v) # ys) = (map_of (xs @ ys))(k \<mapsto> v)"
    using k(1) map_of_eq_None_iff [of xs k] by (auto simp: fun_eq_iff map_add_def split: option.splits)
qed

lemma descend_found:
  assumes "descend k t [] = (t', c')" "ascending (ents t)"
  shows "t' = Leaf \<longleftrightarrow> tree_map t k = None" "t' = Node l x r \<Longrightarrow> tree_map t k = Some (fst (snd (snd x)))"
proof -
  note pl = descend_plug [OF assms(1)]
  have io: "inorder t = lefts c' @ inorder t' @ rights c'" using pl inorder_plug [of t' c'] by simp
  have ord: "(\<forall>x\<in>set (lefts c'). ckey x < k) \<and> (\<forall>x\<in>set (rights c'). k < ckey x)" by (rule descend_order [OF assms]) simp_all
  have f: "tree_map t k = Some (fst (snd (snd x)))" if n: "t' = Node l x r" for l x r
  proof -
    have "ckey x = k" using pl n by auto
    then have e: "ents t = (map cent (lefts c') @ ents l) @ (k, fst (snd (snd x))) # (ents r @ map cent (rights c'))" by (simp add: io n)
    show ?thesis using ascending_lookup(1) [of "map cent (lefts c') @ ents l" k "fst (snd (snd x))" "ents r @ map cent (rights c')"] assms(2)
      unfolding e tree_map_def by simp
  qed
  then show "t' = Node l x r \<Longrightarrow> tree_map t k = Some (fst (snd (snd x)))" .
  have "tree_map t k = None" if "t' = Leaf"
    using ord that by (auto simp: tree_map_def io map_of_eq_None_iff)
  with f show "t' = Leaf \<longleftrightarrow> tree_map t k = None" by (cases t') auto
qed

lemma tree_find_ok:
  assumes "tree_inv m t"
  shows "\<exists>p. tree_find k m = Inr p \<and> (case tree_map t k of None \<Rightarrow> p = None | Some v \<Rightarrow> \<exists>n. deref p m = Inr n \<and> n_key n = k \<and> n_value n = v)"
proof -
  obtain t' c' where d: "descend k t [] = (t', c')" by fastforce
  have i: "treep m None t" "t_root m = root t" "ascending (ents t)" using assms by (simp_all add: tree_inv_def)
  have f: "tree_find k m = Inr (root t')"
    unfolding tree_find_def i(2) using find_from_ok [OF i(1), of "Suc (t_next m)" k "[]"] tree_inv_size(2) [OF assms] d by simp
  show ?thesis
  proof (cases t')
    case Leaf
    with f descend_found(1) [OF d i(3)] show ?thesis by simp
  next
    case (Node l x r)
    have "zipp m (Node l x r) c'" using i(1) descend_plug [OF d] Node by (simp add: zipp_plug)
    from zipp_deref [OF this] obtain n where "deref (Some (fst x)) m = Inr n" "n_key n = ckey x" "n_value n = fst (snd (snd x))" by blast
    moreover have "ckey x = k" using descend_plug [OF d] Node by auto
    ultimately show ?thesis using f descend_found(2) [OF d i(3) Node] Node by simp
  qed
qed

lemma treep_heap: "treep m p t \<Longrightarrow> a \<in> addrs t \<Longrightarrow> t_heap m a \<noteq> None"
  by (induction m p t rule: treep.induct) (auto simp: is_node_def)

text \<open>The tree after a leaf was added at the place the search for \<open>k\<close> ended.\<close>

lemma grown_tree:
  fixes m :: "('k::linorder, 'v) treemap" and v :: 'v
  assumes pl: "plug Leaf (f # g) = t" and p: "pos t" and asc: "ascending (ents t)"
    and ord: "\<forall>x\<in>set (lefts (f # g)). ckey x < k" "\<forall>x\<in>set (rights (f # g)). k < ckey x"
  defines "t' \<equiv> reb (plug1 (new_leaf m k v) f) g"
  shows "pos t'" "ascending (ents t')" "addrs t' = insert (t_next m) (addrs t)" "length (inorder t') = Suc (length (inorder t))"
    "tree_map t' = (tree_map t)(k \<mapsto> v)" "balanced_at t \<Longrightarrow> balanced_at t'"
proof -
  have "pos (plug Leaf (f # g))" using p unfolding pl .
  then have p: "pos (plug (plug1 (new_leaf m k v) f) g)" by (simp add: pos_plug pos_plug1 new_leaf_def)
  have "plug1 (new_leaf m k v) f \<noteq> Leaf" by (cases f) simp_all
  note s = reb_shape [OF p this, folded t'_def]
  show "pos t'" using s by simp
  have io: "ents t = map cent (lefts (f # g)) @ map cent (rights (f # g))" using inorder_plug [of Leaf "f # g"] unfolding pl by simp
  have "ids t' = map nid (lefts (f # g)) @ (t_next m, k, v) # map nid (rights (f # g))"
    using s inorder_plug [of "new_leaf m k v" "f # g"] by (simp add: new_leaf_def nid_def)
  then have it: "ents t' = map cent (lefts (f # g)) @ (k, v) # map cent (rights (f # g))" unfolding ents_ids by (simp add: comp_def nid_def)
  show a: "ascending (ents t')" using asc ord unfolding it io by (auto simp: ascending_append ascending_Cons)
  show "addrs t' = insert (t_next m) (addrs t)"
    using s addrs_plug [of "new_leaf m k v" "f # g"] addrs_plug [of Leaf "f # g"] unfolding pl by (auto simp: new_leaf_def)
  show "length (inorder t') = Suc (length (inorder t))" using arg_cong [OF it, of length] arg_cong [OF io, of length] by simp
  show "tree_map t' = (tree_map t)(k \<mapsto> v)" unfolding tree_map_def it io by (rule ascending_lookup(1) [OF a [unfolded it]])
  show "balanced_at t \<Longrightarrow> balanced_at t'" unfolding t'_def
    using reb_balanced [of Leaf f g "new_leaf m k v"] pl by (simp add: new_leaf_def)
qed

lemma tree_insert_ok:
  assumes inv: "tree_inv m t"
  shows "\<exists>m' t'. tree_insert k v m = Inr (tree_map t k = None, m') \<and> tree_inv m' t' \<and>
    tree_map t' = (if tree_map t k = None then (tree_map t)(k \<mapsto> v) else tree_map t) \<and> (balanced_at t \<longrightarrow> balanced_at t')"
proof -
  obtain t0 c0 where d: "descend k t [] = (t0, c0)" by fastforce
  have i: "treep m None t" "t_root m = root t" "\<forall>a. t_heap m a \<noteq> None \<longleftrightarrow> a \<in> addrs t" "\<forall>a\<in>addrs t. a < t_next m" "pos t" "ascending (ents t)"
    "t_cnt m = of_nat (length (inorder t))" using inv by (simp_all add: tree_inv_def)
  show ?thesis
  proof (cases "t = Leaf")
    case True
    define m1 where "m1 = m\<lparr>t_heap := (t_heap m)(t_next m \<mapsto> \<lparr>n_key = k, n_value = v, n_left = None, n_right = None, n_parent = None, n_height = 0, n_balance = 0\<rparr>),
        t_next := Suc (t_next m), t_root := Some (t_next m), t_cnt := 1\<rparr>"
    have "tree_insert k v m = Inr (True, m1)" using i(2,7) by (simp add: True tree_insert_def createNode_def m1_def)
    moreover have "tree_inv m1 (new_leaf m k v)" using i(3) by (auto simp: tree_inv_def new_leaf_def m1_def True is_node_def ascending_def)
    ultimately show ?thesis
      by (intro exI [of _ m1] exI [of _ "new_leaf m k v"]) (simp add: tree_map_def True new_leaf_def)
  next
    case False
    have z: "zipp m t []" using i(1) by (simp add: zipp_def)
    have new: "t_next m \<notin> addrs (plug t [])" "pos (plug t [])" using i(4,5) by auto
    note r = insert_from_ok [OF z False tree_inv_size(2) [OF inv] new _ d, of v, simplified, OF tree_inv_size(2) [OF inv]]
    obtain y where y: "root t = Some y" using False by (cases t) auto
    show ?thesis
    proof (cases "t0 = Leaf")
      case found: False
      then have "tree_map t k \<noteq> None" using descend_found(1) [OF d i(6)] by simp
      moreover have "insert_from (t_next m) k v (root t) m = Inr (False, m)" using r found by simp
      then have "tree_insert k v m = Inr (False, m)" using i(2) y by (simp add: tree_insert_def)
      ultimately show ?thesis using inv by auto
    next
      case missing: True
      have none: "tree_map t k = None" using descend_found(1) [OF d i(6)] missing by simp
      from r missing obtain f g m1 where m1: "c0 = f # g" "insert_from (t_next m) k v (root t) m = Inr (True, m1)"
        "treep m1 None (reb (plug1 (new_leaf m k v) f) g)" "t_root m1 = root (reb (plug1 (new_leaf m k v) f) g)" "t_next m1 = Suc (t_next m)" "t_cnt m1 = t_cnt m"
        "\<And>a. a \<noteq> t_next m \<Longrightarrow> a \<notin> addrs t \<Longrightarrow> t_heap m1 a = t_heap m a" by auto
      let ?t = "reb (plug1 (new_leaf m k v) f) g" and ?m = "m1\<lparr>t_cnt := t_cnt m1 + 1\<rparr>"
      have pl: "plug Leaf (f # g) = t" using descend_plug [OF d] missing m1(1) by simp
      have ord: "\<forall>x\<in>set (lefts (f # g)). ckey x < k" "\<forall>x\<in>set (rights (f # g)). k < ckey x"
        using descend_order [OF d i(6)] m1(1) by simp_all
      note g = grown_tree [OF pl i(5,6) ord, of m v]
      have heap: "t_heap m1 a \<noteq> None \<longleftrightarrow> a \<in> addrs ?t" for a
        using treep_heap [OF m1(3), of a] m1(7) [of a] i(3) g(3) by (cases "a = t_next m"; cases "a \<in> addrs t") simp_all
      have "tree_inv ?m ?t"
        unfolding tree_inv_def using m1(3-6) heap g(1-4) i(4,7) by (auto simp: less_Suc_eq)
      moreover have "tree_insert k v m = Inr (True, ?m)" using m1(2) y i(2) by (simp add: tree_insert_def)
      ultimately show ?thesis using none g(5,6) by auto
    qed
  qed
qed

section \<open>Removing a node\<close>

fun del_leaf :: "('k, 'v) frame list \<Rightarrow> ('k, 'v) atree" where
  "del_leaf [] = Leaf"
| "del_leaf [f] = plug1 Leaf f"
| "del_leaf (f # g # c) = reb (plug1 (plug1 Leaf f) g) c"

lemma deref_heap: "deref (Some a) m = Inr n \<longleftrightarrow> t_heap m a = Some n"
  by (simp add: deref_def split: option.splits)

lemma destroy_leaf:
  assumes "t_heap m a = Some n" "n_left n = None" "n_right n = None" "0 < i"
  shows "destroyNode (Suc i) (Some a) m = Inr (m\<lparr>t_heap := (t_heap m)(a := None)\<rparr>)"
  using assms by (cases i) simp_all

text \<open>Unlinking a leaf from its parent.\<close>

lemma unlink_leaf:
  assumes z: "zipp m (Node Leaf x Leaf) (f # c)" and "0 < i"
  obtains np m1 where "deref (Some (fst (frame_cell f))) m = Inr np"
    "(if n_left np \<noteq> None \<and> n_left np = Some (fst x)
      then bindE (destroyNode (Suc i) (n_left np) m) (modify (Some (fst (frame_cell f))) (n_left_update (\<lambda>_. None)))
      else if n_right np \<noteq> None
      then bindE (destroyNode (Suc i) (n_right np) m) (modify (Some (fst (frame_cell f))) (n_right_update (\<lambda>_. None)))
      else Inr m) = Inr m1"
    "zipp m1 Leaf (f # c)" "t_next m1 = t_next m" "t_cnt m1 = t_cnt m" "t_root m1 = t_root m" "t_heap m1 (fst x) = None"
    "\<And>b. b \<noteq> fst x \<Longrightarrow> b \<notin> ctx_addrs (f # c) \<Longrightarrow> t_heap m1 b = t_heap m b"
proof -
  obtain a k v h where x: "x = (a, k, v, h)" by (metis prod_cases4)
  from zipp_node_deref [OF z [unfolded x]] obtain na where na: "t_heap m a = Some na" "n_left na = None" "n_right na = None"
    by (metis deref_heap root.simps(1))
  show thesis
  proof (cases f)
    case (LFrame y r)
    obtain p ky vy hy where y: "y = (p, ky, vy, hy)" by (metis prod_cases4)
    from z obtain q where np: "t_heap m p = Some \<lparr>n_key = ky, n_value = vy, n_left = Some a, n_right = root r, n_parent = par c, n_height = hy, n_balance = q\<rparr>"
      and t: "treep m (Some p) r" "ctxp m (Some p) c" "p \<notin> addrs r" "frame_addrs f \<inter> ctx_addrs c = {}" "a \<noteq> p" "a \<notin> addrs r" "a \<notin> ctx_addrs c"
      by (auto simp: zipp_def LFrame x y is_node_def frame_addrs_def)
    let ?m1 = "m\<lparr>t_heap := (t_heap m)(a := None, p \<mapsto> \<lparr>n_key = ky, n_value = vy, n_left = None, n_right = root r, n_parent = par c, n_height = hy, n_balance = q\<rparr>)\<rparr>"
    have "zipp ?m1 Leaf (f # c)" using t by (auto simp: zipp_def LFrame y is_node_def frame_addrs_def)
    then show thesis using np t destroy_leaf [OF na assms(2)]
      by (intro that [of "\<lparr>n_key = ky, n_value = vy, n_left = Some a, n_right = root r, n_parent = par c, n_height = hy, n_balance = q\<rparr>" ?m1])
        (auto simp: LFrame x y frame_addrs_def simp del: destroyNode.simps)
  next
    case (RFrame l y)
    obtain p ky vy hy where y: "y = (p, ky, vy, hy)" by (metis prod_cases4)
    from z obtain q where np: "t_heap m p = Some \<lparr>n_key = ky, n_value = vy, n_left = root l, n_right = Some a, n_parent = par c, n_height = hy, n_balance = q\<rparr>"
      and t: "treep m (Some p) l" "ctxp m (Some p) c" "p \<notin> addrs l" "frame_addrs f \<inter> ctx_addrs c = {}" "a \<noteq> p" "a \<notin> addrs l" "a \<notin> ctx_addrs c"
      by (auto simp: zipp_def RFrame x y is_node_def frame_addrs_def)
    have "root l \<noteq> Some a" using t(6) root_in by blast
    let ?m1 = "m\<lparr>t_heap := (t_heap m)(a := None, p \<mapsto> \<lparr>n_key = ky, n_value = vy, n_left = root l, n_right = None, n_parent = par c, n_height = hy, n_balance = q\<rparr>)\<rparr>"
    have "zipp ?m1 Leaf (f # c)" using t by (auto simp: zipp_def RFrame y is_node_def frame_addrs_def)
    then show thesis using np t destroy_leaf [OF na assms(2)] \<open>root l \<noteq> Some a\<close>
      by (intro that [of "\<lparr>n_key = ky, n_value = vy, n_left = root l, n_right = Some a, n_parent = par c, n_height = hy, n_balance = q\<rparr>" ?m1])
        (auto simp: RFrame x y frame_addrs_def simp del: destroyNode.simps)
  qed
qed

lemma plug1_not_Leaf [simp]: "plug1 t f \<noteq> Leaf"
  by (cases f) simp_all

lemma del_leaf_shape:
  assumes "ctx_pos c"
  shows "ids (del_leaf c) = map nid (lefts c @ rights c)" "addrs (del_leaf c) = ctx_addrs c" "pos (del_leaf c)"
proof -
  have "ids (del_leaf c) = map nid (lefts c @ rights c) \<and> addrs (del_leaf c) = ctx_addrs c \<and> pos (del_leaf c)"
  proof (cases c rule: del_leaf.cases)
    case (2 f)
    then show ?thesis using assms inorder_plug [of Leaf "[f]"] addrs_plug [of Leaf "[f]"] by (simp add: pos_plug1)
  next
    case (3 f g d)
    have "pos (plug (plug1 (plug1 Leaf f) g) d)" using assms by (simp add: 3 pos_plug pos_plug1)
    from reb_shape [OF this] inorder_plug [of Leaf c] addrs_plug [of Leaf c] show ?thesis by (simp add: 3)
  qed simp
  then show "ids (del_leaf c) = map nid (lefts c @ rights c)" "addrs (del_leaf c) = ctx_addrs c" "pos (del_leaf c)" by auto
qed

text \<open>What removing the leaf in focus leaves behind: the tree \<open>t'\<close>, without the address \<open>b\<close>.\<close>

definition removed :: "nat \<Rightarrow> ('k, 'v) treemap \<Rightarrow> ('k, 'v) atree \<Rightarrow> ('k, 'v) treemap \<Rightarrow> ('k, 'v) atree \<Rightarrow> bool" where
  "removed b m t m' t' \<longleftrightarrow>
     treep m' None t' \<and> t_root m' = root t' \<and> t_next m' = t_next m \<and> t_cnt m' = t_cnt m - 1 \<and> pos t' \<and>
     b \<in> addrs t \<and> addrs t' = addrs t - {b} \<and> t_heap m' b = None \<and> (\<forall>a. a \<notin> addrs t \<longrightarrow> t_heap m' a = t_heap m a)"

lemma delete_leaf_ok:
  assumes z: "zipp m (Node Leaf x Leaf) c" and root: "t_root m = root (plug (Node Leaf x Leaf) c)" and p: "ctx_pos c"
    and len: "length c \<le> t_next m" "0 < t_next m"
  shows "\<exists>m'. delete_leaf (Some (fst x)) m = Inr m' \<and> removed (fst x) m (plug (Node Leaf x Leaf) c) m' (del_leaf c)"
proof -
  obtain a k v h where x: "x = (a, k, v, h)" by (metis prod_cases4)
  let ?m0 = "m\<lparr>t_cnt := t_cnt m - 1\<rparr>"
  have z0: "zipp ?m0 (Node Leaf x Leaf) c" using z by (simp add: zipp_fields)
  from zipp_node_deref [OF z [unfolded x]] obtain na where na: "deref (Some a) m = Inr na" "n_left na = None" "n_right na = None" "n_parent na = par c" by (metis root.simps(1))
  have ha: "t_heap ?m0 a = Some na" using na(1) by (simp add: deref_heap)
  have out: "a \<notin> ctx_addrs c" using z by (auto simp: zipp_def x)
  have ad: "addrs (plug (Node Leaf x Leaf) c) = insert a (ctx_addrs c)" by (simp add: addrs_plug x)
  note s = del_leaf_shape [OF p]
  show ?thesis
  proof (cases c)
    case Nil
    then have "delete_leaf (Some a) m = Inr (?m0\<lparr>t_heap := (t_heap m)(a := None), t_root := None\<rparr>)"
      using na root destroy_leaf [OF ha na(2,3) len(2)] by (simp add: delete_leaf_def x Let_def del: destroyNode.simps)
    then show ?thesis by (simp add: removed_def x Nil)
  next
    case (Cons f d)
    from unlink_leaf [OF z0 [unfolded Cons] len(2)] obtain np m1 where
      np: "deref (Some (fst (frame_cell f))) ?m0 = Inr np" and
      un: "(if n_left np \<noteq> None \<and> n_left np = Some (fst x)
            then bindE (destroyNode (Suc (t_next m)) (n_left np) ?m0) (modify (Some (fst (frame_cell f))) (n_left_update (\<lambda>_. None)))
            else if n_right np \<noteq> None
            then bindE (destroyNode (Suc (t_next m)) (n_right np) ?m0) (modify (Some (fst (frame_cell f))) (n_right_update (\<lambda>_. None)))
            else Inr ?m0) = Inr m1"
      and m1: "zipp m1 Leaf (f # d)" "t_next m1 = t_next ?m0" "t_cnt m1 = t_cnt ?m0" "t_root m1 = t_root ?m0" "t_heap m1 (fst x) = None"
        "\<And>b. b \<noteq> fst x \<Longrightarrow> b \<notin> ctx_addrs (f # d) \<Longrightarrow> t_heap m1 b = t_heap ?m0 b" by blast
    have zf: "zipp m1 (plug1 Leaf f) d" using m1(1) by (simp add: zipp_up)
    obtain l y r where pf: "plug1 Leaf f = Node l y r" "fst y = fst (frame_cell f)" by (cases f) auto
    from zipp_deref [OF zf [unfolded pf]] pf(2) obtain np1 where np1: "deref (Some (fst (frame_cell f))) m1 = Inr np1" "n_parent np1 = par d" by auto
    have dl: "delete_leaf (Some a) m = rebalance (Suc (t_next m)) (par d) m1"
      unfolding delete_leaf_def using na(1,4) np un np1 by (simp add: Cons x Let_def del: destroyNode.simps rebalance.simps)
    show ?thesis
    proof (cases d)
      case Nil
      have "delete_leaf (Some a) m = Inr m1" using dl Nil by simp
      moreover have "t_root m1 = root (plug1 Leaf f)" using m1(4) root by (simp add: Cons Nil)
      ultimately show ?thesis using m1 s out ad zf by (auto simp: removed_def x Cons Nil zipp_def)
    next
      case d: (Cons g e)
      have z2: "zipp m1 (plug1 (plug1 Leaf f) g) e" using zf by (simp add: d zipp_up)
      have p2: "pos (plug (plug1 (plug1 Leaf f) g) e)" using p by (simp add: Cons d pos_plug pos_plug1)
      from rebalance_ok [OF z2 _ p2, of "Suc (t_next m)"] len obtain m' where
        m': "rebalance (Suc (t_next m)) (par d) m1 = Inr m'" "treep m' None (del_leaf c)" "t_root m' = root (del_leaf c)" "t_next m' = t_next m1" "t_cnt m' = t_cnt m1"
          "\<forall>b. b \<notin> ctx_addrs c \<longrightarrow> t_heap m' b = t_heap m1 b"
        by (auto simp: Cons d addrs_plug1 Un_ac simp del: rebalance.simps)
      then have "t_heap m' a = None" using out m1(5) by (simp add: x)
      with m' m1 s out ad dl show ?thesis by (auto simp: removed_def x Cons)
    qed
  qed
qed

text \<open>The last node of a tree in order, with the frames above it; and the first one.\<close>

fun last_node :: "('k, 'v) atree \<Rightarrow> ('k, 'v) atree \<times> ('k, 'v) frame list" where
  "last_node Leaf = (Leaf, [])"
| "last_node (Node l x r) = (if r = Leaf then (Node l x r, []) else let (t, fs) = last_node r in (t, fs @ [RFrame l x]))"

fun first_node :: "('k, 'v) atree \<Rightarrow> ('k, 'v) atree \<times> ('k, 'v) frame list" where
  "first_node Leaf = (Leaf, [])"
| "first_node (Node l x r) = (if l = Leaf then (Node l x r, []) else let (t, fs) = first_node l in (t, fs @ [LFrame x r]))"

lemma last_node_shape:
  assumes "last_node t = (u, fs)" "t \<noteq> Leaf"
  shows "\<exists>l x. u = Node l x Leaf" "plug u (fs @ c) = plug t c" "length fs + height u \<le> height t" "rights (fs @ c) = rights c"
    "lefts (fs @ c) @ inorder u = lefts c @ inorder t"
  using assms by (induction t arbitrary: u fs c) (auto split: if_splits prod.splits, fastforce+)

lemma first_node_shape:
  assumes "first_node t = (u, fs)" "t \<noteq> Leaf"
  shows "\<exists>x r. u = Node Leaf x r" "plug u (fs @ c) = plug t c" "length fs + height u \<le> height t" "lefts (fs @ c) = lefts c"
    "inorder u @ rights (fs @ c) = inorder t @ rights c"
  using assms by (induction t arbitrary: u fs c) (auto split: if_splits prod.splits, fastforce+)

lemma rightmost_ok:
  assumes "treep m p t" "t \<noteq> Leaf" "height t \<le> fuel" "last_node t = (u, fs)"
  shows "rightmost fuel (root t) m = Inr (root u)"
  using assms
proof (induction t arbitrary: p fuel fs)
  case (Node l x r)
  obtain a k v h where x: "x = (a, k, v, h)" by (metis prod_cases4)
  obtain n where f: "fuel = Suc n" "height r \<le> n" using Node.prems(3) by (cases fuel) auto
  from Node.prems(1) obtain nn where nn: "t_heap m a = Some nn" "n_right nn = root r" "treep m (Some a) r" by (auto simp: x is_node_def)
  show ?case
  proof (cases "r = Leaf")
    case False
    then obtain y where "root r = Some y" by (cases r) auto
    moreover obtain fs' where "last_node r = (u, fs')" using Node.prems(4) False by (auto split: prod.splits)
    ultimately show ?thesis using Node.IH(2) [OF nn(3) False f(2)] nn by (simp add: f x)
  qed (use nn Node.prems(4) in \<open>auto simp: f x\<close>)
qed simp

lemma leftmost_ok:
  assumes "treep m p t" "t \<noteq> Leaf" "height t \<le> fuel" "first_node t = (u, fs)"
  shows "leftmost fuel (root t) m = Inr (root u)"
  using assms
proof (induction t arbitrary: p fuel fs)
  case (Node l x r)
  obtain a k v h where x: "x = (a, k, v, h)" by (metis prod_cases4)
  obtain n where f: "fuel = Suc n" "height l \<le> n" using Node.prems(3) by (cases fuel) auto
  from Node.prems(1) obtain nn where nn: "t_heap m a = Some nn" "n_left nn = root l" "treep m (Some a) l" by (auto simp: x is_node_def)
  show ?case
  proof (cases "l = Leaf")
    case False
    then obtain y where "root l = Some y" by (cases l) auto
    moreover obtain fs' where "first_node l = (u, fs')" using Node.prems(4) False by (auto split: prod.splits)
    ultimately show ?thesis using Node.IH(1) [OF nn(3) False f(2)] nn by (simp add: f x)
  qed (use nn Node.prems(4) in \<open>auto simp: f x\<close>)
qed simp

text \<open>Moving the data of the node in the subtree \<open>u\<close> below into the node in focus.\<close>

lemma move_data_ok:
  assumes z: "zipp m (Node l (a, k, v, h) r) c" and u: "zipp m (Node ul y ur) d" "plug (Node ul y ur) d = plug (Node l (a, k, v, h) r) c"
  shows "\<exists>m'. move_data (Some (fst y)) (Some a) m = Inr m' \<and> zipp m' (Node l (a, ckey y, fst (snd (snd y)), h) r) c \<and>
    t_next m' = t_next m \<and> t_root m' = t_root m \<and> t_cnt m' = t_cnt m \<and> (\<forall>b. b \<noteq> a \<longrightarrow> t_heap m' b = t_heap m b)"
proof -
  from z obtain b where n: "t_heap m a = Some \<lparr>n_key = k, n_value = v, n_left = root l, n_right = root r, n_parent = par c, n_height = h, n_balance = b\<rparr>" by (rule zipp_node)
  from zipp_deref [OF u(1)] obtain nc where nc: "deref (Some (fst y)) m = Inr nc" "n_key nc = ckey y" "n_value nc = fst (snd (snd y))" by blast
  let ?m = "m\<lparr>t_heap := (t_heap m)(a \<mapsto> \<lparr>n_key = ckey y, n_value = fst (snd (snd y)), n_left = root l, n_right = root r, n_parent = par c, n_height = h, n_balance = b\<rparr>)\<rparr>"
  have "move_data (Some (fst y)) (Some a) m = Inr ?m" using nc n by (simp add: move_data_def)
  moreover have "zipp ?m (Node l (a, ckey y, fst (snd (snd y)), h) r) c" by (rule zipp_set_height [OF z]) simp
  ultimately show ?thesis by simp
qed

lemma root_plug: "root (plug t c) = (if c = [] then root t else Some (fst (frame_cell (last c))))"
  by (induction c arbitrary: t) simp_all

lemma move_data_step:
  assumes z: "zipp m (Node l x r) c" and pl: "\<And>x. plug (Node ul y ur) (fs @ g x # c) = plug (Node l x r) c"
    and root: "t_root m = root (plug (Node l x r) c)" and pos: "pos (plug (Node l x r) c)"
  obtains m1 x' where "move_data (Some (fst y)) (Some (fst x)) m = Inr m1" "cent x' = cent y" "zipp m1 (Node ul y ur) (fs @ g x' # c)"
    "t_root m1 = root (plug (Node ul y ur) (fs @ g x' # c))" "pos (plug (Node ul y ur) (fs @ g x' # c))" "t_next m1 = t_next m"
    "\<And>b m' t'. removed b m1 (plug (Node ul y ur) (fs @ g x' # c)) m' t' \<Longrightarrow> removed b m (plug (Node l x r) c) m' t'"
proof -
  obtain a k v h where x: "x = (a, k, v, h)" by (metis prod_cases4)
  define x' where "x' = (a, ckey y, fst (snd (snd y)), h)"
  have "zipp m (Node ul y ur) (fs @ g x # c)" using z pl by (simp add: zipp_plug)
  from move_data_ok [OF z [unfolded x] this] pl obtain m1 where m1: "move_data (Some (fst y)) (Some a) m = Inr m1" "zipp m1 (Node l x' r) c"
    "t_next m1 = t_next m" "t_root m1 = t_root m" "t_cnt m1 = t_cnt m" "\<forall>b. b \<noteq> a \<longrightarrow> t_heap m1 b = t_heap m b" by (auto simp: x x'_def)
  have "a \<in> addrs (plug (Node l x r) c)" "addrs (plug (Node l x' r) c) = addrs (plug (Node l x r) c)" by (simp_all add: addrs_plug x x'_def)
  then have "removed b m (plug (Node l x r) c) m' t'" if "removed b m1 (plug (Node l x' r) c) m' t'" for b m' t'
    using that m1(3,5,6) by (auto simp: removed_def)
  moreover have "t_root m1 = root (plug (Node l x' r) c)" using root m1(4) by (simp add: root_plug x x'_def)
  moreover have "pos (plug (Node l x' r) c)" using pos by (simp add: pos_plug x x'_def)
  ultimately show thesis using m1(1-3) by (intro that [of m1 x']) (simp_all add: pl zipp_plug x x'_def)
qed

lemma deleteNode_ok:
  assumes "zipp m (Node l x r) c" "t_root m = root (plug (Node l x r) c)" "pos (plug (Node l x r) c)"
    "length c + height (Node l x r) \<le> t_next m" "height (Node l x r) \<le> fuel"
  shows "\<exists>m' t' b. deleteNode fuel (Some (fst x)) m = Inr m' \<and> removed b m (plug (Node l x r) c) m' t' \<and>
    ents t' = map cent (lefts c @ inorder l @ inorder r @ rights c)"
  using assms
proof (induction fuel arbitrary: m l x r c)
  case (Suc fuel)
  from zipp_deref [OF Suc.prems(1)] obtain nn where nn: "deref (Some (fst x)) m = Inr nn" "n_left nn = root l" "n_right nn = root r" by blast
  obtain a k v h where x: "x = (a, k, v, h)" by (metis prod_cases4)
  have tl: "treep m (Some a) l" and tr: "treep m (Some a) r" using Suc.prems(1) by (simp_all add: zipp_def x)
  consider "l = Leaf" "r = Leaf" | "l \<noteq> Leaf" | "l = Leaf" "r \<noteq> Leaf" by blast
  then show ?case
  proof cases
    case 1
    have "ctx_pos c" "length c \<le> t_next m" "0 < t_next m" using Suc.prems(3,4) by (simp_all add: pos_plug)
    from delete_leaf_ok [OF Suc.prems(1) [unfolded 1] Suc.prems(2) [unfolded 1] this] del_leaf_shape(1) [OF this(1)]
    obtain m' where m': "delete_leaf (Some (fst x)) m = Inr m'" "removed (fst x) m (plug (Node Leaf x Leaf) c) m' (del_leaf c)"
      "ids (del_leaf c) = map nid (lefts c @ rights c)" by blast
    have "ents (del_leaf c) = map cent (lefts c @ rights c)" using m'(3) unfolding ents_ids by (simp add: nid_def comp_def)
    with m'(1,2) nn 1 show ?thesis by auto
  next
    case 2
    obtain u fs where u: "last_node l = (u, fs)" by fastforce
    note ls = last_node_shape [OF u 2]
    obtain ul y where uy: "u = Node ul y Leaf" using ls(1) by blast
    have "height l \<le> t_next m" using Suc.prems(4) by simp
    from rightmost_ok [OF tl 2 this u] have rm: "rightmost (t_next m) (root l) m = Inr (Some (fst y))" by (simp add: uy)
    have "plug (Node ul y Leaf) (fs @ LFrame x r # c) = plug (Node l x r) c" for x using ls(2) [of "LFrame x r # c"] by (simp add: uy)
    from move_data_step [OF Suc.prems(1) this Suc.prems(2,3)] obtain m1 x' where
      m1: "move_data (Some (fst y)) (Some (fst x)) m = Inr m1" "cent x' = cent y" "zipp m1 (Node ul y Leaf) (fs @ LFrame x' r # c)"
        "t_root m1 = root (plug (Node ul y Leaf) (fs @ LFrame x' r # c))" "pos (plug (Node ul y Leaf) (fs @ LFrame x' r # c))" "t_next m1 = t_next m"
        "\<And>b m' t'. removed b m1 (plug (Node ul y Leaf) (fs @ LFrame x' r # c)) m' t' \<Longrightarrow> removed b m (plug (Node l x r) c) m' t'" by blast
    have "length (fs @ LFrame x' r # c) + height (Node ul y Leaf) \<le> t_next m1" "height (Node ul y Leaf) \<le> fuel"
      using ls(3) Suc.prems(4,5) m1(6) by (auto simp: uy)
    from Suc.IH [OF m1(3-5) this] obtain m' t' b where m': "deleteNode fuel (Some (fst y)) m1 = Inr m'" "removed b m1 (plug (Node ul y Leaf) (fs @ LFrame x' r # c)) m' t'"
      "ents t' = map cent (lefts (fs @ LFrame x' r # c) @ inorder ul @ rights (fs @ LFrame x' r # c))" by auto
    note rem = m1(7) [OF m'(2)]
    have "ents t' = map cent (lefts c @ inorder l @ inorder r @ rights c)"
      using m'(3) arg_cong [OF ls(5) [of "LFrame x' r # c"], of "map cent"] m1(2) by (simp add: uy ls(4))
    moreover obtain q where "root l = Some q" using 2 by (cases l) auto
    ultimately show ?thesis using nn rm m1(1) m'(1) rem by auto
  next
    case 3
    obtain u fs where u: "first_node r = (u, fs)" by fastforce
    note fs = first_node_shape [OF u 3(2)]
    obtain y ur where uy: "u = Node Leaf y ur" using fs(1) by blast
    have "height r \<le> t_next m" using Suc.prems(4) by simp
    from leftmost_ok [OF tr 3(2) this u] have rm: "leftmost (t_next m) (root r) m = Inr (Some (fst y))" by (simp add: uy)
    have "plug (Node Leaf y ur) (fs @ RFrame l x # c) = plug (Node l x r) c" for x using fs(2) [of "RFrame l x # c"] by (simp add: uy)
    from move_data_step [OF Suc.prems(1) this Suc.prems(2,3)] obtain m1 x' where
      m1: "move_data (Some (fst y)) (Some (fst x)) m = Inr m1" "cent x' = cent y" "zipp m1 (Node Leaf y ur) (fs @ RFrame l x' # c)"
        "t_root m1 = root (plug (Node Leaf y ur) (fs @ RFrame l x' # c))" "pos (plug (Node Leaf y ur) (fs @ RFrame l x' # c))" "t_next m1 = t_next m"
        "\<And>b m' t'. removed b m1 (plug (Node Leaf y ur) (fs @ RFrame l x' # c)) m' t' \<Longrightarrow> removed b m (plug (Node l x r) c) m' t'" by blast
    have "length (fs @ RFrame l x' # c) + height (Node Leaf y ur) \<le> t_next m1" "height (Node Leaf y ur) \<le> fuel"
      using fs(3) Suc.prems(4,5) m1(6) by (auto simp: uy)
    from Suc.IH [OF m1(3-5) this] obtain m' t' b where m': "deleteNode fuel (Some (fst y)) m1 = Inr m'" "removed b m1 (plug (Node Leaf y ur) (fs @ RFrame l x' # c)) m' t'"
      "ents t' = map cent (lefts (fs @ RFrame l x' # c) @ inorder ur @ rights (fs @ RFrame l x' # c))" by auto
    note rem = m1(7) [OF m'(2)]
    have "ents t' = map cent (lefts c @ inorder l @ inorder r @ rights c)"
      using m'(3) arg_cong [OF fs(5) [of "RFrame l x' # c"], of "map cent"] m1(2) by (simp add: uy fs(4) 3)
    moreover obtain q where "root r = Some q" using 3(2) by (cases r) auto
    ultimately show ?thesis using nn rm m1(1) m'(1) rem 3(1) by auto
  qed
qed simp

lemma remove_from_ok:
  assumes "treep m p t" "height t < fuel"
  shows "remove_from fuel k (root t) m =
    (let u = fst (descend k t c) in if u = Leaf then Inr (False, m) else bindE (deleteNode (t_next m) (root u) m) (\<lambda>m1. Inr (True, m1)))"
  using assms
proof (induction t arbitrary: p fuel c)
  case (Node l x r)
  obtain a kx v h where x: "x = (a, kx, v, h)" by (metis prod_cases4)
  from Node.prems obtain f where f: "fuel = Suc f" "height l < f" "height r < f" by (cases fuel) auto
  from Node.prems obtain nn where "t_heap m a = Some nn" "n_key nn = kx" "n_left nn = root l" "n_right nn = root r"
    and "treep m (Some a) l" "treep m (Some a) r" by (auto simp: x is_node_def)
  then show ?case using Node.IH(1) [of "Some a" f "LFrame x r # c"] Node.IH(2) [of "Some a" f "RFrame l x # c"] f by (auto simp: x)
next
  case Leaf
  then show ?case by (cases fuel) auto
qed

lemma removed_inv:
  assumes inv: "tree_inv m t" and r: "removed b m t m' t'" and e: "ents t = xs @ e # ys" "ents t' = xs @ ys"
  shows "tree_inv m' t'" "tree_map t' = (tree_map t)(fst e := None)"
proof -
  obtain k v where kv: "e = (k, v)" by (cases e)
  have i: "\<forall>a. t_heap m a \<noteq> None \<longleftrightarrow> a \<in> addrs t" "\<forall>a\<in>addrs t. a < t_next m" "ascending (ents t)" "t_cnt m = of_nat (length (inorder t))"
    using inv by (simp_all add: tree_inv_def)
  have r': "treep m' None t'" "t_root m' = root t'" "t_next m' = t_next m" "t_cnt m' = t_cnt m - 1" "pos t'" "b \<in> addrs t" "addrs t' = addrs t - {b}"
    "t_heap m' b = None" "\<forall>a. a \<notin> addrs t \<longrightarrow> t_heap m' a = t_heap m a" using r by (simp_all add: removed_def)
  have len: "length (inorder t) = Suc (length (inorder t'))" using arg_cong [OF e(1), of length] arg_cong [OF e(2), of length] by simp
  have asc: "ascending (ents t')" using i(3) unfolding e by (auto simp: ascending_append ascending_Cons)
  have "t_heap m' a \<noteq> None \<longleftrightarrow> a \<in> addrs t'" for a
    using treep_heap [OF r'(1), of a] r'(6-9) i(1) by (cases "a = b"; cases "a \<in> addrs t") simp_all
  moreover have "\<forall>a\<in>addrs t'. a < t_next m'" unfolding r'(3,7) using i(2) by blast
  ultimately show "tree_inv m' t'" unfolding tree_inv_def using r'(1,2,4,5) i(4) asc len by simp
  have "tree_map t = (tree_map t')(k \<mapsto> v)" "tree_map t' k = None"
    using ascending_lookup [of xs k v ys] i(3) unfolding tree_map_def e kv by auto
  then show "tree_map t' = (tree_map t)(fst e := None)" by (auto simp: kv)
qed

lemma tree_remove_ok:
  assumes inv: "tree_inv m t"
  shows "\<exists>m' t'. tree_remove k m = Inr (tree_map t k \<noteq> None, m') \<and> tree_inv m' t' \<and> tree_map t' = (tree_map t)(k := None)"
proof -
  obtain u c where d: "descend k t [] = (u, c)" by fastforce
  have i: "treep m None t" "t_root m = root t" "pos t" "ascending (ents t)" using inv by (simp_all add: tree_inv_def)
  have rf: "remove_from (Suc (t_next m)) k (root t) m = (if u = Leaf then Inr (False, m) else bindE (deleteNode (t_next m) (root u) m) (\<lambda>m1. Inr (True, m1)))"
    using remove_from_ok [OF i(1), of "Suc (t_next m)" k "[]"] tree_inv_size(2) [OF inv] d by simp
  note pl = descend_plug [OF d]
  show ?thesis
  proof (cases u)
    case Leaf
    then have n: "tree_map t k = None" using descend_found(1) [OF d i(4)] by simp
    moreover have "tree_remove k m = Inr (False, m)" using rf Leaf i(2) by (auto simp: tree_remove_def)
    ultimately show ?thesis using inv by (auto simp: fun_upd_idem)
  next
    case (Node l x r)
    have k: "ckey x = k" "plug (Node l x r) c = t" "length c + height (Node l x r) \<le> t_next m"
      using pl Node tree_inv_size(2) [OF inv] by auto
    have z: "zipp m (Node l x r) c" using i(1) k(2) by (simp add: zipp_plug)
    have "t_root m = root (plug (Node l x r) c)" "pos (plug (Node l x r) c)" "height (Node l x r) \<le> t_next m" using i(2,3) k(2,3) by simp_all
    from deleteNode_ok [OF z this(1,2) k(3) this(3)] obtain m' t' b where
      m': "deleteNode (t_next m) (Some (fst x)) m = Inr m'" "removed b m t m' t'" "ents t' = map cent (lefts c @ inorder l @ inorder r @ rights c)"
      unfolding k(2) by blast
    have e: "ents t = map cent (lefts c @ inorder l) @ cent x # map cent (inorder r @ rights c)"
      using inorder_plug [of "Node l x r" c] unfolding k(2) by simp
    have e': "ents t' = map cent (lefts c @ inorder l) @ map cent (inorder r @ rights c)" using m'(3) by simp
    note ri = removed_inv [OF inv m'(2) e e']
    obtain y where y: "root t = Some y" using root_plug [of "Node l x r" c] unfolding k(2) by (auto split: if_splits)
    have "tree_remove k m = Inr (True, m')" using rf m'(1) y i(2) by (simp add: Node tree_remove_def del: remove_from.simps)
    moreover have "tree_map t k \<noteq> None" using descend_found(1) [OF d i(4)] Node by simp
    ultimately show ?thesis using ri k(1) by (auto simp del: remove_from.simps)
  qed
qed

section \<open>Refinement of a finite map\<close>

definition tree_rel :: "('k::linorder, 'v) treemap \<Rightarrow> ('k \<rightharpoonup> 'v) \<Rightarrow> bool" where
  "tree_rel m M \<longleftrightarrow> (\<exists>t. tree_inv m t \<and> tree_map t = M)"

datatype ('k, 'v) dictop = DInsert 'k 'v | DRemove 'k

fun dict_step :: "('k \<Rightarrow> 'v \<Rightarrow> 'm \<Rightarrow> (bool \<times> 'm) res) \<Rightarrow> ('k \<Rightarrow> 'm \<Rightarrow> (bool \<times> 'm) res) \<Rightarrow> ('k, 'v) dictop \<Rightarrow> 'm \<times> bool list \<Rightarrow> ('m \<times> bool list) res" where
  "dict_step ins rem (DInsert k v) (m, bs) = bindE (ins k v m) (\<lambda>(b, m'). Inr (m', bs @ [b]))"
| "dict_step ins rem (DRemove k) (m, bs) = bindE (rem k m) (\<lambda>(b, m'). Inr (m', bs @ [b]))"

fun map_step :: "('k, 'v) dictop \<Rightarrow> ('k \<rightharpoonup> 'v) \<times> bool list \<Rightarrow> ('k \<rightharpoonup> 'v) \<times> bool list" where
  "map_step (DInsert k v) (M, bs) = (if M k = None then M(k \<mapsto> v) else M, bs @ [M k = None])"
| "map_step (DRemove k) (M, bs) = (M(k := None), bs @ [M k \<noteq> None])"

text \<open>What a container promises whose insertion does not overwrite.\<close>

locale krt_dict =
  fixes rel :: "'m \<Rightarrow> ('k \<rightharpoonup> 'v) \<Rightarrow> bool" and ins :: "'k \<Rightarrow> 'v \<Rightarrow> 'm \<Rightarrow> (bool \<times> 'm) res" and rem :: "'k \<Rightarrow> 'm \<Rightarrow> (bool \<times> 'm) res"
  assumes ins_law: "rel m M \<Longrightarrow> \<exists>m'. ins k v m = Inr (M k = None, m') \<and> rel m' (if M k = None then M(k \<mapsto> v) else M)"
    and rem_law: "rel m M \<Longrightarrow> \<exists>m'. rem k m = Inr (M k \<noteq> None, m') \<and> rel m' (M(k := None))"
begin

lemma run_refines:
  assumes "rel m M"
  shows "\<exists>m'. foldE (dict_step ins rem) ops (m, bs) = Inr (m', snd (fold map_step ops (M, bs))) \<and> rel m' (fst (fold map_step ops (M, bs)))"
  using assms
proof (induction ops arbitrary: m M bs)
  case (Cons p ops)
  show ?case
  proof (cases p)
    case (DInsert k v)
    from ins_law [OF Cons.prems, of k v] obtain m' where "ins k v m = Inr (M k = None, m')" "rel m' (if M k = None then M(k \<mapsto> v) else M)" by blast
    with Cons.IH [OF this(2), of "bs @ [M k = None]"] show ?thesis by (simp add: DInsert del: fun_upd_apply)
  next
    case (DRemove k)
    from rem_law [OF Cons.prems, of k] obtain m' where "rem k m = Inr (M k \<noteq> None, m')" "rel m' (M(k := None))" by blast
    with Cons.IH [OF this(2), of "bs @ [M k \<noteq> None]"] show ?thesis by (simp add: DRemove del: fun_upd_apply)
  qed
qed simp

end

interpretation treemap: krt_dict tree_rel tree_insert tree_remove
proof
  fix m :: "('a::linorder, 'b) treemap" and M k v
  assume "tree_rel m M"
  then obtain t where t: "tree_inv m t" "tree_map t = M" by (auto simp: tree_rel_def)
  show "\<exists>m'. tree_insert k v m = Inr (M k = None, m') \<and> tree_rel m' (if M k = None then M(k \<mapsto> v) else M)"
    using tree_insert_ok [OF t(1), of k v] unfolding t(2) tree_rel_def by metis
  show "\<exists>m'. tree_remove k m = Inr (M k \<noteq> None, m') \<and> tree_rel m' (M(k := None))"
    using tree_remove_ok [OF t(1), of k] unfolding t(2) tree_rel_def by metis
qed

section \<open>Iteration\<close>

fun head_ptr :: "('k, 'v) cell list \<Rightarrow> nptr" where
  "head_ptr [] = None"
| "head_ptr (x # xs) = Some (fst x)"

lemma head_ptr_append: "xs \<noteq> [] \<Longrightarrow> head_ptr (xs @ ys) = head_ptr xs"
  by (cases xs) simp_all

lemma first_node_head: "first_node t = (u, fs) \<Longrightarrow> root u = head_ptr (inorder t)"
  by (induction t arbitrary: u fs) (auto simp: head_ptr_append split: if_splits prod.splits)

lemma climb_ok:
  assumes "zipp m t c" "t \<noteq> Leaf" "length c < fuel"
  shows "climb fuel (root t) m = Inr (head_ptr (rights c))"
  using assms
proof (induction c arbitrary: t fuel)
  case Nil
  obtain l x r where t: "t = Node l x r" using Nil.prems(2) by (cases t) auto
  obtain n where "fuel = Suc n" using Nil.prems(3) by (cases fuel) auto
  moreover from zipp_deref [OF Nil.prems(1) [unfolded t]] obtain nn where "deref (Some (fst x)) m = Inr nn" "n_parent nn = None" by auto
  ultimately show ?case by (simp add: t)
next
  case (Cons f c)
  obtain l x r where t: "t = Node l x r" using Cons.prems(2) by (cases t) auto
  obtain n where f: "fuel = Suc n" "length c < n" using Cons.prems(3) by (cases fuel) auto
  from zipp_deref [OF Cons.prems(1) [unfolded t]] obtain nn where nn: "deref (Some (fst x)) m = Inr nn" "n_parent nn = Some (fst (frame_cell f))" by auto
  have z: "zipp m (plug1 t f) c" using Cons.prems(1) by (simp add: zipp_up)
  show ?case
  proof (cases f)
    case (LFrame y s)
    from zipp_deref [OF z [unfolded LFrame plug1.simps]] obtain np where "deref (Some (fst y)) m = Inr np" "n_right np = root s" by blast
    moreover have "root s \<noteq> Some (fst x)" using Cons.prems(1) root_in [of s "fst x"] by (auto simp: t LFrame zipp_def frame_addrs_def)
    ultimately show ?thesis using nn by (auto simp: t f LFrame)
  next
    case (RFrame s y)
    from zipp_deref [OF z [unfolded RFrame plug1.simps]] obtain np where "deref (Some (fst y)) m = Inr np" "n_right np = root t" by blast
    then show ?thesis using nn Cons.IH [OF z _ f(2)] by (simp add: t f RFrame)
  qed
qed

lemma successor_at:
  assumes z: "zipp m (Node l x r) c" and "length c + height (Node l x r) \<le> t_next m"
  shows "tree_successor (Some (fst x)) m = Inr (head_ptr (inorder r @ rights c))"
proof -
  obtain a k v h where x: "x = (a, k, v, h)" by (metis prod_cases4)
  from zipp_deref [OF z] obtain nn where nn: "deref (Some (fst x)) m = Inr nn" "n_right nn = root r" "n_parent nn = par c" by blast
  show ?thesis
  proof (cases "r = Leaf")
    case False
    obtain u fs where u: "first_node r = (u, fs)" by fastforce
    have "treep m (Some a) r" using z by (simp add: zipp_def x)
    from leftmost_ok [OF this False _ u, of "t_next m"] assms(2) have "leftmost (t_next m) (root r) m = Inr (root u)" by simp
    moreover obtain q where "root r = Some q" using False by (cases r) auto
    moreover have "inorder r \<noteq> []" using False by (cases r) auto
    ultimately show ?thesis using nn first_node_head [OF u] by (simp add: tree_successor_def head_ptr_append)
  next
    case True
    have cl: "climb (t_next m) (Some (fst x)) m = Inr (head_ptr (rights c))"
      using climb_ok [OF z, of "t_next m"] assms(2) by simp
    show ?thesis
    proof (cases c)
      case Nil
      then show ?thesis using nn True by (simp add: tree_successor_def)
    next
      case (Cons f d)
      have z1: "zipp m (plug1 (Node l x r) f) d" using z by (simp add: Cons zipp_up)
      show ?thesis
      proof (cases f)
        case (LFrame y s)
        from zipp_deref [OF z1 [unfolded LFrame plug1.simps]] obtain np where "deref (Some (fst y)) m = Inr np" "n_left np = Some (fst x)" by auto
        then show ?thesis using nn True by (simp add: tree_successor_def Cons LFrame)
      next
        case (RFrame s y)
        from zipp_deref [OF z1 [unfolded RFrame plug1.simps]] obtain np where np: "deref (Some (fst y)) m = Inr np" "n_left np = root s" by auto
        have "root s \<noteq> Some (fst x)" using z root_in [of s "fst x"] by (auto simp: Cons RFrame zipp_def frame_addrs_def)
        then show ?thesis using nn np True cl by (auto simp: tree_successor_def Cons RFrame simp del: climb.simps)
      qed
    qed
  qed
qed

lemma focus:
  assumes "inorder t = xs @ x # ys"
  shows "\<exists>l r fs. \<forall>c. plug (Node l x r) (fs @ c) = plug t c \<and> length fs + height (Node l x r) \<le> height t \<and>
    inorder r @ rights (fs @ c) = ys @ rights c"
  using assms
proof (induction t arbitrary: xs ys)
  case (Node l z r)
  from Node.prems consider ys' where "inorder l = xs @ x # ys'" "ys = ys' @ z # inorder r"
    | "x = z" "xs = inorder l" "ys = inorder r" | xs' where "inorder r = xs' @ x # ys"
    by (auto simp: append_eq_append_conv2 append_eq_Cons_conv Cons_eq_append_conv)
  then show ?case
  proof cases
    case 1
    from Node.IH(1) [OF 1(1)] obtain l' r' fs where f: "\<forall>c. plug (Node l' x r') (fs @ c) = plug l c \<and> length fs + height (Node l' x r') \<le> height l \<and>
      inorder r' @ rights (fs @ c) = ys' @ rights c" by blast
    show ?thesis using f 1(2) by (intro exI [of _ l'] exI [of _ r'] exI [of _ "fs @ [LFrame z r]"]) auto
  next
    case 2
    then show ?thesis by (intro exI [of _ l] exI [of _ r] exI [of _ "[]"]) simp
  next
    case 3
    from Node.IH(2) [OF 3] obtain l' r' fs where f: "\<forall>c. plug (Node l' x r') (fs @ c) = plug r c \<and> length fs + height (Node l' x r') \<le> height r \<and>
      inorder r' @ rights (fs @ c) = ys @ rights c" by blast
    show ?thesis using f by (intro exI [of _ l'] exI [of _ r'] exI [of _ "fs @ [RFrame l z]"]) auto
  qed
qed simp

lemma tree_successor_ok:
  assumes inv: "tree_inv m t" and "inorder t = xs @ x # ys"
  shows "tree_successor (Some (fst x)) m = Inr (head_ptr ys)"
proof -
  from focus [OF assms(2)] obtain l r fs where f: "plug (Node l x r) (fs @ []) = plug t []" "length fs + height (Node l x r) \<le> height t"
    "inorder r @ rights (fs @ []) = ys @ rights []" by blast
  have "zipp m (Node l x r) fs" using inv f(1) by (simp add: tree_inv_def zipp_plug)
  from successor_at [OF this] f tree_inv_size(2) [OF inv] show ?thesis by simp
qed

text \<open>The loop \<^verbatim>\<open>for(auto it = begin(); it != end(); ++it)\<close>, collecting what it visits.\<close>

fun tree_visit :: "nat \<Rightarrow> nptr \<Rightarrow> ('k, 'v) treemap \<Rightarrow> ('k \<times> 'v) list res" where
  "tree_visit 0 it m = Inl loop_error"
| "tree_visit (Suc fuel) it m =
     (if it = None then Inr []
      else bindE (deref it m) (\<lambda>n.
           bindE (tree_successor it m) (\<lambda>it'.
           bindE (tree_visit fuel it' m) (\<lambda>xs. Inr ((n_key n, n_value n) # xs)))))"

definition tree_entries :: "('k, 'v) treemap \<Rightarrow> ('k \<times> 'v) list res" where
  "tree_entries m = bindE (tree_begin m) (\<lambda>it. tree_visit (Suc (t_next m)) it m)"

lemma tree_visit_ok:
  assumes "tree_inv m t" "inorder t = xs @ ys" "length ys < fuel"
  shows "tree_visit fuel (head_ptr ys) m = Inr (map cent ys)"
  using assms
proof (induction ys arbitrary: xs fuel)
  case Nil
  then show ?case by (cases fuel) auto
next
  case (Cons y ys)
  obtain n where f: "fuel = Suc n" "length ys < n" using Cons.prems(3) by (cases fuel) auto
  from focus [OF Cons.prems(2)] obtain l r fs where "plug (Node l y r) (fs @ []) = plug t []" by blast
  then have "zipp m (Node l y r) fs" using Cons.prems(1) by (simp add: tree_inv_def zipp_plug)
  from zipp_deref [OF this] obtain nn where "deref (Some (fst y)) m = Inr nn" "n_key nn = ckey y" "n_value nn = fst (snd (snd y))" by blast
  then show ?case using tree_successor_ok [OF Cons.prems(1,2)] Cons.IH [OF Cons.prems(1), of "xs @ [y]" n] Cons.prems(2) f by (simp add: f)
qed

lemma tree_entries_ok:
  assumes inv: "tree_inv m t"
  shows "tree_entries m = Inr (ents t)"
proof -
  have i: "treep m None t" "t_root m = root t" using inv by (simp_all add: tree_inv_def)
  have "tree_begin m = Inr (head_ptr (inorder t))"
  proof (cases "t = Leaf")
    case False
    obtain u fs where u: "first_node t = (u, fs)" by fastforce
    obtain q where "root t = Some q" using False by (cases t) auto
    with leftmost_ok [OF i(1) False tree_inv_size(2) [OF inv] u] first_node_head [OF u] i(2) show ?thesis by (simp add: tree_begin_def)
  qed (use i in \<open>simp add: tree_begin_def\<close>)
  then show ?thesis
    unfolding tree_entries_def using tree_visit_ok [OF inv, of "[]" "inorder t" "Suc (t_next m)"] tree_inv_size(1) [OF inv] by (simp del: tree_visit.simps)
qed

section \<open>Properties\<close>

lemma tree_new_ok: "tree_inv treemap_new Leaf" "tree_map Leaf = Map.empty"
  by (simp_all add: tree_inv_def treemap_new_def ascending_def tree_map_def)

lemma tree_new_rel: "tree_rel treemap_new Map.empty"
  unfolding tree_rel_def using tree_new_ok by blast

lemma tree_map_card: "tree_inv m t \<Longrightarrow> t_cnt m = of_nat (card (dom (tree_map t)))"
proof -
  assume inv: "tree_inv m t"
  have "distinct (map fst (ents t))" using inv by (auto simp: tree_inv_def ascending_def strict_sorted_iff)
  then have "card (dom (tree_map t)) = length (ents t)" unfolding tree_map_def dom_map_of_conv_image_fst using distinct_card [of "map fst (ents t)"] by (simp add: image_image)
  with inv show ?thesis by (simp add: tree_inv_def)
qed

text \<open>
  C25: The tree map refines a finite map: any sequence of insertions and removals on a new map returns without
  touching a null or freed node, reports for each insertion whether the key was new and for each removal whether
  it was there, and afterwards \<^verbatim>\<open>find\<close> finds exactly the entries of the finite map and \<^verbatim>\<open>size()\<close> is their number.
\<close>

theorem treemap_refines_map:
  fixes ops :: "('k::linorder, 'v) dictop list"
  defines "spec \<equiv> fold map_step ops (Map.empty, [])"
  shows "\<exists>m. foldE (dict_step tree_insert tree_remove) ops (treemap_new, []) = Inr (m, snd spec) \<and>
    tree_size m = of_nat (card (dom (fst spec))) \<and>
    (\<forall>k. \<exists>p. tree_find k m = Inr p \<and>
       (case fst spec k of None \<Rightarrow> p = None | Some v \<Rightarrow> \<exists>n. deref p m = Inr n \<and> n_key n = k \<and> n_value n = v))"
proof -
  from treemap.run_refines [OF tree_new_rel, of ops "[]"] obtain m t where
    m: "foldE (dict_step tree_insert tree_remove) ops (treemap_new, []) = Inr (m, snd spec)" "tree_inv m t" "tree_map t = fst spec"
    unfolding spec_def tree_rel_def by blast
  with tree_map_card [OF m(2)] tree_find_ok [OF m(2)] show ?thesis by (auto simp: tree_size_def)
qed

text \<open>
  C26: Iterating from \<^verbatim>\<open>begin()\<close> with \<^verbatim>\<open>++\<close> ends and visits the entries of the map in ascending order of the
  keys, each once, after any sequence of insertions and removals.
\<close>

theorem treemap_iterates_in_order:
  fixes ops :: "('k::linorder, 'v) dictop list"
  shows "\<exists>m bs xs. foldE (dict_step tree_insert tree_remove) ops (treemap_new, []) = Inr (m, bs) \<and> tree_entries m = Inr xs \<and>
    sorted_wrt (<) (map fst xs) \<and> map_of xs = fst (fold map_step ops (Map.empty, []))"
proof -
  from treemap.run_refines [OF tree_new_rel, of ops "[]"] obtain m bs t where
    m: "foldE (dict_step tree_insert tree_remove) ops (treemap_new, []) = Inr (m, bs)" "tree_inv m t" "tree_map t = fst (fold map_step ops (Map.empty, []))"
    unfolding tree_rel_def by blast
  with tree_entries_ok [OF m(2)] show ?thesis by (auto simp: tree_inv_def ascending_def tree_map_def)
qed

lemma balanced_size: "balanced_at t \<Longrightarrow> 2 ^ (height t div 2) \<le> Suc (size t)"
proof (induction t)
  case (Node l x r)
  have b: "sh l = int (height l) - 1" "sh r = int (height r) - 1" using Node.prems by (simp_all add: balanced_height)
  let ?h = "height (Node l x r)"
  have "?h \<le> height l + 2" "?h \<le> height r + 2" using Node.prems b by auto
  then have h: "?h div 2 \<le> Suc (height l div 2)" "?h div 2 \<le> Suc (height r div 2)" by linarith+
  show ?case
  proof (cases "?h div 2")
    case (Suc n)
    then have "(2::nat) ^ n \<le> 2 ^ (height l div 2)" "(2::nat) ^ n \<le> 2 ^ (height r div 2)" using h by (simp_all add: power_increasing)
    moreover have "2 ^ (height l div 2) \<le> Suc (size l)" "2 ^ (height r div 2) \<le> Suc (size r)" using Node.IH Node.prems by simp_all
    ultimately have "(2::nat) ^ n + 2 ^ n \<le> Suc (size l) + Suc (size r)" by (meson add_mono le_trans)
    then show ?thesis unfolding Suc by simp
  next
    case 0
    show ?thesis unfolding 0 by simp
  qed
qed simp

text \<open>
  C27: A map that is only inserted into stays balanced: the height of the tree is at most
  \<open>2 * log\<^sub>2 (n + 1) + 1\<close> for \<open>n\<close> entries, so \<^verbatim>\<open>find\<close> and \<^verbatim>\<open>insert\<close> take a logarithmic number of steps.
\<close>

theorem treemap_insert_height:
  "\<exists>m t. foldE (\<lambda>(k, v) m. bindE (tree_insert k v m) (\<lambda>(_, m'). Inr m')) kvs treemap_new = Inr m \<and>
    tree_inv m t \<and> 2 ^ (height t div 2) \<le> Suc (size t)"
proof -
  have "\<exists>m' t'. foldE (\<lambda>(k, v) m. bindE (tree_insert k v m) (\<lambda>(_, m'). Inr m')) kvs m = Inr m' \<and> tree_inv m' t' \<and> balanced_at t'"
    if "tree_inv m t" "balanced_at t" for m :: "('a, 'b) treemap" and t
    using that
  proof (induction kvs arbitrary: m t)
    case (Cons kv kvs)
    obtain k v where kv: "kv = (k, v)" by (cases kv)
    from tree_insert_ok [OF Cons.prems(1), of k v] Cons.prems(2) obtain b m' t' where "tree_insert k v m = Inr (b, m')" "tree_inv m' t'" "balanced_at t'" by blast
    with Cons.IH [of m' t'] show ?case by (simp add: kv)
  qed auto
  from this [OF tree_new_ok(1)] balanced_size show ?thesis by fastforce
qed

text \<open>
  Removing does not keep the balance: \<^verbatim>\<open>deleteNode\<close> starts rebalancing at the grandparent of the removed
  leaf. After inserting 2, 1, 3, 4 and removing 1 the root has no left child and two levels on its right.
\<close>

lemma treemap_remove_unbalances:
  "\<exists>m bs a b. foldE (dict_step tree_insert tree_remove) [DInsert (2::nat) (), DInsert 1 (), DInsert 3 (), DInsert 4 (), DRemove 1] (treemap_new, []) = Inr (m, bs) \<and>
     deref (t_root m) m = Inr a \<and> n_left a = None \<and> deref (n_right a) m = Inr b \<and> n_right b \<noteq> None"
proof -
  define run where "run = foldE (dict_step tree_insert tree_remove) [DInsert (2::nat) (), DInsert 1 (), DInsert 3 (), DInsert 4 (), DRemove 1] (treemap_new, [])"
  have "case run of Inl _ \<Rightarrow> False | Inr (m, bs) \<Rightarrow> (case deref (t_root m) m of Inl _ \<Rightarrow> False
      | Inr a \<Rightarrow> n_left a = None \<and> (case deref (n_right a) m of Inl _ \<Rightarrow> False | Inr b \<Rightarrow> n_right b \<noteq> None))" unfolding run_def by code_simp
  then obtain m bs where r: "run = Inr (m, bs)" and h: "case deref (t_root m) m of Inl _ \<Rightarrow> False
      | Inr a \<Rightarrow> n_left a = None \<and> (case deref (n_right a) m of Inl _ \<Rightarrow> False | Inr b \<Rightarrow> n_right b \<noteq> None)" by (cases run) auto
  from h obtain a where a: "deref (t_root m) m = Inr a" "n_left a = None" "case deref (n_right a) m of Inl _ \<Rightarrow> False | Inr b \<Rightarrow> n_right b \<noteq> None"
    by (cases "deref (t_root m) m") simp_all
  then obtain b where "deref (n_right a) m = Inr b" "n_right b \<noteq> None" by (cases "deref (n_right a) m") simp_all
  with a r show ?thesis unfolding run_def by blast
qed


text \<open>Clearing frees the nodes but keeps the pointer to the root.\<close>

lemma treemap_clear_dangles:
  "bindE (tree_insert (1::nat) () treemap_new) (\<lambda>(_, m). bindE (tree_clear m) (tree_find 1)) = Inl OutOfBounds"
  by code_simp

text \<open>The nodes of a copy have the parents of the original.\<close>

lemma treemap_copy_parents:
  "(case foldE (dict_step tree_insert tree_remove) [DInsert (2::nat) (), DInsert 1 ()] (treemap_new, []) of Inl _ \<Rightarrow> False
    | Inr (m, _) \<Rightarrow> (case tree_copy m of Inl _ \<Rightarrow> False | Inr m' \<Rightarrow> (case deref (t_root m') m' of Inl _ \<Rightarrow> False
      | Inr r \<Rightarrow> (case deref (n_left r) m' of Inl _ \<Rightarrow> False | Inr l \<Rightarrow> n_parent l = t_root m \<and> t_root m' \<noteq> t_root m))))"
  by code_simp

end
