(* ===== verification/Kqueue.thy ===== *)
theory Kqueue
  imports Prelude
begin

text \<open>
  The contracts of the sequence containers of the runtime library: a bounded queue and a stack, each with the run
  of a sequence of insertions and removals against a list.
\<close>

section \<open>First in, first out\<close>

datatype 'a queueop = QPush 'a | QPop

fun queue_step :: "('a \<Rightarrow> 'q \<Rightarrow> 'q res) \<Rightarrow> ('q \<Rightarrow> ('a \<times> 'q) res) \<Rightarrow> 'a queueop \<Rightarrow> 'q \<times> 'a list \<Rightarrow> ('q \<times> 'a list) res" where
  "queue_step enq deq (QPush x) (q, out) = bindE (enq x q) (\<lambda>q'. Inr (q', out))"
| "queue_step enq deq QPop (q, out) = bindE (deq q) (\<lambda>(x, q'). Inr (q', out @ [x]))"

text \<open>The specification: a list of at most \<open>n\<close> elements; \<open>None\<close> when it overflows or underflows.\<close>

fun fifo :: "nat \<Rightarrow> 'a queueop list \<Rightarrow> 'a list \<Rightarrow> 'a list \<Rightarrow> ('a list \<times> 'a list) option" where
  "fifo n [] xs out = Some (xs, out)"
| "fifo n (QPush x # ops) xs out = (if length xs < n then fifo n ops (xs @ [x]) out else None)"
| "fifo n (QPop # ops) xs out = (case xs of [] \<Rightarrow> None | y # ys \<Rightarrow> fifo n ops ys (out @ [y]))"

text \<open>The contract of a bounded queue.\<close>

locale krt_queue =
  fixes ok :: "'q \<Rightarrow> bool" and cap :: "'q \<Rightarrow> nat" and lst :: "'q \<Rightarrow> 'a list"
    and enq :: "'a \<Rightarrow> 'q \<Rightarrow> 'q res" and deq :: "'q \<Rightarrow> ('a \<times> 'q) res"
  assumes enq_law: "\<lbrakk>ok q; length (lst q) < cap q\<rbrakk> \<Longrightarrow> \<exists>q'. enq x q = Inr q' \<and> ok q' \<and> cap q' = cap q \<and> lst q' = lst q @ [x]"
    and deq_law: "\<lbrakk>ok q; lst q = x # xs\<rbrakk> \<Longrightarrow> \<exists>q'. deq q = Inr (x, q') \<and> ok q' \<and> cap q' = cap q \<and> lst q' = xs"
begin

lemma run_fifo:
  assumes "ok q" "fifo (cap q) ops (lst q) out = Some (xs, out')"
  shows "\<exists>q'. foldE (queue_step enq deq) ops (q, out) = Inr (q', out') \<and> ok q' \<and> lst q' = xs"
  using assms
proof (induction ops arbitrary: q out)
  case (Cons p ops)
  show ?case
  proof (cases p)
    case (QPush x)
    with Cons.prems(2) have l: "length (lst q) < cap q" and f: "fifo (cap q) ops (lst q @ [x]) out = Some (xs, out')" by (auto split: if_splits)
    from enq_law [OF Cons.prems(1) l, of x] obtain q' where "enq x q = Inr q'" "ok q'" "cap q' = cap q" "lst q' = lst q @ [x]" by blast
    with Cons.IH [of q' out] f show ?thesis by (simp add: QPush)
  next
    case QPop
    with Cons.prems(2) obtain y ys where l: "lst q = y # ys" and f: "fifo (cap q) ops ys (out @ [y]) = Some (xs, out')" by (auto split: list.splits)
    from deq_law [OF Cons.prems(1) l] obtain q' where "deq q = Inr (y, q')" "ok q'" "cap q' = cap q" "lst q' = ys" by blast
    with Cons.IH [of q' "out @ [y]"] f show ?thesis by (simp add: QPop)
  qed
qed simp

end
section \<open>Last in, first out\<close>

fun lifo :: "'a queueop list \<Rightarrow> 'a list \<Rightarrow> 'a list \<Rightarrow> ('a list \<times> 'a list) option" where
  "lifo [] xs out = Some (xs, out)"
| "lifo (QPush x # ops) xs out = lifo ops (xs @ [x]) out"
| "lifo (QPop # ops) xs out = (if xs = [] then None else lifo ops (butlast xs) (out @ [last xs]))"

text \<open>The contract of a stack that may run out of memory.\<close>

locale krt_stack =
  fixes ok :: "'s \<Rightarrow> bool" and lst :: "'s \<Rightarrow> 'a list" and oom :: kerror
    and push :: "'a \<Rightarrow> 's \<Rightarrow> 's res" and pop :: "'s \<Rightarrow> ('a \<times> 's) res"
  assumes push_law: "ok s \<Longrightarrow> push x s = Inl oom \<or> (\<exists>s'. push x s = Inr s' \<and> ok s' \<and> lst s' = lst s @ [x])"
    and pop_law: "\<lbrakk>ok s; lst s \<noteq> []\<rbrakk> \<Longrightarrow> \<exists>s'. pop s = Inr (last (lst s), s') \<and> ok s' \<and> lst s' = butlast (lst s)"
begin

lemma run_lifo:
  assumes "ok s" "lifo ops (lst s) out = Some (xs, out')"
  shows "foldE (queue_step push pop) ops (s, out) = Inl oom \<or>
    (\<exists>s'. foldE (queue_step push pop) ops (s, out) = Inr (s', out') \<and> ok s' \<and> lst s' = xs)"
  using assms
proof (induction ops arbitrary: s out)
  case (Cons p ops)
  show ?case
  proof (cases p)
    case (QPush x)
    from push_law [OF Cons.prems(1), of x] show ?thesis
    proof
      assume "\<exists>s'. push x s = Inr s' \<and> ok s' \<and> lst s' = lst s @ [x]"
      then obtain s' where "push x s = Inr s'" "ok s'" "lst s' = lst s @ [x]" by blast
      with Cons.IH [of s' out] Cons.prems(2) show ?thesis by (simp add: QPush)
    qed (simp add: QPush)
  next
    case QPop
    with Cons.prems(2) have l: "lst s \<noteq> []" "lifo ops (butlast (lst s)) (out @ [last (lst s)]) = Some (xs, out')" by (auto split: if_splits)
    from pop_law [OF Cons.prems(1) l(1)] obtain s' where "pop s = Inr (last (lst s), s')" "ok s'" "lst s' = butlast (lst s)" by blast
    with Cons.IH [of s' "out @ [last (lst s)]"] l(2) show ?thesis by (simp add: QPop)
  qed
qed simp

end

end
