(* ===== verification/Circbuf.thy ===== *)
theory Circbuf
  imports Kqueue
begin

text \<open>
  The ring buffer of the runtime library, \<^verbatim>\<open>krt/types/circbuf.h\<close>. The two indices only ever grow and wrap
  around at \<open>2 ^ 64\<close>; the position in the buffer is the index under the mask \<^verbatim>\<open>cap - 1\<close>. New memory holds the
  value \<open>junk\<close> until it is written. The members that read the non-existent field \<^verbatim>\<open>cnt\<close> and the iterators cannot
  be instantiated and are left out; the atomic operations have their sequential meaning.
\<close>

section \<open>The buffer\<close>

record 'a circbuf =
  cb_ptr :: "'a list option"
  cb_externalMem :: bool
  cb_readIdx :: u64
  cb_writeIdx :: u64
  cb_cap :: u64

definition cb_DEFAULT_SIZE :: u64 where
  "cb_DEFAULT_SIZE = 32"

definition cb_size :: "'a circbuf \<Rightarrow> u64" where
  "cb_size b = cb_writeIdx b - cb_readIdx b"

definition cb_empty :: "'a circbuf \<Rightarrow> bool" where
  "cb_empty b \<longleftrightarrow> cb_size b = 0"

definition cb_capacity :: "'a circbuf \<Rightarrow> u64" where
  "cb_capacity b = cb_cap b"

text \<open>\<^verbatim>\<open>ptr[i]\<close>, read and written.\<close>

definition cb_load :: "u64 \<Rightarrow> 'a circbuf \<Rightarrow> 'a res" where
  "cb_load i b = (case cb_ptr b of None \<Rightarrow> Inl (Fault 0) | Some xs \<Rightarrow> if unat i < length xs then Inr (xs ! unat i) else Inl OutOfBounds)"

definition cb_store :: "u64 \<Rightarrow> 'a \<Rightarrow> 'a circbuf \<Rightarrow> 'a circbuf res" where
  "cb_store i x b = (case cb_ptr b of None \<Rightarrow> Inl (Fault 0)
     | Some xs \<Rightarrow> if unat i < length xs then Inr (b\<lparr>cb_ptr := Some (xs[unat i := x])\<rparr>) else Inl OutOfBounds)"

section \<open>Operations\<close>

definition cb_write :: "'a \<Rightarrow> 'a circbuf \<Rightarrow> 'a circbuf res" where
  "cb_write x b = cb_store (cb_writeIdx b AND (cb_cap b - 1)) x (b\<lparr>cb_writeIdx := cb_writeIdx b + 1\<rparr>)"

definition cb_read :: "'a circbuf \<Rightarrow> ('a \<times> 'a circbuf) res" where
  "cb_read b =
     (if cb_empty b then Inl (Abort ''read(): empty buffer!'')
      else bindE (cb_load (cb_readIdx b AND (cb_cap b - 1)) b) (\<lambda>x. Inr (x, b\<lparr>cb_readIdx := cb_readIdx b + 1\<rparr>)))"

definition cb_peek :: "'a circbuf \<Rightarrow> 'a res" where
  "cb_peek b = (if cb_empty b then Inl (Abort ''peek(): empty buffer!'') else cb_load (cb_readIdx b) b)"

definition cb_front :: "'a circbuf \<Rightarrow> 'a res" where
  "cb_front b = cb_peek b"

definition cb_write_all :: "'a list \<Rightarrow> 'a circbuf \<Rightarrow> 'a circbuf res" where
  "cb_write_all xs = foldE cb_write xs"

definition cb_write_atomic :: "'a \<Rightarrow> 'a circbuf \<Rightarrow> 'a circbuf res" where
  "cb_write_atomic x b = (let idx = cb_writeIdx b in cb_store (idx AND (cb_cap b - 1)) x (b\<lparr>cb_writeIdx := idx + 1\<rparr>))"

text \<open>\<^verbatim>\<open>read_atomic(x)\<close> with \<open>x\<close> null or pointing to a value.\<close>

definition cb_read_atomic :: "'a option \<Rightarrow> 'a circbuf \<Rightarrow> 'a circbuf res" where
  "cb_read_atomic x b =
     (if cb_empty b then Inl (Abort ''read(): empty buffer!'')
      else let idx = cb_readIdx b; b1 = b\<lparr>cb_readIdx := idx + 1\<rparr>
           in case x of None \<Rightarrow> Inr b1 | Some v \<Rightarrow> cb_store (idx AND (cb_cap b - 1)) v b1)"

definition cb_pop :: "'a circbuf \<Rightarrow> 'a circbuf res" where
  "cb_pop b = cb_read_atomic None b"

definition cb_clear :: "'a circbuf \<Rightarrow> 'a circbuf" where
  "cb_clear b = b\<lparr>cb_readIdx := 0, cb_writeIdx := 0\<rparr>"

text \<open>The loop of \<^verbatim>\<open>resize\<close>: read the elements into the new memory.\<close>

definition cb_drain :: "u64 \<Rightarrow> nat \<Rightarrow> 'a list \<times> u64 \<times> 'a circbuf \<Rightarrow> ('a list \<times> u64 \<times> 'a circbuf) res" where
  "cb_drain newmax i s =
     (case s of (newptr, wp, b) \<Rightarrow>
        bindE (cb_read b) (\<lambda>(x, b').
        let j = unat (wp AND (newmax - 1))
        in if j < length newptr then Inr (newptr[j := x], wp + 1, b') else Inl OutOfBounds))"

definition cb_resize :: "'a \<Rightarrow> u64 \<Rightarrow> 'a circbuf \<Rightarrow> 'a circbuf res" where
  "cb_resize junk newmax b =
     (if newmax AND (newmax - 1) \<noteq> 0 then Inl (Abort ''size must be a power of two!'')
      else bindE (foldE (cb_drain newmax) [0..<unat (cb_size b)] (replicate (unat newmax) junk, 0, b)) (\<lambda>(newptr, wp, b').
           Inr (b'\<lparr>cb_ptr := Some newptr, cb_cap := newmax, cb_readIdx := 0, cb_writeIdx := wp\<rparr>)))"

definition cb_blank :: "'a circbuf" where
  "cb_blank = \<lparr>cb_ptr = None, cb_externalMem = False, cb_readIdx = 0, cb_writeIdx = 0, cb_cap = 0\<rparr>"

definition cb_new :: "'a \<Rightarrow> u64 \<Rightarrow> 'a circbuf res" where
  "cb_new junk sz = cb_resize junk sz (cb_blank\<lparr>cb_cap := sz\<rparr>)"

definition cb_new_on :: "u64 \<Rightarrow> 'a list \<Rightarrow> 'a circbuf" where
  "cb_new_on sz store = cb_blank\<lparr>cb_cap := sz, cb_ptr := Some store, cb_externalMem := True\<rparr>"

definition cb_copy :: "'a \<Rightarrow> 'a circbuf \<Rightarrow> 'a circbuf res" where
  "cb_copy junk other =
     bindE (cb_resize junk (cb_cap other) cb_blank) (\<lambda>b. Inr (b\<lparr>cb_readIdx := cb_readIdx other, cb_writeIdx := cb_writeIdx other\<rparr>))"

text \<open>The move constructor and move assignment: the new buffer and what is left of the old one.\<close>

definition cb_move :: "'a circbuf \<Rightarrow> 'a circbuf \<times> 'a circbuf" where
  "cb_move other =
     (\<lparr>cb_ptr = cb_ptr other, cb_externalMem = cb_externalMem other, cb_readIdx = cb_readIdx other, cb_writeIdx = cb_writeIdx other, cb_cap = cb_cap other\<rparr>,
      other\<lparr>cb_cap := 0, cb_ptr := None, cb_externalMem := False, cb_readIdx := 0, cb_writeIdx := 0\<rparr>)"

section \<open>The contents\<close>

definition cb_slot :: "'a circbuf \<Rightarrow> u64 \<Rightarrow> nat" where
  "cb_slot b i = unat (i AND (cb_cap b - 1))"

definition cb_ok :: "'a circbuf \<Rightarrow> bool" where
  "cb_ok b \<longleftrightarrow> (\<exists>k xs. k < 64 \<and> cb_cap b = 2 ^ k \<and> cb_ptr b = Some xs \<and> length xs = 2 ^ k)"

definition cb_list :: "'a circbuf \<Rightarrow> 'a list" where
  "cb_list b = map (\<lambda>i. the (cb_ptr b) ! cb_slot b (cb_readIdx b + of_nat i)) [0..<unat (cb_size b)]"

lemma mask_slot: "k < 64 \<Longrightarrow> unat (w AND (2 ^ k - 1 :: u64)) = unat w mod 2 ^ k"
proof -
  assume "k < 64"
  have "w AND (2 ^ k - 1) = take_bit k w" by (simp add: take_bit_eq_mask mask_eq_exp_minus_1)
  then show ?thesis by (simp only: unsigned_take_bit_eq) (simp only: take_bit_eq_mod)
qed

lemma cb_okE:
  assumes "cb_ok b"
  obtains k xs where "k < 64" "cb_cap b = 2 ^ k" "cb_ptr b = Some xs" "length xs = 2 ^ k" "unat (cb_cap b) = 2 ^ k" "\<And>i. cb_slot b i = unat i mod 2 ^ k"
proof -
  from assms obtain k xs where k: "k < 64" "cb_cap b = 2 ^ k" "cb_ptr b = Some xs" "length xs = 2 ^ k" by (auto simp: cb_ok_def)
  have "unat (of_nat (2 ^ k) :: u64) = 2 ^ k mod 2 ^ 64" by (simp only: unat_of_nat) simp
  moreover have "(2::nat) ^ k < 2 ^ 64" using k(1) by (rule power_strict_increasing) simp
  ultimately have "unat (2 ^ k :: u64) = 2 ^ k" by simp
  with k show thesis by (intro that [of k xs]) (simp_all add: cb_slot_def mask_slot)
qed

lemma slot_add:
  assumes "k < 64" "\<And>i. cb_slot b i = unat i mod 2 ^ k"
  shows "cb_slot b (r + of_nat i) = (unat r + i) mod 2 ^ k"
proof -
  have "unat (r + of_nat i :: u64) = (unat r + i) mod 2 ^ 64" by (simp add: unat_word_ariths unat_of_nat mod_add_right_eq)
  moreover have "(2::nat) ^ k dvd 2 ^ 64" using assms(1) by (intro le_imp_power_dvd) simp
  ultimately show ?thesis by (simp only: assms(2) mod_mod_cancel)
qed

lemma slot_inj:
  assumes "(u + i) mod n = (u + j) mod (n::nat)" "i < n" "j < n"
  shows "i = j"
proof -
  from assms(1) obtain p q where "u + i + n * p = u + j + n * q" by (auto simp: nat_mod_eq_iff)
  then have "i + n * p = j + n * q" by simp
  then have "i mod n = j mod n" by (metis mod_mult_self2)
  with assms(2,3) show ?thesis by simp
qed

lemma cb_list_length: "length (cb_list b) = unat (cb_size b)"
  by (simp add: cb_list_def)

lemma cb_list_nth: "i < unat (cb_size b) \<Longrightarrow> cb_list b ! i = the (cb_ptr b) ! cb_slot b (cb_readIdx b + of_nat i)"
  by (simp add: cb_list_def)

lemma cb_write_ok:
  assumes "cb_ok b" "unat (cb_size b) < unat (cb_cap b)"
  shows "\<exists>b'. cb_write x b = Inr b' \<and> cb_ok b' \<and> cb_cap b' = cb_cap b \<and> cb_list b' = cb_list b @ [x]"
proof -
  from assms(1) obtain k xs where k: "k < 64" "cb_cap b = 2 ^ k" "cb_ptr b = Some xs" "length xs = 2 ^ k" "unat (cb_cap b) = 2 ^ k"
    "\<And>i. cb_slot b i = unat i mod 2 ^ k" by (rule cb_okE) blast
  let ?w = "cb_slot b (cb_writeIdx b)" and ?n = "unat (cb_size b)"
  let ?b = "b\<lparr>cb_ptr := Some (xs[?w := x]), cb_writeIdx := cb_writeIdx b + 1\<rparr>"
  have n: "?n < 2 ^ k" using assms(2) k(5) by simp
  have wr: "cb_writeIdx b = cb_readIdx b + of_nat ?n" by (simp add: cb_size_def)
  have w: "?w = (unat (cb_readIdx b) + ?n) mod 2 ^ k" unfolding wr by (rule slot_add [OF k(1,6)])
  have "?w < length xs" using k(4) w by simp
  then have "cb_write x b = Inr ?b" using k(3) by (simp add: cb_write_def cb_store_def cb_slot_def)
  moreover have "cb_ok ?b" using k by (auto simp: cb_ok_def)
  moreover have "cb_list ?b = cb_list b @ [x]"
  proof (rule nth_equalityI)
    have "(2::nat) ^ k < 2 ^ 64" using k(1) by (rule power_strict_increasing) simp
    then have "unat (cb_size b + 1) = Suc ?n" using n by (subst unat_add_nowrap) simp_all
    then have s: "unat (cb_size ?b) = Suc ?n" by (simp add: cb_size_def add_diff_eq add.commute)
    then show "length (cb_list ?b) = length (cb_list b @ [x])" by (simp add: cb_list_length)
    fix i assume "i < length (cb_list ?b)"
    then have i: "i \<le> ?n" using s by (simp add: cb_list_length)
    have sl: "cb_slot ?b (cb_readIdx b + of_nat i) = (unat (cb_readIdx b) + i) mod 2 ^ k"
      using slot_add [OF k(1,6), of "cb_readIdx b" i] by (simp add: cb_slot_def)
    show "cb_list ?b ! i = (cb_list b @ [x]) ! i"
    proof (cases "i = ?n")
      case True
      then show ?thesis using \<open>?w < length xs\<close> sl w s by (simp add: cb_list_nth nth_append cb_list_length)
    next
      case False
      then have "i < ?n" using i by simp
      moreover have "(unat (cb_readIdx b) + i) mod 2 ^ k \<noteq> ?w" using slot_inj [of "unat (cb_readIdx b)" i "2 ^ k" ?n] w n \<open>i < ?n\<close> by auto
      ultimately show ?thesis using sl s slot_add [OF k(1,6), of "cb_readIdx b" i] k(3) by (simp add: cb_list_nth nth_append cb_list_length)
    qed
  qed
  ultimately show ?thesis by (intro exI [of _ ?b]) simp
qed

lemma cb_read_ok:
  assumes "cb_ok b" "cb_list b = x # ys"
  shows "\<exists>b'. cb_read b = Inr (x, b') \<and> cb_ok b' \<and> cb_cap b' = cb_cap b \<and> cb_list b' = ys"
proof -
  from assms(1) obtain k xs where k: "k < 64" "cb_cap b = 2 ^ k" "cb_ptr b = Some xs" "length xs = 2 ^ k" "unat (cb_cap b) = 2 ^ k"
    "\<And>i. cb_slot b i = unat i mod 2 ^ k" by (rule cb_okE) blast
  let ?b = "b\<lparr>cb_readIdx := cb_readIdx b + 1\<rparr>" and ?n = "unat (cb_size b)"
  have n: "?n = Suc (length ys)" using arg_cong [OF assms(2), of length] by (simp add: cb_list_length)
  have x: "x = xs ! cb_slot b (cb_readIdx b)" using cb_list_nth [of 0 b] n assms(2) k(3) by simp
  have "cb_size b \<noteq> 0" using n by auto
  moreover have "cb_slot b (cb_readIdx b) < length xs" using k(4,6) by simp
  ultimately have "cb_read b = Inr (x, ?b)" using x k(3) by (simp add: cb_read_def cb_empty_def cb_load_def cb_slot_def)
  moreover have "cb_list ?b = ys"
  proof (rule nth_equalityI)
    have "cb_size ?b = cb_size b - 1" by (simp add: cb_size_def)
    then have s: "unat (cb_size ?b) = length ys" using n by (simp add: unat_sub_nowrap)
    then show "length (cb_list ?b) = length ys" by (simp add: cb_list_length)
    fix i assume "i < length (cb_list ?b)"
    then have i: "i < length ys" using s by (simp add: cb_list_length)
    have "cb_list b ! Suc i = xs ! cb_slot b (cb_readIdx b + 1 + of_nat i)" using cb_list_nth [of "Suc i" b] i n k(3) by (simp add: add_ac)
    moreover have "cb_list ?b ! i = xs ! cb_slot b (cb_readIdx b + 1 + of_nat i)" using cb_list_nth [of i ?b] i s k(3) by (simp add: cb_slot_def)
    ultimately show "cb_list ?b ! i = ys ! i" using assms(2) by simp
  qed
  moreover have "cb_ok ?b" using k by (auto simp: cb_ok_def)
  ultimately show ?thesis by (intro exI [of _ ?b]) simp
qed

text \<open>Writing into a full buffer overwrites the oldest element: the next read returns the newest.\<close>

lemma cb_write_full:
  assumes "cb_ok b" "cb_size b = cb_cap b"
  shows "\<exists>b' b''. cb_write x b = Inr b' \<and> cb_read b' = Inr (x, b'')"
proof -
  from assms(1) obtain k xs where k: "k < 64" "cb_cap b = 2 ^ k" "cb_ptr b = Some xs" "length xs = 2 ^ k" "unat (cb_cap b) = 2 ^ k"
    "\<And>i. cb_slot b i = unat i mod 2 ^ k" by (rule cb_okE) blast
  let ?w = "cb_slot b (cb_writeIdx b)"
  let ?b = "b\<lparr>cb_ptr := Some (xs[?w := x]), cb_writeIdx := cb_writeIdx b + 1\<rparr>"
  have "cb_writeIdx b = cb_readIdx b + of_nat (2 ^ k)" using assms(2) k(2) by (simp add: cb_size_def algebra_simps)
  then have w: "?w = cb_slot b (cb_readIdx b)" using slot_add [OF k(1,6), of "cb_readIdx b" "2 ^ k"] k(6) by simp
  have wl: "?w < length xs" using k(4,6) by simp
  then have "cb_write x b = Inr ?b" using k(3) by (simp add: cb_write_def cb_store_def cb_slot_def)
  moreover have "cb_size ?b = cb_cap b + 1" using assms(2) by (simp add: cb_size_def)
  moreover have "cb_cap b + 1 \<noteq> 0"
  proof -
    have "(2::nat) ^ k \<le> 2 ^ 63" using k(1) by (intro power_increasing) simp_all
    then have "unat (cb_cap b + 1) = 2 ^ k + 1" using k(5) by (subst unat_add_nowrap) simp_all
    then show ?thesis by auto
  qed
  ultimately show ?thesis using w wl k(3)
    by (intro exI [of _ ?b] exI [of _ "?b\<lparr>cb_readIdx := cb_readIdx b + 1\<rparr>"]) (simp add: cb_read_def cb_empty_def cb_load_def cb_slot_def)
qed

lemma power_two_mask: "k < 64 \<Longrightarrow> (2 ^ k :: u64) AND (2 ^ k - 1) = 0"
proof -
  have "(2 ^ k :: u64) AND (2 ^ k - 1) = take_bit k (2 ^ k)" by (simp add: take_bit_eq_mask mask_eq_exp_minus_1)
  then show ?thesis by (simp add: take_bit_eq_mod)
qed

lemma cb_drain_ok:
  assumes "k < 64" "cb_ok b" "cb_list b = ys" "length zs + length ys \<le> 2 ^ k" "length is = length ys"
  shows "\<exists>b'. foldE (cb_drain (2 ^ k)) is (zs @ replicate (2 ^ k - length zs) junk, of_nat (length zs), b) =
    Inr (zs @ ys @ replicate (2 ^ k - length zs - length ys) junk, of_nat (length zs + length ys), b')"
  using assms
proof (induction ys arbitrary: "is" zs b)
  case Nil
  then show ?case by simp
next
  case (Cons y ys)
  obtain i is' where i: "is = i # is'" "length is' = length ys" using Cons.prems(5) by (cases "is") auto
  from cb_read_ok [OF Cons.prems(2,3)] obtain b' where b': "cb_read b = Inr (y, b')" "cb_ok b'" "cb_list b' = ys" by blast
  have l: "length zs < 2 ^ k" using Cons.prems(4) by simp
  moreover have "(2::nat) ^ k < 2 ^ 64" using Cons.prems(1) by (rule power_strict_increasing) simp
  ultimately have "length zs < 2 ^ 64" by linarith
  then have j: "unat (of_nat (length zs) AND (2 ^ k - 1 :: u64)) = length zs"
    using l by (simp only: mask_slot [OF Cons.prems(1)] unat_of_nat) simp
  obtain n where n: "2 ^ k - length zs = Suc n" using l by (metis Suc_diff_Suc)
  have "(zs @ replicate (2 ^ k - length zs) junk)[length zs := y] = (zs @ [y]) @ replicate (2 ^ k - length (zs @ [y])) junk"
    using n by (simp add: list_update_append)
  then have "cb_drain (2 ^ k) i (zs @ replicate (2 ^ k - length zs) junk, of_nat (length zs), b) =
      Inr ((zs @ [y]) @ replicate (2 ^ k - length (zs @ [y])) junk, of_nat (length (zs @ [y])), b')"
    using b'(1) j l by (simp add: cb_drain_def Let_def add.commute)
  with Cons.IH [OF Cons.prems(1) b'(2,3), of "zs @ [y]" is'] Cons.prems(4) i show ?case by simp
qed

lemma cb_resize_ok:
  assumes "k < 64" "cb_ok b" "length (cb_list b) \<le> 2 ^ k"
  shows "\<exists>b'. cb_resize junk (2 ^ k) b = Inr b' \<and> cb_ok b' \<and> cb_cap b' = 2 ^ k \<and> cb_list b' = cb_list b"
proof -
  let ?ys = "cb_list b"
  have u: "unat (2 ^ k :: u64) = 2 ^ k"
    by (rule cb_okE [of "\<lparr>cb_ptr = Some (replicate (2 ^ k) junk), cb_externalMem = False, cb_readIdx = 0, cb_writeIdx = 0, cb_cap = 2 ^ k\<rparr>"])
      (use assms(1) in \<open>auto simp: cb_ok_def\<close>)
  from cb_drain_ok [OF assms(1,2) refl, of "[]" "[0..<unat (cb_size b)]" junk] assms(3) obtain b' where
    d: "foldE (cb_drain (2 ^ k)) [0..<unat (cb_size b)] (replicate (2 ^ k) junk, 0, b) = Inr (?ys @ replicate (2 ^ k - length ?ys) junk, of_nat (length ?ys), b')"
    by (auto simp: cb_list_length)
  define c where "c = b'\<lparr>cb_ptr := Some (?ys @ replicate (2 ^ k - length ?ys) junk), cb_cap := 2 ^ k, cb_readIdx := 0, cb_writeIdx := of_nat (length ?ys)\<rparr>"
  have r: "cb_resize junk (2 ^ k) b = Inr c" using d u power_two_mask [OF assms(1)] by (simp add: cb_resize_def c_def)
  have ok: "cb_ok c" using assms(1,3) by (auto simp: cb_ok_def c_def)
  have "(2::nat) ^ k < 2 ^ 64" using assms(1) by (rule power_strict_increasing) simp
  then have n: "unat (cb_size c) = length ?ys" using assms(3) by (simp add: cb_size_def c_def unat_of_nat)
  have "cb_list c = ?ys"
  proof (rule nth_equalityI)
    fix i assume "i < length (cb_list c)"
    then have i: "i < length ?ys" using n by (simp add: cb_list_length)
    have "cb_slot c i = unat i mod 2 ^ k" for i using mask_slot [OF assms(1), of i] by (simp add: cb_slot_def c_def)
    from slot_add [OF assms(1) this, of 0 i] have "cb_slot c (of_nat i) = i" using i assms(3) by simp
    then show "cb_list c ! i = ?ys ! i" using i n by (simp add: cb_list_nth) (simp add: c_def nth_append)
  qed (simp add: cb_list_length n)
  with r ok show ?thesis by (simp add: c_def)
qed

section \<open>First in, first out\<close>

interpretation cb: krt_queue cb_ok "\<lambda>b. unat (cb_cap b)" cb_list cb_write cb_read
proof
  fix q :: "'a circbuf" and x xs
  show "\<exists>q'. cb_write x q = Inr q' \<and> cb_ok q' \<and> unat (cb_cap q') = unat (cb_cap q) \<and> cb_list q' = cb_list q @ [x]"
    if "cb_ok q" "length (cb_list q) < unat (cb_cap q)" using cb_write_ok [OF that(1)] that(2) by (fastforce simp: cb_list_length)
  show "\<exists>q'. cb_read q = Inr (x, q') \<and> cb_ok q' \<and> unat (cb_cap q') = unat (cb_cap q) \<and> cb_list q' = xs"
    if "cb_ok q" "cb_list q = x # xs" using cb_read_ok [OF that] by fastforce
qed

text \<open>
  C29: The ring buffer is a first-in first-out queue: as long as the elements in it never exceed the capacity and
  no read meets an empty buffer, every sequence of writes and reads returns exactly what a list would, from
  any position of the two indices, also when these wrap around at \<open>2 ^ 64\<close>.
\<close>

theorem circbuf_is_fifo:
  assumes "cb_ok b" and "fifo (unat (cb_cap b)) ops (cb_list b) [] = Some (xs, out)"
  shows "\<exists>b'. foldE (queue_step cb_write cb_read) ops (b, []) = Inr (b', out) \<and> cb_ok b' \<and> cb_list b' = xs"
  by (rule cb.run_fifo [OF assms])

text \<open>
  Nothing stops a write into a full buffer: the write succeeds and the next read returns the element just
  written instead of the oldest one.
\<close>

lemma circbuf_overflow:
  assumes "cb_ok b" and "cb_size b = cb_cap b"
  shows "\<exists>b' b''. cb_write x b = Inr b' \<and> cb_read b' = Inr (x, b'')"
  by (rule cb_write_full [OF assms])

text \<open>
  \<^verbatim>\<open>resize\<close> to a power of two that is large enough keeps the elements and their order; a size that is
  not a power of two is refused.
\<close>

lemma circbuf_resize:
  assumes "cb_ok b"
  shows "(\<forall>k. k < 64 \<and> length (cb_list b) \<le> 2 ^ k \<longrightarrow>
       (\<exists>b'. cb_resize junk (2 ^ k) b = Inr b' \<and> cb_ok b' \<and> cb_cap b' = 2 ^ k \<and> cb_list b' = cb_list b)) \<and>
    (\<forall>n. n AND (n - 1) \<noteq> 0 \<longrightarrow> cb_resize junk n b = Inl (Abort ''size must be a power of two!''))"
  using cb_resize_ok [OF _ assms] by (auto simp: cb_resize_def)

section \<open>Examples\<close>

text \<open>A buffer of four elements whose indices are about to wrap around.\<close>

definition cb_demo :: "nat circbuf" where
  "cb_demo = (cb_new_on 4 [0, 0, 0, 7])\<lparr>cb_readIdx := - 1, cb_writeIdx := 0\<rparr>"

lemma cb_demo_ok: "cb_ok cb_demo" "cb_list cb_demo = [7]" "unat (cb_cap cb_demo) = 4"
proof -
  show "cb_ok cb_demo" unfolding cb_ok_def cb_demo_def by (intro exI [of _ 2]) (simp add: cb_new_on_def cb_blank_def)
  show "cb_list cb_demo = [7]" by code_simp
  show "unat (cb_cap cb_demo) = 4" by code_simp
qed

theorem circbuf_is_fifo_witness:
  "\<exists>b'. foldE (queue_step cb_write cb_read) [QPush 1, QPush 2, QPop, QPop] (cb_demo, []) = Inr (b', [7, 1]) \<and> cb_list b' = [2]"
  using circbuf_is_fifo [OF cb_demo_ok(1), of "[QPush 1, QPush 2, QPop, QPop]" "[2]" "[7, 1]"] by (auto simp: cb_demo_ok)

lemma circbuf_resize_witness:
  "\<exists>b'. cb_resize 0 8 cb_demo = Inr b' \<and> cb_list b' = [7]"
proof -
  have "(3::nat) < 64 \<and> length (cb_list cb_demo) \<le> 2 ^ 3" by (simp add: cb_demo_ok(2))
  with circbuf_resize [OF cb_demo_ok(1), of 0, THEN conjunct1, THEN spec, of 3]
  have "\<exists>b'. cb_resize 0 (2 ^ 3) cb_demo = Inr b' \<and> cb_ok b' \<and> cb_cap b' = 2 ^ 3 \<and> cb_list b' = cb_list cb_demo" by (rule mp)
  then show ?thesis by (auto simp: cb_demo_ok(2))
qed

text \<open>Members that do not do what their names say: \<^verbatim>\<open>peek\<close> leaves the buffer, the copy has none of the elements, and
  \<^verbatim>\<open>read_atomic\<close> overwrites the element instead of returning it.\<close>

lemma cb_peek_unmasked: "cb_peek ((cb_new_on 2 [1::nat, 2])\<lparr>cb_readIdx := 2, cb_writeIdx := 3\<rparr>) = Inl OutOfBounds"
  by code_simp

lemma cb_copy_loses: "bindE (cb_copy 0 cb_demo) (\<lambda>b. Inr (cb_list b)) = Inr [0]"
  by code_simp

lemma cb_read_atomic_stores: "bindE (cb_read_atomic (Some 5) ((cb_new_on 2 [1::nat, 2])\<lparr>cb_writeIdx := 2\<rparr>)) (\<lambda>b. Inr (cb_ptr b)) = Inr (Some [5, 2])"
  by code_simp

lemma cb_move_ok: "cb_ok b \<Longrightarrow> cb_list (fst (cb_move b)) = cb_list b \<and> cb_ok (fst (cb_move b)) \<and> cb_empty (snd (cb_move b))"
  by (simp add: cb_move_def cb_list_def cb_ok_def cb_slot_def cb_size_def cb_empty_def)

end
