(* ===== verification/Karray.thy ===== *)
theory Karray
  imports Kqueue
begin

text \<open>
  The growing arrays of the runtime library: the shared implementation \<^verbatim>\<open>krt/types/impl/arraylike.h\<close> and its
  users \<^verbatim>\<open>krt/types/array.h\<close> and \<^verbatim>\<open>krt/types/stack.h\<close>. An array is a block of memory with a count and a
  capacity. The elements are trivially copyable values, so constructors, destructors and moves are plain copies.
  The memory block is a list (the pointer is null or the start of the block); an access outside it is an error,
  and so is an access to a block that was freed.
\<close>

section \<open>The array\<close>

record 'a arr =
  ar_ptr :: "'a list option"
  ar_cnt :: u64
  ar_cap :: u64

text \<open>
  What the template parameters provide: which sizes the allocator can still deliver, what new memory holds, the
  value of a default constructed element, and for the element type \<^verbatim>\<open>char\<close> the terminator.
\<close>

record 'a elty =
  el_avail :: "u64 \<Rightarrow> bool"
  el_junk :: 'a
  el_default :: 'a
  el_nul :: "'a option"

definition arr_empty :: "'a arr" where
  "arr_empty = \<lparr>ar_ptr = None, ar_cnt = 0, ar_cap = 0\<rparr>"

text \<open>\<^verbatim>\<open>ptr[i]\<close>, read and written.\<close>

definition mem_load :: "u64 \<Rightarrow> 'a list option \<Rightarrow> 'a res" where
  "mem_load i p = (case p of None \<Rightarrow> Inl (Fault 0) | Some xs \<Rightarrow> if unat i < length xs then Inr (xs ! unat i) else Inl OutOfBounds)"

definition ar_load :: "u64 \<Rightarrow> 'a arr \<Rightarrow> 'a res" where
  "ar_load i a = mem_load i (ar_ptr a)"

definition ar_store :: "u64 \<Rightarrow> 'a \<Rightarrow> 'a arr \<Rightarrow> 'a arr res" where
  "ar_store i x a = (case ar_ptr a of None \<Rightarrow> Inl (Fault 0)
     | Some xs \<Rightarrow> if unat i < length xs then Inr (a\<lparr>ar_ptr := Some (xs[unat i := x])\<rparr>) else Inl OutOfBounds)"

text \<open>A copy of \<open>num\<close> elements to position \<open>off\<close> of the block \<open>dest\<close>.\<close>

definition copy_elements :: "'a list \<Rightarrow> nat \<Rightarrow> 'a list option \<Rightarrow> nat \<Rightarrow> 'a list res" where
  "copy_elements dest off src num =
     (if num = 0 then Inr dest
      else case src of None \<Rightarrow> Inl (Fault 0)
           | Some xs \<Rightarrow> if num \<le> length xs \<and> off + num \<le> length dest
                        then Inr (take off dest @ take num xs @ drop (off + num) dest) else Inl OutOfBounds)"

section \<open>The shared implementation\<close>

text \<open>\<^verbatim>\<open>reserve\<close> also tells whether the block was replaced; its callers then free the old one.\<close>

definition reserve :: "'a elty \<Rightarrow> u64 \<Rightarrow> 'a arr \<Rightarrow> (bool \<times> 'a arr) res" where
  "reserve e n a =
     (let atleast = (if el_nul e = None then n else n + 1)
      in if ar_cap a \<ge> atleast then Inr (False, a)
         else let newsz = max 16 (max atleast ((ar_cap a * 3) div 2))
              in if \<not> el_avail e newsz then Inl (Abort ''reserve(): alloc() returned null!'')
                 else bindE (copy_elements (replicate (unat newsz) (el_junk e)) 0 (ar_ptr a) (unat (ar_cnt a))) (\<lambda>mem.
                      Inr (True, a\<lparr>ar_ptr := Some mem, ar_cap := newsz\<rparr>)))"

definition arr_resize :: "'a elty \<Rightarrow> u64 \<Rightarrow> 'a arr \<Rightarrow> (bool \<times> 'a arr) res" where
  "arr_resize e newsize a =
     (if newsize < ar_cnt a then Inr (False, a\<lparr>ar_cnt := newsize\<rparr>)
      else if newsize > ar_cnt a
      then bindE (reserve e newsize a) (\<lambda>(did, a1).
           bindE (foldE (\<lambda>i. ar_store (of_nat i) (el_default e)) [unat (ar_cnt a1)..<unat newsize] a1) (\<lambda>a2.
           Inr (did, a2\<lparr>ar_cnt := newsize\<rparr>)))
      else Inr (False, a))"

definition front_elem :: "'a arr \<Rightarrow> 'a res" where
  "front_elem a = (if ar_cnt a = 0 then Inl (Abort ''front(): empty array'') else ar_load 0 a)"

definition back_elem :: "'a arr \<Rightarrow> 'a res" where
  "back_elem a = (if ar_cnt a = 0 then Inl (Abort ''back(): empty array'') else ar_load (ar_cnt a - 1) a)"

definition arr_clear :: "'a arr \<Rightarrow> 'a arr" where
  "arr_clear a = a\<lparr>ar_cnt := 0\<rparr>"

definition set_last_if_char :: "'a elty \<Rightarrow> 'a arr \<Rightarrow> 'a arr res" where
  "set_last_if_char e a = (case el_nul e of None \<Rightarrow> Inr a | Some z \<Rightarrow> ar_store (ar_cnt a) z a)"

text \<open>The argument of \<^verbatim>\<open>append_element\<close> is a reference: to a value elsewhere, or to an element of the array itself.\<close>

datatype 'a elref = Ext 'a | Own u64

definition append_element :: "'a elty \<Rightarrow> 'a elref \<Rightarrow> 'a arr \<Rightarrow> 'a arr res" where
  "append_element e c a =
     bindE (reserve e (ar_cnt a + 1) a) (\<lambda>(moved, a1).
     bindE (case c of Ext x \<Rightarrow> Inr x | Own i \<Rightarrow> if moved then Inl OutOfBounds else ar_load i a1) (\<lambda>x.
     bindE (ar_store (ar_cnt a1) x a1) (\<lambda>a2.
     set_last_if_char e (a2\<lparr>ar_cnt := ar_cnt a2 + 1\<rparr>))))"

definition emplace_element :: "'a elty \<Rightarrow> 'a \<Rightarrow> 'a arr \<Rightarrow> 'a arr res" where
  "emplace_element e x a =
     bindE (reserve e (ar_cnt a + 1) a) (\<lambda>(_, a1).
     bindE (ar_store (ar_cnt a1) x a1) (\<lambda>a2.
     set_last_if_char e (a2\<lparr>ar_cnt := ar_cnt a2 + 1\<rparr>)))"

definition append_ptr :: "'a elty \<Rightarrow> 'a list \<Rightarrow> 'a arr \<Rightarrow> 'a arr res" where
  "append_ptr e xs a =
     bindE (reserve e (ar_cnt a + of_nat (length xs)) a) (\<lambda>(_, a1).
     bindE (foldE (\<lambda>x a. bindE (ar_store (ar_cnt a) x a) (\<lambda>a'. Inr (a'\<lparr>ar_cnt := ar_cnt a' + 1\<rparr>))) xs a1) (set_last_if_char e))"

text \<open>\<^verbatim>\<open>append\<close> of another array, or of the array itself (\<open>None\<close>).\<close>

definition append_arr :: "'a elty \<Rightarrow> 'a arr option \<Rightarrow> 'a arr \<Rightarrow> 'a arr res" where
  "append_arr e s a =
     bindE (reserve e (ar_cnt a + ar_cnt (case s of None \<Rightarrow> a | Some s' \<Rightarrow> s')) a) (\<lambda>(_, a1).
     let s1 = (case s of None \<Rightarrow> a1 | Some s' \<Rightarrow> s')
     in bindE (case ar_ptr a1 of None \<Rightarrow> if ar_cnt s1 = 0 then Inr None else Inl (Fault 0)
               | Some mem \<Rightarrow> bindE (copy_elements mem (unat (ar_cnt a1)) (ar_ptr s1) (unat (ar_cnt s1))) (\<lambda>mem'. Inr (Some mem'))) (\<lambda>p.
        set_last_if_char e (a1\<lparr>ar_ptr := p, ar_cnt := ar_cnt a1 + ar_cnt s1\<rparr>)))"

definition erase_at :: "u64 \<Rightarrow> u64 \<Rightarrow> 'a arr \<Rightarrow> 'a arr res" where
  "erase_at idx num a =
     (if idx \<ge> ar_cnt a then Inl (Abort ''erase_at(): index %zu out of range (size: %zu)'')
      else if idx + num > ar_cnt a then Inl (Abort ''erase_at(): not enough items to erase (wanted %zu from idx %zu, only have %zu)'')
      else if idx + num = ar_cnt a then Inr (a\<lparr>ar_cnt := ar_cnt a - num\<rparr>)
      else bindE (foldE (\<lambda>i a. bindE (ar_load (of_nat i + num) a) (\<lambda>x. ar_store (of_nat i) x a)) [unat idx..<unat (ar_cnt a)] a) (\<lambda>a'.
           Inr (a'\<lparr>ar_cnt := ar_cnt a' - num\<rparr>)))"

fun cmpeq_from :: "'a arr \<Rightarrow> 'a list option \<Rightarrow> nat list \<Rightarrow> bool res" where
  "cmpeq_from a other [] = Inr True"
| "cmpeq_from a other (i # is) =
     bindE (ar_load (of_nat i) a) (\<lambda>x. bindE (mem_load (of_nat i) other) (\<lambda>y.
     if x \<noteq> y then Inr False else cmpeq_from a other is))"

definition op_cmpeq :: "'a arr \<Rightarrow> 'a list option \<Rightarrow> u64 \<Rightarrow> bool res" where
  "op_cmpeq a other count =
     (if ar_cnt a \<noteq> count then Inr False else cmpeq_from a other [0..<unat (ar_cnt a)])"

fun cmplt_from :: "('a::linorder) arr \<Rightarrow> 'a list option \<Rightarrow> bool \<Rightarrow> nat list \<Rightarrow> bool res" where
  "cmplt_from a other dflt [] = Inr dflt"
| "cmplt_from a other dflt (i # is) =
     bindE (ar_load (of_nat i) a) (\<lambda>x. bindE (mem_load (of_nat i) other) (\<lambda>y.
     if x < y then Inr True else if x > y then Inr False else cmplt_from a other dflt is))"

definition op_cmplt :: "('a::linorder) arr \<Rightarrow> 'a list option \<Rightarrow> u64 \<Rightarrow> bool res" where
  "op_cmplt a other count =
     (if ar_cnt a \<noteq> count then Inr False
      else cmplt_from a other (ar_cnt a < count) [0..<unat (if count < ar_cnt a then count else ar_cnt a)])"

definition arr_eq :: "'a arr \<Rightarrow> 'a arr \<Rightarrow> bool res" where
  "arr_eq a b = op_cmpeq a (ar_ptr b) (ar_cnt b)"

definition arr_lt :: "('a::linorder) arr \<Rightarrow> 'a arr \<Rightarrow> bool res" where
  "arr_lt a b = op_cmplt a (ar_ptr b) (ar_cnt b)"

definition op_cmpgt :: "('a::linorder) arr \<Rightarrow> 'a arr \<Rightarrow> bool res" where
  "op_cmpgt a b = arr_lt b a"

definition op_cmpneq :: "'a arr \<Rightarrow> 'a arr \<Rightarrow> bool res" where
  "op_cmpneq a b = bindE (arr_eq a b) (\<lambda>r. Inr (\<not> r))"

definition op_cmpgeq :: "('a::linorder) arr \<Rightarrow> 'a arr \<Rightarrow> bool res" where
  "op_cmpgeq a b = bindE (arr_lt a b) (\<lambda>r. Inr (\<not> r))"

definition op_cmpleq :: "('a::linorder) arr \<Rightarrow> 'a arr \<Rightarrow> bool res" where
  "op_cmpleq a b = bindE (arr_lt b a) (\<lambda>r. Inr (\<not> r))"

definition op_subscript :: "u64 \<Rightarrow> 'a arr \<Rightarrow> 'a res" where
  "op_subscript idx a =
     (if idx \<ge> ar_cnt a then Inl (Abort ''operator[]: index %zu out of range (size: %zu)'') else ar_load idx a)"

text \<open>An assignment through the reference \<^verbatim>\<open>operator[]\<close> returns.\<close>

definition op_assign :: "u64 \<Rightarrow> 'a \<Rightarrow> 'a arr \<Rightarrow> 'a arr res" where
  "op_assign idx x a =
     (if idx \<ge> ar_cnt a then Inl (Abort ''operator[]: index %zu out of range (size: %zu)'') else ar_store idx x a)"

section \<open>\<^verbatim>\<open>krt::array\<close>\<close>

definition arr_new :: "'a elty \<Rightarrow> 'a list option \<Rightarrow> u64 \<Rightarrow> 'a arr res" where
  "arr_new e p l =
     (if p \<noteq> None \<and> l \<noteq> 0
      then bindE (reserve e l arr_empty) (\<lambda>(_, a).
           case ar_ptr a of None \<Rightarrow> Inl (Fault 0)
           | Some mem \<Rightarrow> bindE (copy_elements mem 0 p (unat l)) (\<lambda>mem'. Inr (a\<lparr>ar_cnt := l, ar_ptr := Some mem'\<rparr>)))
      else Inr arr_empty)"

definition arr_copy :: "'a elty \<Rightarrow> 'a arr \<Rightarrow> 'a arr res" where
  "arr_copy e other = arr_new e (ar_ptr other) (ar_cnt other)"

text \<open>The move constructor and the move assignment: the new array and what is left of the old one.\<close>

definition arr_move :: "'a arr \<Rightarrow> 'a arr \<times> 'a arr" where
  "arr_move other =
     (\<lparr>ar_ptr = ar_ptr other, ar_cnt = ar_cnt other, ar_cap = ar_cap other\<rparr>, other\<lparr>ar_ptr := None, ar_cnt := 0, ar_cap := 0\<rparr>)"

fun index_from :: "'a \<Rightarrow> 'a arr \<Rightarrow> nat list \<Rightarrow> nat option res" where
  "index_from c a [] = Inr None"
| "index_from c a (i # is) = bindE (ar_load (of_nat i) a) (\<lambda>x. if x = c then Inr (Some i) else index_from c a is)"

definition indexOf :: "'a \<Rightarrow> 'a arr \<Rightarrow> u64 res" where
  "indexOf c a = bindE (index_from c a [0..<unat (ar_cnt a)]) (\<lambda>r. Inr (case r of None \<Rightarrow> - 1 | Some i \<Rightarrow> of_nat i))"

text \<open>\<^verbatim>\<open>find\<close> returns an iterator: the position, \<^verbatim>\<open>end()\<close> being the count.\<close>

definition arr_find :: "'a \<Rightarrow> 'a arr \<Rightarrow> u64 res" where
  "arr_find c a = bindE (index_from c a [0..<unat (ar_cnt a)]) (\<lambda>r. Inr (case r of None \<Rightarrow> ar_cnt a | Some i \<Rightarrow> of_nat i))"

definition arr_reserve :: "'a elty \<Rightarrow> u64 \<Rightarrow> 'a arr \<Rightarrow> 'a arr res" where
  "arr_reserve e atleast a = bindE (reserve e atleast a) (\<lambda>(_, a'). Inr a')"

definition arr_set_size :: "'a elty \<Rightarrow> u64 \<Rightarrow> 'a arr \<Rightarrow> 'a arr res" where
  "arr_set_size e newsize a = bindE (arr_resize e newsize a) (\<lambda>(_, a'). Inr a')"

definition subarray :: "'a elty \<Rightarrow> u64 \<Rightarrow> u64 \<Rightarrow> 'a arr \<Rightarrow> 'a arr res" where
  "subarray e idx len0 a =
     (let len = (if len0 = - 1 then ar_cnt a - idx else len0)
      in if idx > ar_cnt a \<or> idx + len > ar_cnt a
         then Inl (Abort ''subarray(): out of range; wanted (%zu, %zu), length is only %d'')
         else arr_new e (case ar_ptr a of None \<Rightarrow> if idx = 0 then None else Some [] | Some mem \<Rightarrow> Some (drop (unat idx) mem)) len)"

definition arr_erase :: "u64 \<Rightarrow> 'a arr \<Rightarrow> 'a arr res" where
  "arr_erase it a = erase_at it 1 a"

definition arr_plus :: "'a elty \<Rightarrow> 'a arr \<Rightarrow> 'a arr \<Rightarrow> 'a arr res" where
  "arr_plus e a other = bindE (arr_copy e a) (append_arr e (Some other))"

section \<open>\<^verbatim>\<open>krt::stack\<close>\<close>

definition stack_push :: "'a elty \<Rightarrow> 'a elref \<Rightarrow> 'a arr \<Rightarrow> 'a arr res" where
  "stack_push e c a = append_element e c a"

definition stack_top :: "'a arr \<Rightarrow> 'a res" where
  "stack_top a = back_elem a"

definition stack_pop :: "'a arr \<Rightarrow> ('a \<times> 'a arr) res" where
  "stack_pop a = bindE (stack_top a) (\<lambda>ret. bindE (erase_at (ar_cnt a - 1) 1 a) (\<lambda>a'. Inr (ret, a')))"

section \<open>The contents\<close>

definition arr_list :: "'a arr \<Rightarrow> 'a list" where
  "arr_list a = (case ar_ptr a of None \<Rightarrow> [] | Some mem \<Rightarrow> take (unat (ar_cnt a)) mem)"

definition room :: "'a elty \<Rightarrow> nat" where
  "room e = (if el_nul e = None then 0 else 1)"

definition arr_ok :: "'a elty \<Rightarrow> 'a arr \<Rightarrow> bool" where
  "arr_ok e a \<longleftrightarrow> unat (ar_cap a) < 2 ^ 63 \<and>
     (case ar_ptr a of None \<Rightarrow> ar_cnt a = 0 \<and> ar_cap a = 0
      | Some mem \<Rightarrow> length mem = unat (ar_cap a) \<and> unat (ar_cnt a) + room e \<le> unat (ar_cap a))"

definition alloc_null :: kerror where
  "alloc_null = Abort ''reserve(): alloc() returned null!''"

text \<open>No allocator has \<open>2 ^ 63\<close> elements left.\<close>

definition elty_ok :: "'a elty \<Rightarrow> bool" where
  "elty_ok e \<longleftrightarrow> (\<forall>n. el_avail e n \<longrightarrow> unat n < 2 ^ 63)"

text \<open>The result of an operation: it ran out of memory, or the array now holds the list.\<close>

definition becomes :: "'a elty \<Rightarrow> 'a arr res \<Rightarrow> 'a list \<Rightarrow> bool" where
  "becomes e r xs \<longleftrightarrow> r = Inl alloc_null \<or> (\<exists>a. r = Inr a \<and> arr_ok e a \<and> arr_list a = xs)"

lemma becomesI [intro]: "\<lbrakk>arr_ok e a; arr_list a = xs\<rbrakk> \<Longrightarrow> becomes e (Inr a) xs"
  by (simp add: becomes_def)

lemma arr_ok_length: "arr_ok e a \<Longrightarrow> length (arr_list a) = unat (ar_cnt a)"
  by (auto simp: arr_ok_def arr_list_def split: option.splits)

lemma arr_ok_cnt: "arr_ok e a \<Longrightarrow> unat (ar_cnt a) < 2 ^ 63"
  by (auto simp: arr_ok_def split: option.splits)

lemma arr_ok_Some: "\<lbrakk>arr_ok e a; 0 < unat (ar_cap a)\<rbrakk> \<Longrightarrow> \<exists>mem. ar_ptr a = Some mem \<and> length mem = unat (ar_cap a)"
  by (auto simp: arr_ok_def split: option.splits)

lemma arr_empty_ok: "arr_ok e arr_empty" "arr_list arr_empty = []"
  by (simp_all add: arr_ok_def arr_empty_def arr_list_def)

lemma arr_ok_incr:
  assumes "arr_ok e a"
  shows "unat (ar_cnt a + 1) = unat (ar_cnt a) + 1" "unat (ar_cnt a + 1) + room e < 2 ^ 64"
  using arr_ok_cnt [OF assms] by (auto simp: unat_add_nowrap room_def)

lemma of_nat_u64: "n < 2 ^ 64 \<Longrightarrow> unat (of_nat n :: u64) = n"
  by (simp add: unat_of_nat)

section \<open>Growing\<close>

lemma reserve_ok:
  assumes "elty_ok e" "arr_ok e a" "unat n + room e < 2 ^ 64"
  obtains "reserve e n a = Inl alloc_null"
  | did a' where "reserve e n a = Inr (did, a')" "arr_ok e a'" "arr_list a' = arr_list a" "ar_cnt a' = ar_cnt a"
      "unat n + room e \<le> unat (ar_cap a')" "\<not> did \<longrightarrow> a' = a" "did \<longleftrightarrow> unat (ar_cap a) < unat n + room e"
proof -
  define m where "m = (if el_nul e = None then n else n + 1)"
  have m: "unat m = unat n + room e" using assms(3) by (auto simp: m_def room_def unat_add_nowrap)
  show thesis
  proof (cases "ar_cap a \<ge> m")
    case True
    then have "reserve e n a = Inr (False, a)" by (simp add: reserve_def m_def Let_def)
    then show thesis by (rule that(2)) (use assms(2) True m in \<open>auto simp: word_le_nat_alt\<close>)
  next
    case False
    define z where "z = max 16 (max m ((ar_cap a * 3) div 2))"
    have z: "m \<le> z" unfolding z_def by (rule max.coboundedI2) (rule max.cobounded1)
    have r: "reserve e n a = (if \<not> el_avail e z then Inl alloc_null
        else bindE (copy_elements (replicate (unat z) (el_junk e)) 0 (ar_ptr a) (unat (ar_cnt a))) (\<lambda>mem. Inr (True, a\<lparr>ar_ptr := Some mem, ar_cap := z\<rparr>)))"
      using False by (simp add: reserve_def m_def z_def Let_def alloc_null_def)
    show thesis
    proof (cases "el_avail e z")
      case True
      have c: "unat (ar_cnt a) + room e \<le> unat z" using assms(2) False z
        by (auto simp: arr_ok_def word_le_nat_alt not_le m split: option.splits)
      obtain mem where mem: "copy_elements (replicate (unat z) (el_junk e)) 0 (ar_ptr a) (unat (ar_cnt a)) = Inr mem"
        "length mem = unat z" "take (unat (ar_cnt a)) mem = arr_list a"
      proof (cases "unat (ar_cnt a) = 0")
        case True
        then show ?thesis by (intro that [of "replicate (unat z) (el_junk e)"]) (auto simp: copy_elements_def arr_list_def split: option.splits)
      next
        case False
        with assms(2) obtain xs where xs: "ar_ptr a = Some xs" "unat (ar_cnt a) \<le> length xs" by (auto simp: arr_ok_def split: option.splits)
        with False c show ?thesis
          by (intro that [of "take (unat (ar_cnt a)) xs @ drop (unat (ar_cnt a)) (replicate (unat z) (el_junk e))"])
            (simp_all add: copy_elements_def arr_list_def)
      qed
      have "reserve e n a = Inr (True, a\<lparr>ar_ptr := Some mem, ar_cap := z\<rparr>)" using r mem(1) True by simp
      then show thesis
        by (rule that(2)) (use True assms(1) c mem z False m in \<open>auto simp: arr_ok_def elty_ok_def arr_list_def word_le_nat_alt\<close>)
    next
      case False
      with r show thesis by (intro that(1)) simp
    qed
  qed
qed

lemma store_ok:
  assumes "arr_ok e a" "unat i < unat (ar_cap a)"
  shows "\<exists>mem. ar_ptr a = Some mem \<and> ar_store i x a = Inr (a\<lparr>ar_ptr := Some (mem[unat i := x])\<rparr>)"
proof -
  from assms(2) have "0 < unat (ar_cap a)" by linarith
  from arr_ok_Some [OF assms(1) this] assms(2) show ?thesis by (auto simp: ar_store_def)
qed

lemma set_last_ok:
  assumes "arr_ok e a" "unat (ar_cnt a) + room e \<le> unat (ar_cap a)"
  shows "\<exists>a'. set_last_if_char e a = Inr a' \<and> arr_ok e a' \<and> arr_list a' = arr_list a"
proof (cases "el_nul e")
  case (Some z)
  with assms(2) have c: "unat (ar_cnt a) < unat (ar_cap a)" by (simp add: room_def)
  from store_ok [OF assms(1) c] show ?thesis using assms(1)
    by (fastforce simp: set_last_if_char_def Some arr_ok_def arr_list_def)
qed (use assms in \<open>simp add: set_last_if_char_def\<close>)

lemma push_ok:
  assumes "arr_ok e a" "unat (ar_cnt a) + 1 + room e \<le> unat (ar_cap a)"
  shows "\<exists>a'. ar_store (ar_cnt a) x a = Inr a' \<and> arr_ok e (a'\<lparr>ar_cnt := ar_cnt a' + 1\<rparr>) \<and>
    arr_list (a'\<lparr>ar_cnt := ar_cnt a' + 1\<rparr>) = arr_list a @ [x] \<and> ar_cap a' = ar_cap a \<and> unat (ar_cnt a' + 1) = unat (ar_cnt a) + 1"
proof -
  have n: "unat (ar_cnt a + 1) = unat (ar_cnt a) + 1" using arr_ok_cnt [OF assms(1)] by (simp add: unat_add_nowrap)
  from store_ok [OF assms(1), of "ar_cnt a"] assms(2) obtain mem where
    m: "ar_ptr a = Some mem" "ar_store (ar_cnt a) x a = Inr (a\<lparr>ar_ptr := Some (mem[unat (ar_cnt a) := x])\<rparr>)" by auto
  with assms n have "take (Suc (unat (ar_cnt a))) (mem[unat (ar_cnt a) := x]) = arr_list a @ [x]"
    by (simp add: arr_ok_def arr_list_def take_Suc_conv_app_nth)
  with m n assms show ?thesis by (auto simp: arr_ok_def arr_list_def)
qed

text \<open>Appending an element from elsewhere, and appending one of the array's own when nothing had to be moved.\<close>

lemma append_element_ok:
  assumes "elty_ok e" "arr_ok e a"
  shows "becomes e (append_element e (Ext x) a) (arr_list a @ [x])"
proof -
  note n = arr_ok_incr(1) [OF assms(2)] and lt = arr_ok_incr(2) [OF assms(2)]
  from assms lt show ?thesis
  proof (cases rule: reserve_ok)
    case 1
    then show ?thesis by (simp add: append_element_def becomes_def)
  next
    case (2 did a')
    from push_ok [OF 2(2), of x] 2(4,5) n obtain a2 where a2: "ar_store (ar_cnt a') x a' = Inr a2"
      "arr_ok e (a2\<lparr>ar_cnt := ar_cnt a2 + 1\<rparr>)" "arr_list (a2\<lparr>ar_cnt := ar_cnt a2 + 1\<rparr>) = arr_list a @ [x]" "ar_cap a2 = ar_cap a'" "unat (ar_cnt a2 + 1) = unat (ar_cnt a) + 1"
      using 2(3) by auto
    from set_last_ok [OF a2(2)] a2(4,5) 2(5) n a2(3) have "\<exists>a3. set_last_if_char e (a2\<lparr>ar_cnt := ar_cnt a2 + 1\<rparr>) = Inr a3 \<and> arr_ok e a3 \<and> arr_list a3 = arr_list a @ [x]" by simp
    then show ?thesis using 2(1) a2(1) by (auto simp: append_element_def)
  qed
qed

text \<open>Growing frees the old block, and with it the element that is to be appended.\<close>

lemma append_own:
  assumes "elty_ok e" "arr_ok e a" "unat (ar_cap a) < unat (ar_cnt a) + 1 + room e"
  shows "append_element e (Own i) a = Inl alloc_null \<or> append_element e (Own i) a = Inl OutOfBounds"
proof -
  note n = arr_ok_incr(1) [OF assms(2)] and lt = arr_ok_incr(2) [OF assms(2)]
  from assms(1,2) lt show ?thesis by (cases rule: reserve_ok) (use assms(3) n in \<open>auto simp: append_element_def\<close>)
qed

section \<open>Erasing\<close>

definition shift_step :: "u64 \<Rightarrow> nat \<Rightarrow> 'a arr \<Rightarrow> 'a arr res" where
  "shift_step num i a = bindE (ar_load (of_nat i + num) a) (\<lambda>x. ar_store (of_nat i) x a)"

lemma shift_step_eq: "(\<lambda>i a. bindE (ar_load (of_nat i + num) a) (\<lambda>x. ar_store (of_nat i) x a)) = shift_step num"
  by (simp add: shift_step_def fun_eq_iff)

lemma shift_step_ok:
  assumes "ar_ptr a = Some mem" "length mem < 2 ^ 63" "i + unat num < length mem"
  shows "shift_step num i a = Inr (a\<lparr>ar_ptr := Some (mem[i := mem ! (i + unat num)])\<rparr>)"
proof -
  have i: "unat (of_nat i :: u64) = i" using assms(2,3) by (intro of_nat_u64) simp
  have "unat (of_nat i + num) = i + unat num" using assms(2,3) i by (subst unat_add_nowrap) simp_all
  with i assms show ?thesis by (simp add: shift_step_def ar_load_def mem_load_def ar_store_def)
qed

lemma shift_ok:
  assumes "ar_ptr a = Some mem" "length mem < 2 ^ 63" "i \<le> c" "c + unat num \<le> length mem"
  shows "foldE (shift_step num) [i..<c] a = Inr (a\<lparr>ar_ptr := Some (take i mem @ take (c - i) (drop (i + unat num) mem) @ drop c mem)\<rparr>)"
  using assms
proof (induction "c - i" arbitrary: i a mem)
  case 0
  then show ?case by simp
next
  case (Suc n)
  then have ic: "i < c" by simp
  let ?m = "mem[i := mem ! (i + unat num)]" and ?a = "a\<lparr>ar_ptr := Some (mem[i := mem ! (i + unat num)])\<rparr>"
  have s: "shift_step num i a = Inr ?a" using Suc.prems ic by (intro shift_step_ok) simp_all
  have "foldE (shift_step num) [i..<c] a = foldE (shift_step num) [Suc i..<c] ?a" using s ic by (simp add: upt_conv_Cons)
  moreover have "foldE (shift_step num) [Suc i..<c] ?a = Inr (?a\<lparr>ar_ptr := Some (take (Suc i) ?m @ take (c - Suc i) (drop (Suc i + unat num) ?m) @ drop c ?m)\<rparr>)"
    using Suc.hyps(2) Suc.prems ic by (intro Suc.hyps(1)) simp_all
  moreover have "take (Suc i) ?m = take i mem @ [mem ! (i + unat num)]" using Suc.prems ic by (simp add: take_Suc_conv_app_nth)
  moreover have "take (c - i) (drop (i + unat num) mem) = mem ! (i + unat num) # take (c - Suc i) (drop (Suc i + unat num) mem)"
    using Suc.prems ic by (metis Suc_diff_Suc add_less_mono1 Cons_nth_drop_Suc add_Suc less_le_trans take_Suc_Cons)
  ultimately show ?case using ic by (simp add: drop_update_cancel)
qed

lemma shift_oob:
  assumes "ar_ptr a = Some mem" "length mem < 2 ^ 63" "i < c" "length mem < c + unat num" "c \<le> length mem" "unat num < 2 ^ 63"
  shows "foldE (shift_step num) [i..<c] a = Inl OutOfBounds"
  using assms
proof (induction "c - i" arbitrary: i a mem)
  case 0
  then show ?case by simp
next
  case (Suc n)
  show ?case
  proof (cases "i + unat num < length mem")
    case True
    let ?a = "a\<lparr>ar_ptr := Some (mem[i := mem ! (i + unat num)])\<rparr>"
    have "shift_step num i a = Inr ?a" using Suc.prems True by (intro shift_step_ok) simp_all
    moreover have "foldE (shift_step num) [Suc i..<c] ?a = Inl OutOfBounds"
      using Suc.hyps(2) Suc.prems True by (intro Suc.hyps(1) [of _ _ "mem[i := mem ! (i + unat num)]"]) simp_all
    ultimately show ?thesis using Suc.prems(3) by (simp add: upt_conv_Cons)
  next
    case False
    have i: "unat (of_nat i :: u64) = i" using Suc.prems by (intro of_nat_u64) simp
    have "unat (of_nat i + num) = i + unat num" using Suc.prems i by (subst unat_add_nowrap) simp_all
    with False Suc.prems show ?thesis by (simp add: upt_conv_Cons shift_step_def ar_load_def mem_load_def)
  qed
qed

lemma erase_guards:
  assumes "arr_ok e a" "unat idx < unat (ar_cnt a)" "unat idx + unat num \<le> unat (ar_cnt a)"
  shows "unat (idx + num) = unat idx + unat num" "\<not> ar_cnt a \<le> idx" "\<not> ar_cnt a < idx + num"
    "idx + num = ar_cnt a \<longleftrightarrow> unat idx + unat num = unat (ar_cnt a)" "unat (ar_cnt a - num) = unat (ar_cnt a) - unat num"
proof -
  show n: "unat (idx + num) = unat idx + unat num" using assms arr_ok_cnt [OF assms(1)] by (intro unat_add_nowrap) simp
  show "\<not> ar_cnt a \<le> idx" "\<not> ar_cnt a < idx + num" using n assms by (simp_all add: word_le_nat_alt word_less_nat_alt)
  show "idx + num = ar_cnt a \<longleftrightarrow> unat idx + unat num = unat (ar_cnt a)" by (simp only: u64_eq_unat n)
  show "unat (ar_cnt a - num) = unat (ar_cnt a) - unat num" using assms(3) by (intro unat_sub_nowrap) simp
qed

lemma erase_back_ok:
  assumes "arr_ok e a" "unat idx < unat (ar_cnt a)" "unat idx + unat num = unat (ar_cnt a)"
  shows "\<exists>a'. erase_at idx num a = Inr a' \<and> arr_ok e a' \<and> arr_list a' = take (unat idx) (arr_list a) \<and> ar_cap a' = ar_cap a"
proof -
  note g = erase_guards [OF assms(1,2) eq_refl [OF assms(3)]]
  have "erase_at idx num a = Inr (a\<lparr>ar_cnt := ar_cnt a - num\<rparr>)" using g assms(3) by (simp add: erase_at_def)
  moreover have "unat (ar_cnt a - num) = unat idx" using g(5) assms(3) by simp
  ultimately show ?thesis using assms(1,2) g(5) by (auto simp: arr_ok_def arr_list_def split: option.splits)
qed

lemma erase_middle_ok:
  assumes "arr_ok e a" "unat idx + unat num < unat (ar_cnt a)" "unat (ar_cnt a) + unat num \<le> unat (ar_cap a)"
  shows "\<exists>a'. erase_at idx num a = Inr a' \<and> arr_ok e a' \<and>
    arr_list a' = take (unat idx) (arr_list a) @ drop (unat idx + unat num) (arr_list a) \<and> ar_cap a' = ar_cap a"
proof -
  from assms(2) have lt: "unat idx < unat (ar_cnt a)" "unat idx + unat num \<le> unat (ar_cnt a)" by simp_all
  note g = erase_guards [OF assms(1) lt]
  from assms(1,2) obtain mem where mem: "ar_ptr a = Some mem" "length mem = unat (ar_cap a)" "length mem < 2 ^ 63" "unat (ar_cnt a) + room e \<le> length mem"
    by (auto simp: arr_ok_def split: option.splits)
  let ?i = "unat idx" and ?c = "unat (ar_cnt a)" and ?k = "unat num"
  let ?m = "take ?i mem @ take (?c - ?i) (drop (?i + ?k) mem) @ drop ?c mem"
  have r: "erase_at idx num a = Inr (a\<lparr>ar_ptr := Some ?m, ar_cnt := ar_cnt a - num\<rparr>)"
    using shift_ok [OF mem(1,3), of ?i ?c num] g assms(2,3) mem(2) by (simp add: erase_at_def shift_step_eq)
  have len: "length ?m = length mem" using assms(2,3) mem(2) by simp
  have "take (?c - ?k) ?m = take ?i mem @ drop (?i + ?k) (take ?c mem)"
  proof -
    have "?c - ?k - ?i = ?c - (?i + ?k)" "?i \<le> ?c - ?k" "?c - (?i + ?k) \<le> ?c - ?i" using assms(2) by simp_all
    then show ?thesis using assms(2,3) mem(2) by (simp add: min_def drop_take)
  qed
  moreover define m where "m = ?m"
  ultimately have m: "erase_at idx num a = Inr (a\<lparr>ar_ptr := Some m, ar_cnt := ar_cnt a - num\<rparr>)" "length m = length mem"
    "take (?c - ?k) m = take ?i mem @ drop (?i + ?k) (take ?c mem)" using r len by simp_all
  have "take ?i (take ?c mem) = take ?i mem" using lt(1) by (simp add: min_def)
  with m mem g(5) assms(1) show ?thesis by (auto simp: arr_ok_def arr_list_def simp del: take_take)
qed

lemma erase_middle_oob:
  assumes "arr_ok e a" "unat idx + unat num < unat (ar_cnt a)" "unat (ar_cap a) < unat (ar_cnt a) + unat num"
  shows "erase_at idx num a = Inl OutOfBounds"
proof -
  from assms(2) have lt: "unat idx < unat (ar_cnt a)" "unat idx + unat num \<le> unat (ar_cnt a)" by simp_all
  note g = erase_guards [OF assms(1) lt]
  from assms(1,2) obtain mem where mem: "ar_ptr a = Some mem" "length mem = unat (ar_cap a)" "length mem < 2 ^ 63" "unat (ar_cnt a) + room e \<le> length mem"
    by (auto simp: arr_ok_def split: option.splits)
  then show ?thesis using shift_oob [OF mem(1,3) lt(1), of num] g assms by (simp add: erase_at_def shift_step_eq)
qed

section \<open>The other members\<close>

lemma assign_ok:
  assumes "arr_ok e a" "unat i < unat (ar_cnt a)"
  shows "\<exists>a'. op_assign i x a = Inr a' \<and> arr_ok e a' \<and> arr_list a' = (arr_list a)[unat i := x]"
    "op_subscript i a = Inr (arr_list a ! unat i)"
proof -
  from assms obtain mem where mem: "ar_ptr a = Some mem" "length mem = unat (ar_cap a)" "unat (ar_cnt a) + room e \<le> length mem"
    by (auto simp: arr_ok_def split: option.splits)
  have g: "\<not> ar_cnt a \<le> i" using assms(2) by (simp add: word_le_nat_alt)
  from mem g assms show "\<exists>a'. op_assign i x a = Inr a' \<and> arr_ok e a' \<and> arr_list a' = (arr_list a)[unat i := x]"
    by (auto simp: op_assign_def ar_store_def arr_ok_def arr_list_def take_update_swap)
  from mem g assms show "op_subscript i a = Inr (arr_list a ! unat i)"
    by (simp add: op_subscript_def ar_load_def mem_load_def arr_list_def)
qed

lemma clear_ok: "arr_ok e a \<Longrightarrow> arr_ok e (arr_clear a) \<and> arr_list (arr_clear a) = []"
  by (auto simp: arr_ok_def arr_clear_def arr_list_def split: option.splits)

lemma fill_ok:
  assumes "ar_ptr a = Some mem" "length mem < 2 ^ 63" "n \<le> length mem" "c \<le> n"
  shows "foldE (\<lambda>i. ar_store (of_nat i) d) [c..<n] a = Inr (a\<lparr>ar_ptr := Some (take c mem @ replicate (n - c) d @ drop n mem)\<rparr>)"
  using assms
proof (induction "n - c" arbitrary: c a mem)
  case 0
  then show ?case by simp
next
  case (Suc k)
  then have "c < n" by simp
  moreover have "unat (of_nat c :: u64) = c" using Suc.prems \<open>c < n\<close> by (intro of_nat_u64) simp
  ultimately have s: "foldE (\<lambda>i. ar_store (of_nat i) d) [c..<n] a = foldE (\<lambda>i. ar_store (of_nat i) d) [Suc c..<n] (a\<lparr>ar_ptr := Some (mem[c := d])\<rparr>)"
    using Suc.prems by (simp add: upt_conv_Cons ar_store_def)
  have "n - c = Suc (n - Suc c)" using \<open>c < n\<close> by simp
  then show ?case unfolding s
    using Suc.hyps(2) Suc.prems \<open>c < n\<close> by (subst Suc.hyps(1) [of _ _ "mem[c := d]"]) (simp_all add: take_Suc_conv_app_nth drop_update_cancel)
qed

lemma resize_ok:
  assumes "elty_ok e" "arr_ok e a" "unat n + room e < 2 ^ 64"
  shows "becomes e (arr_set_size e n a) (take (unat n) (arr_list a) @ replicate (unat n - unat (ar_cnt a)) (el_default e))"
proof -
  consider "n < ar_cnt a" | "n = ar_cnt a" | "ar_cnt a < n" by (rule linorder_less_linear [THEN disjE]) auto
  then show ?thesis
  proof cases
    case 1
    then have "unat n < unat (ar_cnt a)" by (simp add: word_less_nat_alt)
    with 1 assms(2) show ?thesis by (auto simp: arr_set_size_def arr_resize_def arr_ok_def arr_list_def min_def intro!: becomesI split: option.splits)
  next
    case 2
    then show ?thesis using assms(2) arr_ok_length [OF assms(2)] by (auto simp: arr_set_size_def arr_resize_def)
  next
    case 3
    then have lt: "unat (ar_cnt a) < unat n" by (simp add: word_less_nat_alt)
    from assms show ?thesis
    proof (cases rule: reserve_ok)
      case 1
      then show ?thesis using 3 by (auto simp: arr_set_size_def arr_resize_def becomes_def)
    next
      case (2 did a')
      from 2(5) lt have "0 < unat (ar_cap a')" by linarith
      from arr_ok_Some [OF 2(2) this] obtain mem where mem: "ar_ptr a' = Some mem" "length mem = unat (ar_cap a')" by blast
      then have l: "length mem < 2 ^ 63" "unat n \<le> length mem" using 2(2,5) by (auto simp: arr_ok_def)
      let ?m = "take (unat (ar_cnt a)) mem @ replicate (unat n - unat (ar_cnt a)) (el_default e) @ drop (unat n) mem"
      have f: "foldE (\<lambda>i. ar_store (of_nat i) (el_default e)) [unat (ar_cnt a)..<unat n] a' = Inr (a'\<lparr>ar_ptr := Some ?m\<rparr>)"
        using lt l by (intro fill_ok [OF mem(1)]) simp_all
      have r: "arr_set_size e n a = Inr (a'\<lparr>ar_ptr := Some ?m, ar_cnt := n\<rparr>)"
        using 3 2(1,4) f by (auto simp add: arr_set_size_def arr_resize_def)
      have "take (unat n) ?m = take (unat n) (arr_list a) @ replicate (unat n - unat (ar_cnt a)) (el_default e)"
        using 2(3) [symmetric] 2(4) mem lt l by (simp add: arr_list_def min_def)
      moreover have "length ?m = length mem" using lt l by simp
      moreover define m where "m = ?m"
      ultimately have "length m = length mem" "take (unat n) m = take (unat n) (arr_list a) @ replicate (unat n - unat (ar_cnt a)) (el_default e)"
        and r: "arr_set_size e n a = Inr (a'\<lparr>ar_ptr := Some m, ar_cnt := n\<rparr>)" using r by simp_all
      then show ?thesis unfolding r using 2(2,5) mem by (intro becomesI) (auto simp: arr_ok_def arr_list_def)
    qed
  qed
qed

lemma copy_elements_ok:
  assumes "num \<le> length xs" "off + num \<le> length dest"
  shows "copy_elements dest off (Some xs) num = Inr (take off dest @ take num xs @ drop (off + num) dest)"
  using assms by (auto simp: copy_elements_def)

lemma append_arr_ok:
  assumes "elty_ok e" "arr_ok e a" "\<And>s'. s = Some s' \<Longrightarrow> arr_ok e s'"
  shows "becomes e (append_arr e s a) (arr_list a @ arr_list (case s of None \<Rightarrow> a | Some s' \<Rightarrow> s'))"
proof -
  define b where "b = (case s of None \<Rightarrow> a | Some s' \<Rightarrow> s')"
  have b: "arr_ok e b" using assms(2,3) by (simp add: b_def split: option.splits)
  have lt: "unat (ar_cnt a + ar_cnt b) = unat (ar_cnt a) + unat (ar_cnt b)" "unat (ar_cnt a + ar_cnt b) + room e < 2 ^ 64"
    using arr_ok_cnt [OF assms(2)] arr_ok_cnt [OF b] by (auto simp: unat_add_nowrap room_def)
  from assms(1,2) lt(2) show ?thesis
  proof (cases rule: reserve_ok)
    case 1
    then show ?thesis by (simp add: append_arr_def becomes_def b_def)
  next
    case (2 did a')
    define c where "c = (case s of None \<Rightarrow> a' | Some s' \<Rightarrow> s')"
    have c: "arr_ok e c" "arr_list c = arr_list b" "ar_cnt c = ar_cnt b" using 2(2,3,4) assms(3) by (auto simp: b_def c_def split: option.splits)
    have u: "append_arr e s a = bindE (case ar_ptr a' of None \<Rightarrow> if ar_cnt c = 0 then Inr None else Inl (Fault 0)
               | Some mem \<Rightarrow> bindE (copy_elements mem (unat (ar_cnt a')) (ar_ptr c) (unat (ar_cnt c))) (\<lambda>mem'. Inr (Some mem')))
           (\<lambda>p. set_last_if_char e (a'\<lparr>ar_ptr := p, ar_cnt := ar_cnt a' + ar_cnt c\<rparr>))"
      using 2(1) by (cases s) (simp_all add: append_arr_def b_def c_def cong: option.case_cong)
    obtain p where p: "append_arr e s a = set_last_if_char e (a'\<lparr>ar_ptr := p, ar_cnt := ar_cnt a' + ar_cnt c\<rparr>)"
      "arr_ok e (a'\<lparr>ar_ptr := p, ar_cnt := ar_cnt a' + ar_cnt c\<rparr>)" "arr_list (a'\<lparr>ar_ptr := p, ar_cnt := ar_cnt a' + ar_cnt c\<rparr>) = arr_list a @ arr_list b"
    proof (cases "ar_ptr a'")
      case None
      with 2(2) have z: "ar_cap a' = 0" "ar_cnt a' = 0" by (simp_all add: arr_ok_def)
      with 2(4,5) lt(1) c(3) have z2: "ar_cnt c = 0" "ar_cnt b = 0" by (simp_all add: u64_eq_unat)
      have "arr_list a = []" "arr_list b = []" using 2(3,4) None arr_ok_length [OF b] z2 by (auto simp: arr_list_def)
      then show ?thesis using z z2 None by (intro that [of None]) (simp_all add: u arr_ok_def arr_list_def)
    next
      case (Some mem)
      with 2(2,5) lt(1) have m: "length mem = unat (ar_cap a')" "unat (ar_cnt a) + unat (ar_cnt b) + room e \<le> length mem" "unat (ar_cap a') < 2 ^ 63"
        by (auto simp: arr_ok_def)
      have l: "take (unat (ar_cnt a)) mem = arr_list a" using 2(3,4) Some by (simp add: arr_list_def)
      show ?thesis
      proof (cases "ar_ptr c")
        case None
        with c b have z: "ar_cnt c = 0" "ar_cnt b = 0" "arr_list b = []" by (auto simp: arr_ok_def arr_list_def)
        show ?thesis using z m l 2(4) Some by (intro that [of "Some mem"]) (simp_all add: u None copy_elements_def arr_ok_def arr_list_def)
      next
        case (Some xs)
        with c have xs: "unat (ar_cnt b) \<le> length xs" "take (unat (ar_cnt b)) xs = arr_list b" by (auto simp: arr_ok_def arr_list_def)
        define m' where "m' = take (unat (ar_cnt a)) mem @ take (unat (ar_cnt b)) xs @ drop (unat (ar_cnt a) + unat (ar_cnt b)) mem"
        have cp: "copy_elements mem (unat (ar_cnt a')) (ar_ptr c) (unat (ar_cnt c)) = Inr m'"
          using xs(1) m(2) by (simp add: Some 2(4) c(3) copy_elements_ok m'_def)
        have m': "length m' = length mem" "take (unat (ar_cnt a) + unat (ar_cnt b)) m' = arr_list a @ arr_list b"
          using m(2) xs l arr_ok_length [OF assms(2)] arr_ok_length [OF b] by (simp_all add: m'_def)
        show ?thesis using cp m' m \<open>ar_ptr a' = Some mem\<close> 2(4) c(3) lt(1)
          by (intro that [of "Some m'"]) (simp_all add: u arr_ok_def arr_list_def)
      qed
    qed
    from set_last_ok [OF p(2)] 2(4,5) c(3) p(3) show ?thesis unfolding p(1) by (fastforce simp: becomes_def b_def)
  qed
qed

lemma arr_new_ok:
  assumes "elty_ok e" "el_nul e = None" "unat l \<le> length xs"
  shows "becomes e (arr_new e (Some xs) l) (take (unat l) xs)"
proof (cases "l = 0")
  case True
  then show ?thesis using arr_empty_ok by (auto simp: arr_new_def)
next
  case False
  have "unat l + room e < 2 ^ 64" using assms(2) unat_u64_lt [of l] by (simp add: room_def)
  with assms(1) arr_empty_ok(1) show ?thesis
  proof (cases rule: reserve_ok)
    case 1
    then show ?thesis using False by (simp add: arr_new_def becomes_def)
  next
    case (2 did a')
    from False have "0 < unat l" by (simp add: u64_eq_unat)
    with 2(5) have "0 < unat (ar_cap a')" by linarith
    from arr_ok_Some [OF 2(2) this] obtain mem where mem: "ar_ptr a' = Some mem" "length mem = unat (ar_cap a')" by blast
    define m where "m = take (unat l) xs @ drop (unat l) mem"
    have "arr_new e (Some xs) l = Inr (a'\<lparr>ar_cnt := l, ar_ptr := Some m\<rparr>)"
      using 2(1,5) mem assms(3) False by (simp add: arr_new_def copy_elements_ok m_def)
    moreover have "length m = length mem" "take (unat l) m = take (unat l) xs" using 2(5) mem assms(3) by (simp_all add: m_def)
    ultimately show ?thesis using 2(2,5) mem by (auto intro!: becomesI simp: arr_ok_def arr_list_def)
  qed
qed

lemma arr_copy_ok:
  assumes "elty_ok e" "el_nul e = None" "arr_ok e a"
  shows "becomes e (arr_copy e a) (arr_list a)"
proof (cases "ar_ptr a")
  case None
  then show ?thesis by (auto simp: arr_copy_def arr_new_def arr_empty_def arr_list_def arr_ok_def intro!: becomesI)
next
  case (Some xs)
  with assms(3) have "unat (ar_cnt a) \<le> length xs" by (auto simp: arr_ok_def)
  from arr_new_ok [OF assms(1,2) this] show ?thesis by (simp add: arr_copy_def Some arr_list_def)
qed

lemma subarray_ok:
  assumes "elty_ok e" "el_nul e = None" "arr_ok e a" "unat idx + unat len \<le> unat (ar_cnt a)"
  shows "becomes e (subarray e idx len a) (take (unat len) (drop (unat idx) (arr_list a)))"
proof -
  have l: "unat (idx + len) = unat idx + unat len" using assms(4) unat_u64_lt [of "ar_cnt a"] by (intro unat_add_nowrap) simp
  have "len \<noteq> - 1"
  proof
    assume "len = - 1"
    then have "unat len = 2 ^ 64 - 1" by (simp add: unsigned_minus_1_eq_mask mask_eq_exp_minus_1)
    then show False using assms(4) arr_ok_cnt [OF assms(3)] by simp
  qed
  then have s: "subarray e idx len a = arr_new e (case ar_ptr a of None \<Rightarrow> if idx = 0 then None else Some [] | Some mem \<Rightarrow> Some (drop (unat idx) mem)) len"
    using assms(4) l by (simp add: subarray_def Let_def word_less_nat_alt)
  show ?thesis
  proof (cases "ar_ptr a")
    case None
    with assms(3,4) have "idx = 0" "len = 0" by (auto simp: arr_ok_def u64_eq_unat)
    then show ?thesis unfolding s None by (auto simp: arr_new_def arr_empty_def arr_list_def arr_ok_def intro!: becomesI)
  next
    case (Some mem)
    with assms(3,4) have "unat len \<le> length (drop (unat idx) mem)" by (auto simp: arr_ok_def)
    moreover have "min (unat len) (unat (ar_cnt a) - unat idx) = unat len" using assms(4) by simp
    ultimately show ?thesis using arr_new_ok [OF assms(1,2), of len "drop (unat idx) mem"] by (simp add: s Some arr_list_def drop_take)
  qed
qed

section \<open>Comparing\<close>

lemma load_ok:
  assumes "arr_ok e a" "i < unat (ar_cnt a)"
  shows "ar_load (of_nat i) a = Inr (arr_list a ! i)" "mem_load (of_nat i) (ar_ptr a) = Inr (arr_list a ! i)"
proof -
  have "unat (of_nat i :: u64) = i" using assms(2) arr_ok_cnt [OF assms(1)] by (intro of_nat_u64) simp
  with assms show "mem_load (of_nat i) (ar_ptr a) = Inr (arr_list a ! i)"
    by (auto simp: mem_load_def arr_ok_def arr_list_def split: option.splits)
  then show "ar_load (of_nat i) a = Inr (arr_list a ! i)" by (simp add: ar_load_def)
qed

lemma cmpeq_from_ok:
  assumes "arr_ok e a" "arr_ok e b" "\<forall>i\<in>set is. i < unat (ar_cnt a) \<and> i < unat (ar_cnt b)"
  shows "cmpeq_from a (ar_ptr b) is = Inr (\<forall>i\<in>set is. arr_list a ! i = arr_list b ! i)"
  using assms(3) by (induction "is") (auto simp: load_ok(1) [OF assms(1)] load_ok(2) [OF assms(2)])

lemma arr_eq_ok:
  assumes "arr_ok e a" "arr_ok e b"
  shows "arr_eq a b = Inr (arr_list a = arr_list b)"
proof (cases "ar_cnt a = ar_cnt b")
  case True
  then show ?thesis using cmpeq_from_ok [OF assms, of "[0..<unat (ar_cnt a)]"] arr_ok_length [OF assms(1)] arr_ok_length [OF assms(2)]
    by (auto simp: arr_eq_def op_cmpeq_def list_eq_iff_nth_eq)
next
  case False
  then show ?thesis using arr_ok_length [OF assms(1)] arr_ok_length [OF assms(2)] by (auto simp: arr_eq_def op_cmpeq_def u64_eq_unat)
qed

text \<open>Two arrays of different lengths are in no order at all.\<close>

lemma arr_lt_unequal_lengths:
  "ar_cnt a \<noteq> ar_cnt b \<Longrightarrow> arr_lt a b = Inr False \<and> arr_lt b a = Inr False \<and> arr_eq a b = Inr False"
  by (auto simp: arr_lt_def op_cmplt_def arr_eq_def op_cmpeq_def)

lemma cmplt_from_ok:
  assumes "arr_ok e a" "arr_ok e b" "n \<le> unat (ar_cnt a)" "n \<le> unat (ar_cnt b)" "i \<le> n"
  shows "cmplt_from a (ar_ptr b) False [i..<n] =
    Inr (\<exists>j. i \<le> j \<and> j < n \<and> arr_list a ! j < arr_list b ! j \<and> (\<forall>k. i \<le> k \<and> k < j \<longrightarrow> arr_list a ! k = arr_list b ! k))"
  using assms(3-5)
proof (induction "n - i" arbitrary: i)
  case (Suc m)
  then have i: "i < n" by simp
  let ?P = "\<lambda>i. \<exists>j. i \<le> j \<and> j < n \<and> arr_list a ! j < arr_list b ! j \<and> (\<forall>k. i \<le> k \<and> k < j \<longrightarrow> arr_list a ! k = arr_list b ! k)"
  have IH: "cmplt_from a (ar_ptr b) False [Suc i..<n] = Inr (?P (Suc i))" using Suc i by simp
  have "?P i \<longleftrightarrow> arr_list a ! i < arr_list b ! i \<or> arr_list a ! i = arr_list b ! i \<and> ?P (Suc i)"
  proof
    assume "?P i"
    then obtain j where j: "i \<le> j" "j < n" "arr_list a ! j < arr_list b ! j" "\<forall>k. i \<le> k \<and> k < j \<longrightarrow> arr_list a ! k = arr_list b ! k" by blast
    show "arr_list a ! i < arr_list b ! i \<or> arr_list a ! i = arr_list b ! i \<and> ?P (Suc i)"
    proof (cases "i = j")
      case False
      with j(1) have "Suc i \<le> j" "i < j" by simp_all
      with j have "arr_list a ! i = arr_list b ! i" "?P (Suc i)" by (auto intro!: exI [of _ j])
      then show ?thesis by simp
    qed (use j in simp)
  next
    assume "arr_list a ! i < arr_list b ! i \<or> arr_list a ! i = arr_list b ! i \<and> ?P (Suc i)"
    then show "?P i"
    proof
      assume "arr_list a ! i < arr_list b ! i"
      with i show ?thesis by (intro exI [of _ i]) auto
    next
      assume r: "arr_list a ! i = arr_list b ! i \<and> ?P (Suc i)"
      then obtain j where j: "Suc i \<le> j" "j < n" "arr_list a ! j < arr_list b ! j" "\<forall>k. Suc i \<le> k \<and> k < j \<longrightarrow> arr_list a ! k = arr_list b ! k" by blast
      have "arr_list a ! k = arr_list b ! k" if "i \<le> k" "k < j" for k using r j(4) that by (cases "k = i") simp_all
      with j show ?thesis by (intro exI [of _ j]) simp
    qed
  qed
  with IH i Suc.prems show ?case
    by (auto simp: upt_conv_Cons load_ok(1) [OF assms(1)] load_ok(2) [OF assms(2)])
qed simp

section \<open>The stack\<close>

lemma stack_pop_ok:
  assumes "arr_ok e a" "arr_list a \<noteq> []"
  shows "\<exists>a'. stack_pop a = Inr (last (arr_list a), a') \<and> arr_ok e a' \<and> arr_list a' = butlast (arr_list a)"
proof -
  have c: "0 < unat (ar_cnt a)" "length (arr_list a) = unat (ar_cnt a)" using assms(2) arr_ok_length [OF assms(1)] by (simp_all flip: length_greater_0_conv)
  then have n: "unat (ar_cnt a - 1) = unat (ar_cnt a) - 1" by (subst unat_sub_nowrap) simp_all
  then have p: "(of_nat (unat (ar_cnt a) - 1) :: u64) = ar_cnt a - 1" by (simp only: n [symmetric] of_nat_unat) simp
  have "stack_top a = Inr (last (arr_list a))"
    using load_ok(1) [OF assms(1), of "unat (ar_cnt a) - 1"] c assms(2) by (auto simp: stack_top_def back_elem_def p last_conv_nth)
  moreover have "\<exists>a'. erase_at (ar_cnt a - 1) 1 a = Inr a' \<and> arr_ok e a' \<and> arr_list a' = butlast (arr_list a)"
    using erase_back_ok [OF assms(1), of "ar_cnt a - 1" 1] n c by (auto simp: butlast_conv_take)
  ultimately show ?thesis by (auto simp: stack_pop_def)
qed

text \<open>The stacks of elements of one type, with its allocator.\<close>

interpretation stk: krt_stack "\<lambda>a. elty_ok e \<and> arr_ok e a" arr_list alloc_null "\<lambda>x. stack_push e (Ext x)" stack_pop for e
proof
  fix s :: "'a arr" and x
  show "stack_push e (Ext x) s = Inl alloc_null \<or> (\<exists>s'. stack_push e (Ext x) s = Inr s' \<and> (elty_ok e \<and> arr_ok e s') \<and> arr_list s' = arr_list s @ [x])"
    if "elty_ok e \<and> arr_ok e s" using append_element_ok [of e s x] that by (auto simp: stack_push_def becomes_def)
  show "\<exists>s'. stack_pop s = Inr (last (arr_list s), s') \<and> (elty_ok e \<and> arr_ok e s') \<and> arr_list s' = butlast (arr_list s)"
    if "elty_ok e \<and> arr_ok e s" "arr_list s \<noteq> []" using stack_pop_ok [of e s] that by auto
qed

lemma stack_is_lifo:
  assumes "elty_ok e" "lifo ops [] [] = Some (xs, out)"
  shows "foldE (queue_step (\<lambda>x. stack_push e (Ext x)) stack_pop) ops (arr_empty, []) = Inl alloc_null \<or>
    (\<exists>a. foldE (queue_step (\<lambda>x. stack_push e (Ext x)) stack_pop) ops (arr_empty, []) = Inr (a, out) \<and> arr_list a = xs)"
  using stk.run_lifo [of e arr_empty ops "[]" xs out] assms by (auto simp: arr_empty_ok)

section \<open>Arrays are lists\<close>

datatype 'a arrop = AAppend 'a | AAppendSelf | ASet u64 'a | AResize u64 | ADropLast | AClear

fun arr_step :: "'a elty \<Rightarrow> 'a arrop \<Rightarrow> 'a arr \<Rightarrow> 'a arr res" where
  "arr_step e (AAppend x) a = append_element e (Ext x) a"
| "arr_step e AAppendSelf a = append_arr e None a"
| "arr_step e (ASet i x) a = op_assign i x a"
| "arr_step e (AResize n) a = arr_set_size e n a"
| "arr_step e ADropLast a = erase_at (ar_cnt a - 1) 1 a"
| "arr_step e AClear a = Inr (arr_clear a)"

text \<open>The same operations on a list.\<close>

fun list_step :: "'a \<Rightarrow> 'a arrop \<Rightarrow> 'a list \<Rightarrow> 'a list res" where
  "list_step d (AAppend x) xs = Inr (xs @ [x])"
| "list_step d AAppendSelf xs = Inr (xs @ xs)"
| "list_step d (ASet i x) xs =
     (if unat i < length xs then Inr (xs[unat i := x]) else Inl (Abort ''operator[]: index %zu out of range (size: %zu)''))"
| "list_step d (AResize n) xs = Inr (take (unat n) xs @ replicate (unat n - length xs) d)"
| "list_step d ADropLast xs = (if xs = [] then Inl (Abort ''erase_at(): index %zu out of range (size: %zu)'') else Inr (butlast xs))"
| "list_step d AClear xs = Inr []"

lemma arr_step_refines:
  assumes "elty_ok e" "el_nul e = None" "arr_ok e a"
  shows "(\<exists>err. list_step (el_default e) op (arr_list a) = Inl err \<and> arr_step e op a = Inl err) \<or>
    (\<exists>xs. list_step (el_default e) op (arr_list a) = Inr xs \<and> becomes e (arr_step e op a) xs)"
proof (cases op)
  case (AAppend x)
  with append_element_ok [OF assms(1,3)] show ?thesis by simp
next
  case AAppendSelf
  with append_arr_ok [OF assms(1,3), of None] show ?thesis by simp
next
  case (ASet i x)
  show ?thesis
  proof (cases "unat i < length (arr_list a)")
    case True
    with assign_ok(1) [OF assms(3), of i x] show ?thesis by (auto simp: ASet arr_ok_length [OF assms(3)] becomes_def)
  next
    case False
    then show ?thesis by (simp add: ASet arr_ok_length [OF assms(3)] op_assign_def word_le_nat_alt)
  qed
next
  case (AResize n)
  have "unat n + room e < 2 ^ 64" using assms(2) unat_u64_lt [of n] by (simp add: room_def)
  from resize_ok [OF assms(1,3) this] show ?thesis by (simp add: AResize arr_ok_length [OF assms(3)])
next
  case ADropLast
  show ?thesis
  proof (cases "arr_list a = []")
    case True
    with arr_ok_length [OF assms(3)] have "ar_cnt a = 0" by (simp add: u64_eq_unat)
    then show ?thesis by (simp add: ADropLast True erase_at_def)
  next
    case False
    with stack_pop_ok [OF assms(3)] show ?thesis by (auto simp: ADropLast stack_pop_def becomes_def)
  qed
next
  case AClear
  with clear_ok [OF assms(3)] show ?thesis by (auto simp: becomes_def)
qed

lemma arr_run_refines:
  assumes "elty_ok e" "el_nul e = None" "arr_ok e a"
  shows "foldE (arr_step e) ops a = Inl alloc_null \<or>
    (case foldE (list_step (el_default e)) ops (arr_list a) of
       Inl err \<Rightarrow> foldE (arr_step e) ops a = Inl err
     | Inr xs \<Rightarrow> \<exists>a'. foldE (arr_step e) ops a = Inr a' \<and> arr_ok e a' \<and> arr_list a' = xs)"
  using assms(3)
proof (induction ops arbitrary: a)
  case (Cons op ops)
  from arr_step_refines [OF assms(1,2) Cons.prems, of op] show ?case
  proof
    assume "\<exists>err. list_step (el_default e) op (arr_list a) = Inl err \<and> arr_step e op a = Inl err"
    then show ?thesis by auto
  next
    assume "\<exists>xs. list_step (el_default e) op (arr_list a) = Inr xs \<and> becomes e (arr_step e op a) xs"
    then obtain xs where xs: "list_step (el_default e) op (arr_list a) = Inr xs" "becomes e (arr_step e op a) xs" by blast
    from xs(2) show ?thesis unfolding becomes_def
    proof
      assume "\<exists>a'. arr_step e op a = Inr a' \<and> arr_ok e a' \<and> arr_list a' = xs"
      then obtain a' where "arr_step e op a = Inr a'" "arr_ok e a'" "arr_list a' = xs" by blast
      then have "foldE (arr_step e) (op # ops) a = foldE (arr_step e) ops a'"
        "foldE (list_step (el_default e)) (op # ops) (arr_list a) = foldE (list_step (el_default e)) ops (arr_list a')" using xs(1) by simp_all
      then show ?thesis using Cons.IH [OF \<open>arr_ok e a'\<close>] by (simp only:)
    qed simp
  qed
qed simp

text \<open>
  C30: An array does what a list does: any sequence of appending an element, appending the array to itself,
  assigning through \<^verbatim>\<open>operator[]\<close>, resizing, dropping the last element and clearing leaves the elements of the list
  the same sequence computes, and stops with the same message; the only other outcome is the abort on an
  allocation that failed.
\<close>

theorem array_refines_list:
  assumes "elty_ok e" and "el_nul e = None"
  shows "foldE (arr_step e) ops arr_empty = Inl alloc_null \<or>
    (case foldE (list_step (el_default e)) ops [] of
       Inl err \<Rightarrow> foldE (arr_step e) ops arr_empty = Inl err
     | Inr xs \<Rightarrow> \<exists>a. foldE (arr_step e) ops arr_empty = Inr a \<and> arr_ok e a \<and> arr_list a = xs)"
  using arr_run_refines [OF assms arr_empty_ok(1), of ops] by (simp add: arr_empty_ok(2))

text \<open>
  C31: Erasing from the middle of an array removes exactly the elements asked for when there is room for as many
  elements behind the array; otherwise the loop that moves the rest down reads past the end of the memory.
\<close>

theorem array_erase_middle:
  assumes "arr_ok e a" and "unat idx + unat num < length (arr_list a)"
  shows "if unat (ar_cnt a) + unat num \<le> unat (ar_cap a)
    then \<exists>a'. erase_at idx num a = Inr a' \<and> arr_list a' = take (unat idx) (arr_list a) @ drop (unat idx + unat num) (arr_list a)
    else erase_at idx num a = Inl OutOfBounds"
proof (cases "unat (ar_cnt a) + unat num \<le> unat (ar_cap a)")
  case True
  with erase_middle_ok [OF assms(1) _ True] assms show ?thesis by (fastforce simp: arr_ok_length)
next
  case False
  with erase_middle_oob [OF assms(1)] assms show ?thesis by (simp add: arr_ok_length)
qed

section \<open>Examples\<close>

definition nat_elty :: "nat elty" where
  "nat_elty = \<lparr>el_avail = (\<lambda>n. n \<le> 64), el_junk = 0, el_default = 0, el_nul = None\<rparr>"

lemma nat_elty_ok: "elty_ok nat_elty" "el_nul nat_elty = None"
  by (auto simp: elty_ok_def nat_elty_def word_le_nat_alt)

theorem array_refines_list_witness:
  "\<exists>a. foldE (arr_step nat_elty) [AAppend 1, AAppend 2, AAppendSelf, ADropLast, ASet 0 7] arr_empty = Inr a \<and> arr_list a = [7, 2, 1]"
proof -
  have "foldE (arr_step nat_elty) [AAppend 1, AAppend 2, AAppendSelf, ADropLast, ASet 0 7] arr_empty \<noteq> Inl alloc_null" by code_simp
  with array_refines_list [OF nat_elty_ok, of "[AAppend 1, AAppend 2, AAppendSelf, ADropLast, ASet 0 7]"]
  show ?thesis by (auto simp: nat_elty_def)
qed

definition full_array :: "nat arr" where
  "full_array = \<lparr>ar_ptr = Some [1, 2, 3], ar_cnt = 3, ar_cap = 3\<rparr>"

theorem array_erase_middle_witness: "erase_at 0 1 full_array = Inl OutOfBounds"
  using array_erase_middle [of nat_elty full_array 0 1] by (simp add: arr_ok_def arr_list_def full_array_def room_def nat_elty_def)

text \<open>The element count of an erasure can wrap around, and the array then grows.\<close>

lemma erase_wraps: "bindE (erase_at 1 (- 1) \<lparr>ar_ptr = Some [1, 2, 3, 4], ar_cnt = 3, ar_cap = 4\<rparr>) (\<lambda>a. Inr (arr_list a)) = Inr [1::nat, 1, 1, 4]"
  by code_simp

end
