(* ===== verification/Klist.thy ===== *)
theory Klist
  imports Kqueue
begin

text \<open>
  The doubly linked list of the runtime library: \<^verbatim>\<open>krt/types/impl/listlike.h\<close>, its container
  \<^verbatim>\<open>krt/types/list.h\<close> and the searching and removing helpers of \<^verbatim>\<open>krt/types/impl/iterutils.h\<close>. Nodes are objects
  in a heap, pointers are optional addresses; following a null pointer is \<open>Fault 0\<close>, following a pointer to a node
  that was freed is \<open>OutOfBounds\<close>. The allocator hands out addresses that were not used before. Loops along the
  nodes are bounded by the number of addresses handed out, and the theorems show that the bound is never reached.
\<close>

section \<open>Nodes and the container\<close>

type_synonym lptr = "nat option"

record 'a lnode =
  ln_value :: 'a
  ln_prev :: lptr
  ln_next :: lptr

record 'a klist =
  kl_heap :: "nat \<Rightarrow> 'a lnode option"
  kl_fresh :: nat
  kl_head :: lptr
  kl_tail :: lptr
  kl_cnt :: u64

definition kl_new :: "'a klist" where
  "kl_new = \<lparr>kl_heap = (\<lambda>_. None), kl_fresh = 1, kl_head = None, kl_tail = None, kl_cnt = 0\<rparr>"

definition kl_deref :: "lptr \<Rightarrow> 'a klist \<Rightarrow> 'a lnode res" where
  "kl_deref p l = (case p of None \<Rightarrow> Inl (Fault 0)
     | Some a \<Rightarrow> (case kl_heap l a of None \<Rightarrow> Inl OutOfBounds | Some n \<Rightarrow> Inr n))"

definition kl_modify :: "lptr \<Rightarrow> ('a lnode \<Rightarrow> 'a lnode) \<Rightarrow> 'a klist \<Rightarrow> 'a klist res" where
  "kl_modify p f l = bindE (kl_deref p l) (\<lambda>n. Inr (l\<lparr>kl_heap := (kl_heap l)(the p \<mapsto> f n)\<rparr>))"

definition kl_create :: "'a \<Rightarrow> 'a klist \<Rightarrow> lptr \<times> 'a klist" where
  "kl_create v l =
     (Some (kl_fresh l), l\<lparr>kl_heap := (kl_heap l)(kl_fresh l \<mapsto> \<lparr>ln_value = v, ln_prev = None, ln_next = None\<rparr>), kl_fresh := Suc (kl_fresh l)\<rparr>)"

definition kl_free :: "lptr \<Rightarrow> 'a klist \<Rightarrow> 'a klist res" where
  "kl_free p l = bindE (kl_deref p l) (\<lambda>_. Inr (l\<lparr>kl_heap := (kl_heap l)(the p := None)\<rparr>))"

section \<open>Iterators\<close>

definition it_next :: "'a klist \<Rightarrow> lptr \<Rightarrow> lptr res" where
  "it_next l it = (if it = None then Inl (Abort ''out of range!'') else bindE (kl_deref it l) (\<lambda>n. Inr (ln_next n)))"

definition it_prev :: "'a klist \<Rightarrow> lptr \<Rightarrow> lptr res" where
  "it_prev l it = (if it = None then Inl (Abort ''out of range!'') else bindE (kl_deref it l) (\<lambda>n. Inr (ln_prev n)))"

definition it_value :: "'a klist \<Rightarrow> lptr \<Rightarrow> 'a res" where
  "it_value l it = bindE (kl_deref it l) (\<lambda>n. Inr (ln_value n))"

definition list_begin :: "'a klist \<Rightarrow> lptr" where
  "list_begin l = kl_head l"

definition list_end :: lptr where
  "list_end = None"

section \<open>The shared implementation\<close>

definition list_front :: "'a klist \<Rightarrow> 'a res" where
  "list_front l = (if kl_cnt l = 0 then Inl (Abort ''front(): empty list'') else it_value l (kl_head l))"

definition list_back :: "'a klist \<Rightarrow> 'a res" where
  "list_back l = (if kl_cnt l = 0 then Inl (Abort ''back(): empty list'') else it_value l (kl_tail l))"

text \<open>The copying loop of \<^verbatim>\<open>clone\<close>: \<open>src\<close> runs along the other list, \<open>dst\<close> is the last node made, \<open>front\<close> the head to be.\<close>

fun clone_from :: "nat \<Rightarrow> 'a klist \<Rightarrow> lptr \<Rightarrow> lptr \<Rightarrow> lptr \<Rightarrow> 'a klist \<Rightarrow> (lptr \<times> lptr \<times> 'a klist) res" where
  "clone_from 0 other src dst front l = Inl loop_error"
| "clone_from (Suc fuel) other src dst front l =
     (if src = None then Inr (front, dst, l)
      else bindE (kl_deref src other) (\<lambda>sn.
           let (nd, l1) = kl_create (ln_value sn) l
           in bindE (if dst \<noteq> None
                     then bindE (kl_modify dst (ln_next_update (\<lambda>_. nd)) l1) (\<lambda>l2.
                          bindE (kl_modify nd (ln_prev_update (\<lambda>_. dst)) l2) (\<lambda>l3. Inr (front, l3)))
                     else Inr (dst, l1)) (\<lambda>(front', l4).
              clone_from fuel other (ln_next sn) nd front' l4)))"

definition list_clone :: "'a klist \<Rightarrow> 'a klist \<Rightarrow> 'a klist res" where
  "list_clone other l =
     bindE (clone_from (Suc (kl_fresh other)) other (kl_head other) None None l) (\<lambda>(front, dst, l').
     Inr (l'\<lparr>kl_head := front, kl_tail := dst, kl_cnt := kl_cnt other\<rparr>))"

definition popFront :: "'a klist \<Rightarrow> ('a \<times> 'a klist) res" where
  "popFront l =
     (if kl_cnt l = 0 then Inl (Abort ''popFront(): empty list'')
      else bindE (kl_deref (kl_head l) l) (\<lambda>n.
           let ret = ln_value n; old = kl_head l; l1 = l\<lparr>kl_head := ln_next n\<rparr>
           in bindE (if kl_head l1 \<noteq> None
                     then bindE (kl_modify (kl_head l1) (ln_prev_update (\<lambda>_. None)) l1) (\<lambda>l2.
                          bindE (kl_deref (kl_head l2) l2) (\<lambda>h.
                          Inr (if ln_next h = None then l2\<lparr>kl_tail := kl_head l2\<rparr> else l2)))
                     else Inr (l1\<lparr>kl_tail := None\<rparr>)) (\<lambda>l3.
              bindE (kl_free old l3) (\<lambda>l4.
              Inr (ret, l4\<lparr>kl_cnt := kl_cnt l4 - 1\<rparr>)))))"

definition popBack :: "'a klist \<Rightarrow> ('a \<times> 'a klist) res" where
  "popBack l =
     (if kl_cnt l = 0 then Inl (Abort ''popBack(): empty list'')
      else bindE (kl_deref (kl_tail l) l) (\<lambda>n.
           let ret = ln_value n; old = kl_tail l; l1 = l\<lparr>kl_tail := ln_prev n\<rparr>
           in bindE (if kl_tail l1 \<noteq> None
                     then bindE (kl_modify (kl_tail l1) (ln_next_update (\<lambda>_. None)) l1) (\<lambda>l2.
                          bindE (kl_deref (kl_tail l2) l2) (\<lambda>t.
                          Inr (if ln_prev t = None then l2\<lparr>kl_head := kl_tail l2\<rparr> else l2)))
                     else Inr (l1\<lparr>kl_head := None\<rparr>)) (\<lambda>l3.
              bindE (kl_free old l3) (\<lambda>l4.
              Inr (ret, l4\<lparr>kl_cnt := kl_cnt l4 - 1\<rparr>)))))"

fun clear_from :: "nat \<Rightarrow> lptr \<Rightarrow> 'a klist \<Rightarrow> 'a klist res" where
  "clear_from 0 n l = Inl loop_error"
| "clear_from (Suc fuel) n l =
     (if n = None then Inr l
      else bindE (kl_deref n l) (\<lambda>nn. bindE (kl_free n l) (clear_from fuel (ln_next nn))))"

definition list_clear :: "'a klist \<Rightarrow> 'a klist res" where
  "list_clear l = bindE (clear_from (Suc (kl_fresh l)) (kl_head l) l) (\<lambda>l'. Inr (l'\<lparr>kl_cnt := 0\<rparr>))"

definition list_deleteNode :: "lptr \<Rightarrow> 'a klist \<Rightarrow> (lptr \<times> 'a klist) res" where
  "list_deleteNode node l =
     (if node = None then Inr (None, l)
      else bindE (kl_deref node l) (\<lambda>n.
           bindE (if ln_prev n \<noteq> None then kl_modify (ln_prev n) (ln_next_update (\<lambda>_. ln_next n)) l else Inr l) (\<lambda>l1.
           bindE (if ln_next n \<noteq> None then kl_modify (ln_next n) (ln_prev_update (\<lambda>_. ln_prev n)) l1 else Inr l1) (\<lambda>l2.
           let l3 = (if kl_head l2 = node then l2\<lparr>kl_head := ln_next n\<rparr> else l2);
               l4 = (if kl_tail l3 = node then l3\<lparr>kl_tail := ln_prev n\<rparr> else l3)
           in bindE (kl_free node l4) (\<lambda>l5. Inr (ln_next n, l5\<lparr>kl_cnt := kl_cnt l5 - 1\<rparr>))))))"

definition insertBefore_node :: "lptr \<Rightarrow> lptr \<Rightarrow> 'a klist \<Rightarrow> 'a klist res" where
  "insertBefore_node at node l =
     bindE (if at = None
            then bindE (if kl_head l \<noteq> None
                        then bindE (if kl_tail l \<noteq> None
                                    then bindE (kl_modify node (ln_prev_update (\<lambda>_. kl_tail l)) l) (kl_modify (kl_tail l) (ln_next_update (\<lambda>_. node)))
                                    else bindE (kl_modify node (ln_prev_update (\<lambda>_. kl_head l)) l) (kl_modify (kl_head l) (ln_next_update (\<lambda>_. node)))) (\<lambda>l1.
                             kl_modify node (ln_next_update (\<lambda>_. None)) l1)
                        else kl_modify node (\<lambda>n. n\<lparr>ln_next := None, ln_prev := None\<rparr>) (l\<lparr>kl_head := node\<rparr>)) (\<lambda>l2.
                 Inr (l2\<lparr>kl_tail := node\<rparr>))
            else bindE (kl_deref at l) (\<lambda>a.
                 bindE (kl_modify node (\<lambda>n. n\<lparr>ln_prev := ln_prev a, ln_next := at\<rparr>) l) (\<lambda>l1.
                 bindE (kl_modify at (ln_prev_update (\<lambda>_. node)) l1) (\<lambda>l2.
                 if ln_prev a \<noteq> None then kl_modify (ln_prev a) (ln_next_update (\<lambda>_. node)) l2
                 else Inr (l2\<lparr>kl_head := node\<rparr>))))) (\<lambda>l3.
     Inr (l3\<lparr>kl_cnt := kl_cnt l3 + 1\<rparr>))"

definition insertBefore :: "lptr \<Rightarrow> 'a \<Rightarrow> 'a klist \<Rightarrow> 'a klist res" where
  "insertBefore at v l = (let (node, l1) = kl_create v l in insertBefore_node at node l1)"

definition insertAfter_node :: "lptr \<Rightarrow> lptr \<Rightarrow> 'a klist \<Rightarrow> 'a klist res" where
  "insertAfter_node at node l =
     (if at = None then Inl (Abort ''insertAfter(): cannot insert after end!'')
      else bindE (kl_deref at l) (\<lambda>a.
           bindE (kl_modify node (\<lambda>n. n\<lparr>ln_next := ln_next a, ln_prev := at\<rparr>) l) (\<lambda>l1.
           bindE (kl_modify at (ln_next_update (\<lambda>_. node)) l1) (\<lambda>l2.
           bindE (if ln_next a \<noteq> None then kl_modify (ln_next a) (ln_prev_update (\<lambda>_. node)) l2 else Inr l2) (\<lambda>l3.
           let l4 = (if at = kl_tail l3 then l3\<lparr>kl_tail := node\<rparr> else l3)
           in Inr (l4\<lparr>kl_cnt := kl_cnt l4 + 1\<rparr>))))))"

definition insertAfter :: "lptr \<Rightarrow> 'a \<Rightarrow> 'a klist \<Rightarrow> 'a klist res" where
  "insertAfter at v l = (let (node, l1) = kl_create v l in insertAfter_node at node l1)"

section \<open>\<^verbatim>\<open>krt::list\<close>\<close>

definition list_copy :: "'a klist \<Rightarrow> 'a klist res" where
  "list_copy other = list_clone other kl_new"

text \<open>The move constructor: the new list, which takes over the nodes, and what is left of the old one.\<close>

definition list_move :: "'a klist \<Rightarrow> 'a klist \<times> 'a klist" where
  "list_move other = (other\<lparr>kl_tail := None\<rparr>, other\<lparr>kl_heap := (\<lambda>_. None), kl_head := None, kl_cnt := 0\<rparr>)"

definition list_erase :: "lptr \<Rightarrow> 'a klist \<Rightarrow> (lptr \<times> 'a klist) res" where
  "list_erase it l = list_deleteNode it l"

definition list_append :: "'a \<Rightarrow> 'a klist \<Rightarrow> 'a klist res" where
  "list_append v l = insertBefore list_end v l"

definition list_prepend :: "'a \<Rightarrow> 'a klist \<Rightarrow> 'a klist res" where
  "list_prepend v l = insertBefore (list_begin l) v l"

definition list_empty :: "'a klist \<Rightarrow> bool" where
  "list_empty l \<longleftrightarrow> kl_cnt l = 0"

definition list_size :: "'a klist \<Rightarrow> u64" where
  "list_size l = kl_cnt l"

section \<open>Searching and removing\<close>

fun find_if_from :: "nat \<Rightarrow> ('a \<Rightarrow> bool) \<Rightarrow> lptr \<Rightarrow> 'a klist \<Rightarrow> lptr res" where
  "find_if_from 0 p it l = Inl loop_error"
| "find_if_from (Suc fuel) p it l =
     (if it = list_end then Inr list_end
      else bindE (it_value l it) (\<lambda>v. if p v then Inr it else bindE (it_next l it) (\<lambda>it'. find_if_from fuel p it' l)))"

definition list_find_if :: "('a \<Rightarrow> bool) \<Rightarrow> 'a klist \<Rightarrow> lptr res" where
  "list_find_if p l = find_if_from (Suc (kl_fresh l)) p (list_begin l) l"

definition list_find :: "'a \<Rightarrow> 'a klist \<Rightarrow> lptr res" where
  "list_find x l = find_if_from (Suc (kl_fresh l)) (\<lambda>y. y = x) (list_begin l) l"

definition remove_first_if :: "('a \<Rightarrow> bool) \<Rightarrow> 'a klist \<Rightarrow> 'a klist res" where
  "remove_first_if p l =
     bindE (find_if_from (Suc (kl_fresh l)) p (list_begin l) l) (\<lambda>it.
     if it = list_end then Inr l else bindE (list_erase it l) (\<lambda>(_, l'). Inr l'))"

definition remove_first :: "'a \<Rightarrow> 'a klist \<Rightarrow> 'a klist res" where
  "remove_first x l = remove_first_if (\<lambda>y. y = x) l"

fun remove_all_from :: "nat \<Rightarrow> ('a \<Rightarrow> bool) \<Rightarrow> lptr \<Rightarrow> 'a klist \<Rightarrow> 'a klist res" where
  "remove_all_from 0 p it l = Inl loop_error"
| "remove_all_from (Suc fuel) p it l =
     (if it = list_end then Inr l
      else bindE (it_value l it) (\<lambda>v.
           if p v then bindE (list_erase it l) (\<lambda>(it', l'). remove_all_from fuel p it' l')
           else bindE (it_next l it) (\<lambda>it'. remove_all_from fuel p it' l)))"

definition remove_all_if :: "('a \<Rightarrow> bool) \<Rightarrow> 'a klist \<Rightarrow> 'a klist res" where
  "remove_all_if p l = remove_all_from (Suc (kl_fresh l)) p (list_begin l) l"

definition remove_all :: "'a \<Rightarrow> 'a klist \<Rightarrow> 'a klist res" where
  "remove_all x l = remove_all_if (\<lambda>y. y = x) l"

text \<open>What iterating from \<^verbatim>\<open>begin()\<close> to \<^verbatim>\<open>end()\<close> sees.\<close>

fun list_visit :: "nat \<Rightarrow> lptr \<Rightarrow> 'a klist \<Rightarrow> 'a list res" where
  "list_visit 0 it l = Inl loop_error"
| "list_visit (Suc fuel) it l =
     (if it = list_end then Inr []
      else bindE (it_value l it) (\<lambda>v. bindE (it_next l it) (\<lambda>it'. bindE (list_visit fuel it' l) (\<lambda>vs. Inr (v # vs)))))"

definition list_entries :: "'a klist \<Rightarrow> 'a list res" where
  "list_entries l = list_visit (Suc (kl_fresh l)) (list_begin l) l"

section \<open>Chains of nodes\<close>

text \<open>The nodes \<open>ps\<close> hold the values \<open>xs\<close> and are linked in this order, between \<open>pr\<close> and \<open>nx\<close>.\<close>

fun dll :: "(nat \<Rightarrow> 'a lnode option) \<Rightarrow> lptr \<Rightarrow> nat list \<Rightarrow> 'a list \<Rightarrow> lptr \<Rightarrow> bool" where
  "dll h pr [] [] nx \<longleftrightarrow> True"
| "dll h pr (p # ps) (x # xs) nx \<longleftrightarrow>
     h p = Some \<lparr>ln_value = x, ln_prev = pr, ln_next = (if ps = [] then nx else Some (hd ps))\<rparr> \<and> dll h (Some p) ps xs nx"
| "dll h pr _ _ nx \<longleftrightarrow> False"

definition kl_inv :: "'a klist \<Rightarrow> nat list \<Rightarrow> 'a list \<Rightarrow> bool" where
  "kl_inv l ps xs \<longleftrightarrow> dll (kl_heap l) None ps xs None \<and> distinct ps \<and> (\<forall>p\<in>set ps. p < kl_fresh l) \<and>
     kl_head l = (if ps = [] then None else Some (hd ps)) \<and> kl_tail l = (if ps = [] then None else Some (last ps)) \<and>
     kl_cnt l = of_nat (length xs) \<and> length xs < 2 ^ 64"

lemma dll_length: "dll h pr ps xs nx \<Longrightarrow> length ps = length xs"
  by (induction h pr ps xs nx rule: dll.induct) auto

lemma dll_cong: "(\<And>p. p \<in> set ps \<Longrightarrow> h' p = h p) \<Longrightarrow> dll h' pr ps xs nx \<longleftrightarrow> dll h pr ps xs nx"
  by (induction h pr ps xs nx rule: dll.induct) auto

lemma dll_frame [simp]: "p \<notin> set ps \<Longrightarrow> dll (h(p := v)) pr ps xs nx \<longleftrightarrow> dll h pr ps xs nx"
  by (rule dll_cong) auto

lemma dll_Nil [simp]: "dll h pr [] xs nx \<longleftrightarrow> xs = []"
  by (cases xs) auto

lemma dll_Cons: "dll h pr (p # ps) xs nx \<longleftrightarrow>
    (\<exists>y ys. xs = y # ys \<and> h p = Some \<lparr>ln_value = y, ln_prev = pr, ln_next = (if ps = [] then nx else Some (hd ps))\<rparr> \<and> dll h (Some p) ps ys nx)"
  by (cases xs) auto

lemma dll_append:
  "length ps = length xs \<Longrightarrow> dll h pr (ps @ qs) (xs @ ys) nx \<longleftrightarrow>
     dll h pr ps xs (if qs = [] then nx else Some (hd qs)) \<and> dll h (if ps = [] then pr else Some (last ps)) qs ys nx"
  by (induction ps xs arbitrary: pr rule: list_induct2) auto

text \<open>Redirecting the end or the start of a chain.\<close>

lemma dll_set_next:
  assumes "dll h pr (ps @ [q]) xs nx" "distinct (ps @ [q])" "h q = Some n"
  shows "dll (h(q \<mapsto> n\<lparr>ln_next := nx'\<rparr>)) pr (ps @ [q]) xs nx'"
  using assms
proof (induction ps arbitrary: pr xs)
  case (Cons p ps)
  from Cons.prems(1) obtain y ys where y: "xs = y # ys" "h p = Some \<lparr>ln_value = y, ln_prev = pr, ln_next = Some (hd (ps @ [q]))\<rparr>" "dll h (Some p) (ps @ [q]) ys nx"
    by (auto simp: dll_Cons)
  with Cons.IH [of "Some p" ys] Cons.prems(2,3) show ?case by simp
qed (auto simp: dll_Cons)

lemma dll_set_prev:
  assumes "dll h pr (q # ps) xs nx" "q \<notin> set ps" "h q = Some n"
  shows "dll (h(q \<mapsto> n\<lparr>ln_prev := pr'\<rparr>)) pr' (q # ps) xs nx"
  using assms by (auto simp: dll_Cons)

text \<open>A chain taken apart at one of its nodes.\<close>

lemma kl_inv_split:
  assumes "kl_inv l ps xs" "n < length xs"
  obtains as p bs ys y zs where "ps = as @ p # bs" "xs = ys @ y # zs" "length as = n" "length ys = n" "length bs = length zs"
    "kl_heap l p = Some \<lparr>ln_value = y, ln_prev = (if as = [] then None else Some (last as)), ln_next = (if bs = [] then None else Some (hd bs))\<rparr>"
    "dll (kl_heap l) None as ys (Some p)" "dll (kl_heap l) (Some p) bs zs None" "distinct as" "distinct bs" "p \<notin> set as" "p \<notin> set bs" "set as \<inter> set bs = {}"
proof -
  from assms(1) have d: "dll (kl_heap l) None ps xs None" "distinct ps" by (simp_all add: kl_inv_def)
  then have n: "n < length ps" using assms(2) dll_length by fastforce
  obtain as p bs where p: "ps = as @ p # bs" "length as = n" using id_take_nth_drop [OF n] n by (metis length_take min.absorb4)
  obtain ys y zs where x: "xs = ys @ y # zs" "length ys = n" using id_take_nth_drop [OF assms(2)] assms(2) by (metis length_take min.absorb4)
  have l: "length as = length ys" "length bs = length zs" using dll_length [OF d(1)] p x by simp_all
  from d(1) have "dll (kl_heap l) None as ys (Some p)" "dll (kl_heap l) (if as = [] then None else Some (last as)) (p # bs) (y # zs) None"
    unfolding p(1) x(1) dll_append [OF l(1)] by simp_all
  then show thesis using d(2) p x l by (intro that [of as p bs ys y zs]) (simp_all add: dll_Cons)
qed

lemma deref_simps [simp]: "kl_deref (Some p) l = (case kl_heap l p of None \<Rightarrow> Inl OutOfBounds | Some n \<Rightarrow> Inr n)" "kl_deref None l = Inl (Fault 0)"
  by (simp_all add: kl_deref_def)

lemma modify_simps [simp]: "kl_heap l p = Some n \<Longrightarrow> kl_modify (Some p) f l = Inr (l\<lparr>kl_heap := (kl_heap l)(p \<mapsto> f n)\<rparr>)"
  by (simp add: kl_modify_def)

lemma free_simps [simp]: "kl_heap l p = Some n \<Longrightarrow> kl_free (Some p) l = Inr (l\<lparr>kl_heap := (kl_heap l)(p := None)\<rparr>)"
  by (simp add: kl_free_def)

lemma kl_new_inv: "kl_inv kl_new [] []"
  by (simp add: kl_inv_def kl_new_def)

lemma kl_inv_cnt: "kl_inv l ps xs \<Longrightarrow> kl_cnt l = 0 \<longleftrightarrow> xs = []"
  by (auto simp: kl_inv_def u64_eq_unat unat_of_nat)

lemma of_nat_pred: "0 < n \<Longrightarrow> (of_nat n :: u64) - 1 = of_nat (n - 1)"
  by (cases n) simp_all

section \<open>Deleting\<close>

lemma dll_bridge:
  assumes "dll h None as ys (Some p)" "dll h (Some p) bs zs None" "length as = length ys"
    "distinct as" "distinct bs" "set as \<inter> set bs = {}" "p \<notin> set as" "p \<notin> set bs"
  defines "pr \<equiv> if as = [] then None else Some (last as)" and "nx \<equiv> if bs = [] then None else Some (hd bs)"
  defines "h1 \<equiv> if as = [] then h else h(last as \<mapsto> (the (h (last as)))\<lparr>ln_next := nx\<rparr>)"
  defines "h2 \<equiv> if bs = [] then h1 else h1(hd bs \<mapsto> (the (h1 (hd bs)))\<lparr>ln_prev := pr\<rparr>)"
  shows "dll (h2(p := v)) None (as @ bs) (ys @ zs) None"
proof -
  have a: "dll h1 None as ys nx"
  proof (cases as rule: rev_cases)
    case Nil
    then show ?thesis using assms(1) by (cases ys) simp_all
  next
    case (snoc as' q)
    with assms(1) obtain n where "h q = Some n" using assms(3) by (cases ys rule: rev_cases) (auto simp: dll_append dll_Cons)
    with dll_set_next [of h None as' q ys "Some p" n nx] snoc assms(1,4) show ?thesis by (simp add: h1_def)
  qed
  have b: "dll h1 (Some p) bs zs None"
  proof -
    have "last as \<notin> set bs" if "as \<noteq> []" using that assms(6) last_in_set by blast
    then show ?thesis using assms(2) by (simp add: h1_def)
  qed
  have c: "dll h2 pr bs zs None" "dll h2 None as ys nx"
  proof -
    show "dll h2 pr bs zs None"
    proof (cases bs)
      case (Cons q bs')
      with b obtain n where "h1 q = Some n" by (cases zs) auto
      with dll_set_prev [of h1 "Some p" q bs' zs None n pr] Cons b assms(5) show ?thesis by (simp add: h2_def)
    qed (use b in \<open>simp add: h2_def\<close>)
    have "hd bs \<notin> set as" if "bs \<noteq> []" using that assms(6) hd_in_set by blast
    then show "dll h2 None as ys nx" using a by (simp add: h2_def)
  qed
  then show ?thesis using assms(3,7,8) by (simp add: dll_append pr_def nx_def)
qed

lemma list_deleteNode_ok:
  assumes "kl_inv l ps xs" "n < length xs"
  shows "\<exists>l'. list_deleteNode (Some (ps ! n)) l = Inr (if Suc n < length ps then Some (ps ! Suc n) else None, l') \<and>
    kl_inv l' (take n ps @ drop (Suc n) ps) (take n xs @ drop (Suc n) xs) \<and> kl_fresh l' = kl_fresh l"
proof -
  from assms obtain as p bs ys y zs where s: "ps = as @ p # bs" "xs = ys @ y # zs" "length as = n" "length ys = n" "length bs = length zs"
    "kl_heap l p = Some \<lparr>ln_value = y, ln_prev = (if as = [] then None else Some (last as)), ln_next = (if bs = [] then None else Some (hd bs))\<rparr>"
    "dll (kl_heap l) None as ys (Some p)" "dll (kl_heap l) (Some p) bs zs None" "distinct as" "distinct bs" "p \<notin> set as" "p \<notin> set bs" "set as \<inter> set bs = {}"
    by (rule kl_inv_split)
  let ?h = "kl_heap l"
  define pr where "pr = (if as = [] then None else Some (last as))"
  define nx where "nx = (if bs = [] then None else Some (hd bs))"
  define h1 where "h1 = (if as = [] then ?h else ?h(last as \<mapsto> (the (?h (last as)))\<lparr>ln_next := nx\<rparr>))"
  define h2 where "h2 = (if bs = [] then h1 else h1(hd bs \<mapsto> (the (h1 (hd bs)))\<lparr>ln_prev := pr\<rparr>))"
  have hp: "?h p = Some \<lparr>ln_value = y, ln_prev = pr, ln_next = nx\<rparr>" using s(6) by (simp add: pr_def nx_def)
  have la: "\<exists>m. ?h (last as) = Some m" if "as \<noteq> []"
    using that s(3,4,7) by (cases as rule: rev_cases; cases ys rule: rev_cases) (auto simp: dll_append dll_Cons)
  have hb: "hd bs \<noteq> p" "\<exists>m. h1 (hd bs) = Some m" if "bs \<noteq> []"
    using that s(8,12) by (cases bs; cases zs; auto simp: h1_def)+
  have lp: "last as \<noteq> p" if "as \<noteq> []" using that s(11) last_in_set by blast
  have m1: "(if pr \<noteq> None then kl_modify pr (ln_next_update (\<lambda>_. nx)) l else Inr l) = Inr (l\<lparr>kl_heap := h1\<rparr>)"
    using la by (cases "as = []") (auto simp: pr_def h1_def)
  have m2: "(if nx \<noteq> None then kl_modify nx (ln_prev_update (\<lambda>_. pr)) (l\<lparr>kl_heap := h1\<rparr>) else Inr (l\<lparr>kl_heap := h1\<rparr>)) = Inr (l\<lparr>kl_heap := h2\<rparr>)"
    using hb by (cases "bs = []") (auto simp: nx_def h2_def)
  have "h1 p = ?h p" using lp by (cases "as = []") (simp_all add: h1_def fun_upd_other not_sym)
  moreover have "h2 p = h1 p" using hb(1) by (cases "bs = []") (simp_all add: h2_def not_sym)
  ultimately have h2p: "h2 p = ?h p" by simp
  define l' where "l' = l\<lparr>kl_heap := h2(p := None), kl_head := (if as = [] then nx else kl_head l), kl_tail := (if bs = [] then pr else kl_tail l), kl_cnt := kl_cnt l - 1\<rparr>"
  have inv: "kl_head l = Some (if as = [] then p else hd as)" "kl_tail l = Some (if bs = [] then p else last bs)"
    "kl_cnt l = of_nat (length xs)" "length xs < 2 ^ 64" "\<forall>q\<in>set ps. q < kl_fresh l" using assms(1) s(1) by (auto simp: kl_inv_def)
  have ht: "kl_head l = Some p \<longleftrightarrow> as = []" "kl_tail l = Some p \<longleftrightarrow> bs = []"
    using inv(1,2) s(11,12) by (auto dest: hd_in_set last_in_set split: if_splits)
  have r: "list_deleteNode (Some p) l = Inr (nx, l')"
  proof -
    have f: "kl_free (Some p) (l\<lparr>kl_heap := h2, kl_head := a, kl_tail := b\<rparr>) = Inr (l\<lparr>kl_heap := h2(p := None), kl_head := a, kl_tail := b\<rparr>)" for a b
      using h2p hp by simp
    have "(if kl_tail (if kl_head (l\<lparr>kl_heap := h2\<rparr>) = Some p then l\<lparr>kl_heap := h2, kl_head := nx\<rparr> else l\<lparr>kl_heap := h2\<rparr>) = Some p
        then (if kl_head (l\<lparr>kl_heap := h2\<rparr>) = Some p then l\<lparr>kl_heap := h2, kl_head := nx\<rparr> else l\<lparr>kl_heap := h2\<rparr>)\<lparr>kl_tail := pr\<rparr>
        else (if kl_head (l\<lparr>kl_heap := h2\<rparr>) = Some p then l\<lparr>kl_heap := h2, kl_head := nx\<rparr> else l\<lparr>kl_heap := h2\<rparr>)) =
      l\<lparr>kl_heap := h2, kl_head := (if as = [] then nx else kl_head l), kl_tail := (if bs = [] then pr else kl_tail l)\<rparr>"
      using ht by simp
    then show ?thesis unfolding list_deleteNode_def
      by (simp only: deref_simps hp option.case bindE.simps option.simps if_False lnode.simps m1 m2 Let_def f) (simp add: l'_def)
  qed
  have d: "dll (h2(p := None)) None (as @ bs) (ys @ zs) None"
    unfolding h2_def h1_def pr_def nx_def using s by (intro dll_bridge) simp_all
  have "kl_head l' = (if as @ bs = [] then None else Some (hd (as @ bs)))" using inv(1) by (simp add: l'_def nx_def)
  moreover have "kl_tail l' = (if as @ bs = [] then None else Some (last (as @ bs)))" using inv(2) by (simp add: l'_def pr_def)
  moreover have "kl_cnt l' = of_nat (length (ys @ zs))" "length (ys @ zs) < 2 ^ 64" using inv(3,4) s(2) by (simp_all add: l'_def)
  moreover have "distinct (as @ bs)" "\<forall>q\<in>set (as @ bs). q < kl_fresh l'" using s(1,9,10,13) inv(5) by (auto simp: l'_def)
  moreover have "dll (kl_heap l') None (as @ bs) (ys @ zs) None" using d by (simp add: l'_def)
  ultimately have i: "kl_inv l' (as @ bs) (ys @ zs)" unfolding kl_inv_def by (intro conjI)
  have t: "take n ps = as" "drop (Suc n) ps = bs" "take n xs = ys" "drop (Suc n) xs = zs" "ps ! n = p" using s(1-4) by (simp_all add: nth_append)
  have t2: "(if Suc n < length ps then Some (ps ! Suc n) else None) = nx" using s(1,3) by (cases bs) (simp_all add: nx_def nth_append)
  have "kl_fresh l' = kl_fresh l" by (simp add: l'_def)
  then show ?thesis unfolding t t2 by (intro exI [of _ l'] conjI r i)
qed

section \<open>Inserting\<close>

text \<open>A node put between the two halves of a chain.\<close>

lemma dll_join:
  fixes v :: 'a
  assumes "dll h None as ys nx" "dll h pr bs zs None" "length as = length ys"
    "nx = (if bs = [] then None else Some (hd bs))" "pr = (if as = [] then None else Some (last as))"
    "distinct as" "distinct bs" "set as \<inter> set bs = {}" "q \<notin> set as" "q \<notin> set bs"
  defines "h0 \<equiv> h(q \<mapsto> \<lparr>ln_value = v, ln_prev = pr, ln_next = nx\<rparr>)"
  defines "h1 \<equiv> if as = [] then h0 else h0(last as \<mapsto> (the (h (last as)))\<lparr>ln_next := Some q\<rparr>)"
  defines "h2 \<equiv> if bs = [] then h1 else h1(hd bs \<mapsto> (the (h (hd bs)))\<lparr>ln_prev := Some q\<rparr>)"
  shows "dll h2 None (as @ q # bs) (ys @ v # zs) None"
proof -
  have la: "last as \<noteq> q" "last as \<notin> set bs" if "as \<noteq> []" using that assms(8,9) last_in_set by blast+
  have hb: "hd bs \<noteq> q" "hd bs \<notin> set as" if "bs \<noteq> []" using that assms(8,10) hd_in_set by blast+
  have a0: "dll h0 None as ys nx" "dll h0 pr bs zs None" using assms(1,2,9,10) by (simp_all add: h0_def)
  have a1: "dll h1 None as ys (Some q)"
  proof (cases as rule: rev_cases)
    case Nil
    then show ?thesis using assms(1) by (cases ys) simp_all
  next
    case (snoc as' r)
    from assms(1) obtain n where n: "h r = Some n" using assms(3) unfolding snoc by (cases ys rule: rev_cases) (auto simp: dll_append dll_Cons)
    then have "h0 r = Some n" using la(1) by (simp add: snoc h0_def)
    with dll_set_next [of h0 None as' r ys nx n "Some q"] a0(1) assms(6) n show ?thesis by (simp add: snoc h1_def)
  qed
  have b1: "dll h1 pr bs zs None" using a0(2) la(2) by (cases "as = []") (simp_all add: h1_def)
  have a2: "dll h2 None as ys (Some q)" using a1 hb(2) by (cases "bs = []") (simp_all add: h2_def)
  have b2: "dll h2 (Some q) bs zs None"
  proof (cases bs)
    case Nil
    then show ?thesis using assms(2) by (cases zs) simp_all
  next
    case (Cons r bs')
    from assms(2) obtain n where n: "h r = Some n" unfolding Cons by (cases zs) auto
    have "r \<noteq> q" "as \<noteq> [] \<longrightarrow> last as \<noteq> r" using hb(1) la(2) by (auto simp: Cons)
    then have "h1 r = Some n" using n by (auto simp: h1_def h0_def)
    with dll_set_prev [of h1 pr r bs' zs None n "Some q"] b1 assms(7) n show ?thesis by (simp add: Cons h2_def)
  qed
  have "h2 q = Some \<lparr>ln_value = v, ln_prev = pr, ln_next = nx\<rparr>"
  proof -
    have "h1 q = h0 q" using la(1) by (cases "as = []") (simp_all add: h1_def not_sym)
    moreover have "h2 q = h1 q" using hb(1) by (cases "bs = []") (simp_all add: h2_def not_sym)
    ultimately show ?thesis by (simp add: h0_def)
  qed
  then show ?thesis using a2 b2 assms(3-5) by (simp add: dll_append)
qed

text \<open>What an insertion between the positions \<open>n - 1\<close> and \<open>n\<close> leaves.\<close>

lemma kl_inv_insert:
  fixes v :: 'a
  assumes "kl_inv l (as @ bs) (ys @ zs)" "length as = length ys" "Suc (length (ys @ zs)) < 2 ^ 64"
  defines "q \<equiv> kl_fresh l" and "h \<equiv> kl_heap l"
  defines "h0 \<equiv> h(q \<mapsto> \<lparr>ln_value = v, ln_prev = (if as = [] then None else Some (last as)), ln_next = (if bs = [] then None else Some (hd bs))\<rparr>)"
  defines "h1 \<equiv> if as = [] then h0 else h0(last as \<mapsto> (the (h (last as)))\<lparr>ln_next := Some q\<rparr>)"
  defines "h2 \<equiv> if bs = [] then h1 else h1(hd bs \<mapsto> (the (h (hd bs)))\<lparr>ln_prev := Some q\<rparr>)"
  assumes "kl_heap l' = h2" "kl_fresh l' = Suc q" "kl_head l' = Some (if as = [] then q else hd as)" "kl_tail l' = Some (if bs = [] then q else last bs)"
    "kl_cnt l' = kl_cnt l + 1"
  shows "kl_inv l' (as @ q # bs) (ys @ v # zs)"
proof -
  from assms(1) have d: "dll h None as ys (if bs = [] then None else Some (hd bs))" "dll h (if as = [] then None else Some (last as)) bs zs None"
    "distinct (as @ bs)" "\<forall>p\<in>set (as @ bs). p < q" "kl_cnt l = of_nat (length (ys @ zs))"
    by (simp_all add: kl_inv_def dll_append [OF assms(2)] h_def q_def)
  from d(3,4) have s: "distinct as" "distinct bs" "set as \<inter> set bs = {}" "q \<notin> set as" "q \<notin> set bs" by auto
  have "dll h2 None (as @ q # bs) (ys @ v # zs) None" unfolding h2_def h1_def h0_def
    by (rule dll_join [OF d(1,2) assms(2) refl refl s])
  moreover have "distinct (as @ q # bs)" "\<forall>p\<in>set (as @ q # bs). p < kl_fresh l'" using s d(4) assms(10) by (auto intro: less_SucI)
  moreover have "kl_head l' = (if as @ q # bs = [] then None else Some (hd (as @ q # bs)))" using assms(11) by simp
  moreover have "kl_tail l' = (if as @ q # bs = [] then None else Some (last (as @ q # bs)))" using assms(12) by simp
  moreover have "kl_cnt l' = of_nat (length (ys @ v # zs))" using assms(13) d(5) by simp
  moreover have "length (ys @ v # zs) < 2 ^ 64" using assms(3) by simp
  ultimately show ?thesis unfolding kl_inv_def assms(9) by (intro conjI)
qed

lemma insertBefore_end_ok:
  assumes "kl_inv l ps xs" "Suc (length xs) < 2 ^ 64"
  shows "\<exists>l'. insertBefore None v l = Inr l' \<and> kl_inv l' (ps @ [kl_fresh l]) (xs @ [v]) \<and> kl_fresh l' = Suc (kl_fresh l)"
proof -
  let ?q = "kl_fresh l" and ?h = "kl_heap l"
  let ?n = "\<lparr>ln_value = v, ln_prev = (if ps = [] then None else Some (last ps)), ln_next = None\<rparr>"
  define h2 where "h2 = (if ps = [] then ?h(?q \<mapsto> ?n) else (?h(?q \<mapsto> ?n))(last ps \<mapsto> (the (?h (last ps)))\<lparr>ln_next := Some ?q\<rparr>))"
  define l' where "l' = l\<lparr>kl_heap := h2, kl_fresh := Suc ?q, kl_head := Some (if ps = [] then ?q else hd ps), kl_tail := Some ?q, kl_cnt := kl_cnt l + 1\<rparr>"
  have i: "kl_head l = (if ps = [] then None else Some (hd ps))" "kl_tail l = (if ps = [] then None else Some (last ps))" "\<forall>p\<in>set ps. p < ?q" "dll ?h None ps xs None"
    using assms(1) by (simp_all add: kl_inv_def)
  have "insertBefore None v l = Inr l'"
  proof (cases ps rule: rev_cases)
    case Nil
    then show ?thesis using i by (simp add: insertBefore_def kl_create_def insertBefore_node_def l'_def h2_def)
  next
    case (snoc as r)
    from i(4) obtain m where m: "?h r = Some m" using dll_length [OF i(4)] unfolding snoc by (cases xs rule: rev_cases) (auto simp: dll_append dll_Cons)
    have "r \<noteq> ?q" using i(3) snoc by auto
    then show ?thesis using i(1,2) m snoc
      by (simp add: insertBefore_def kl_create_def insertBefore_node_def l'_def h2_def fun_upd_twist)
  qed
  moreover have "kl_inv l' (ps @ [?q]) (xs @ [v])"
    using kl_inv_insert [of l ps "[]" xs "[]" l' v] assms dll_length [OF i(4)] by (simp add: l'_def h2_def cong: if_cong)
  ultimately show ?thesis by (simp add: l'_def)
qed

lemma insertBefore_at_ok:
  assumes "kl_inv l ps xs" "n < length xs" "Suc (length xs) < 2 ^ 64"
  shows "\<exists>l'. insertBefore (Some (ps ! n)) v l = Inr l' \<and> kl_inv l' (take n ps @ kl_fresh l # drop n ps) (take n xs @ v # drop n xs)"
proof -
  from assms(1,2) obtain as p bs ys y zs where s: "ps = as @ p # bs" "xs = ys @ y # zs" "length as = n" "length ys = n" "length bs = length zs"
    "kl_heap l p = Some \<lparr>ln_value = y, ln_prev = (if as = [] then None else Some (last as)), ln_next = (if bs = [] then None else Some (hd bs))\<rparr>"
    "dll (kl_heap l) None as ys (Some p)" "dll (kl_heap l) (Some p) bs zs None" "distinct as" "distinct bs" "p \<notin> set as" "p \<notin> set bs" "set as \<inter> set bs = {}"
    by (rule kl_inv_split)
  let ?q = "kl_fresh l" and ?h = "kl_heap l"
  have i: "kl_head l = Some (if as = [] then p else hd as)" "kl_tail l = Some (last (p # bs))" "\<forall>r\<in>set ps. r < ?q"
    using assms(1) s(1) by (auto simp: kl_inv_def)
  then have q: "p \<noteq> ?q" "?q \<noteq> p" "?q \<notin> set as" using s(1) by auto
  let ?n = "\<lparr>ln_value = v, ln_prev = (if as = [] then None else Some (last as)), ln_next = Some p\<rparr>"
  define h1 where "h1 = (if as = [] then ?h(?q \<mapsto> ?n) else (?h(?q \<mapsto> ?n))(last as \<mapsto> (the (?h (last as)))\<lparr>ln_next := Some ?q\<rparr>))"
  define h2 where "h2 = h1(p \<mapsto> (the (?h p))\<lparr>ln_prev := Some ?q\<rparr>)"
  define l' where "l' = l\<lparr>kl_heap := h2, kl_fresh := Suc ?q, kl_head := Some (if as = [] then ?q else hd as), kl_cnt := kl_cnt l + 1\<rparr>"
  have r: "insertBefore (Some p) v l = Inr l'"
  proof (cases as rule: rev_cases)
    case Nil
    then show ?thesis using i q s(6) by (simp add: insertBefore_def kl_create_def insertBefore_node_def l'_def h2_def h1_def)
  next
    case (snoc as' r)
    from s(7) obtain m where m: "?h r = Some m" using s(3,4) unfolding snoc by (cases ys rule: rev_cases) (auto simp: dll_append dll_Cons)
    have "r \<noteq> ?q" "r \<noteq> p" using q(3) s(11) snoc by auto
    then show ?thesis using i q s(6) m snoc
      by (simp add: insertBefore_def kl_create_def insertBefore_node_def l'_def h2_def h1_def fun_upd_twist)
  qed
  have "kl_inv l' (as @ ?q # (p # bs)) (ys @ v # (y # zs))"
    using kl_inv_insert [of l as "p # bs" ys "y # zs" l' v] assms s i(2) by (simp add: l'_def h2_def h1_def cong: if_cong)
  then show ?thesis using r s(1-4) by (simp add: nth_append)
qed

lemma insertAfter_ok:
  assumes "kl_inv l ps xs" "n < length xs" "Suc (length xs) < 2 ^ 64"
  shows "\<exists>l'. insertAfter (Some (ps ! n)) v l = Inr l' \<and> kl_inv l' (take (Suc n) ps @ kl_fresh l # drop (Suc n) ps) (take (Suc n) xs @ v # drop (Suc n) xs)"
proof -
  from assms(1,2) obtain as p bs ys y zs where s: "ps = as @ p # bs" "xs = ys @ y # zs" "length as = n" "length ys = n" "length bs = length zs"
    "kl_heap l p = Some \<lparr>ln_value = y, ln_prev = (if as = [] then None else Some (last as)), ln_next = (if bs = [] then None else Some (hd bs))\<rparr>"
    "dll (kl_heap l) None as ys (Some p)" "dll (kl_heap l) (Some p) bs zs None" "distinct as" "distinct bs" "p \<notin> set as" "p \<notin> set bs" "set as \<inter> set bs = {}"
    by (rule kl_inv_split)
  let ?q = "kl_fresh l" and ?h = "kl_heap l"
  have i: "kl_head l = Some (hd (as @ [p]))" "kl_tail l = Some (if bs = [] then p else last bs)" "\<forall>r\<in>set ps. r < ?q"
    using assms(1) s(1) by (auto simp: kl_inv_def hd_append)
  then have q: "p \<noteq> ?q" "?q \<noteq> p" "?q \<notin> set bs" using s(1) by auto
  let ?n = "\<lparr>ln_value = v, ln_prev = Some p, ln_next = (if bs = [] then None else Some (hd bs))\<rparr>"
  define h1 where "h1 = ?h(?q \<mapsto> ?n, p \<mapsto> (the (?h p))\<lparr>ln_next := Some ?q\<rparr>)"
  define h2 where "h2 = (if bs = [] then h1 else h1(hd bs \<mapsto> (the (?h (hd bs)))\<lparr>ln_prev := Some ?q\<rparr>))"
  define l' where "l' = l\<lparr>kl_heap := h2, kl_fresh := Suc ?q, kl_tail := Some (if bs = [] then ?q else last bs), kl_cnt := kl_cnt l + 1\<rparr>"
  have r: "insertAfter (Some p) v l = Inr l'"
  proof (cases bs)
    case Nil
    then show ?thesis using i q s(6) by (simp add: insertAfter_def kl_create_def insertAfter_node_def l'_def h2_def h1_def)
  next
    case (Cons r bs')
    from s(8) obtain m where m: "?h r = Some m" unfolding Cons by (cases zs) auto
    have "r \<noteq> ?q" "r \<noteq> p" "last bs \<noteq> p" using q(3) s(12) Cons last_in_set [of bs] by auto
    then show ?thesis using i q s(6) m Cons
      by (simp add: insertAfter_def kl_create_def insertAfter_node_def l'_def h2_def h1_def Let_def)
  qed
  have "kl_inv l' ((as @ [p]) @ ?q # bs) ((ys @ [y]) @ v # zs)"
    using kl_inv_insert [of l "as @ [p]" bs "ys @ [y]" zs l' v] assms s i(1) by (simp add: l'_def h2_def h1_def hd_append cong: if_cong)
  then show ?thesis using r s(1-4) by (simp add: nth_append)
qed

section \<open>Taking from the ends\<close>

lemma popFront_ok:
  assumes "kl_inv l ps (x # xs)"
  shows "\<exists>l'. popFront l = Inr (x, l') \<and> kl_inv l' (tl ps) xs \<and> kl_fresh l' = kl_fresh l"
proof -
  from assms have d: "dll (kl_heap l) None ps (x # xs) None" "kl_cnt l \<noteq> 0" using kl_inv_cnt [OF assms] by (simp_all add: kl_inv_def)
  then obtain p ps' where ps: "ps = p # ps'" by (cases ps) auto
  have i: "kl_head l = Some p" "kl_tail l = Some (last ps)" "distinct ps" "\<forall>q\<in>set ps. q < kl_fresh l" "kl_cnt l = 1 + of_nat (length xs)" "Suc (length xs) < 2 ^ 64"
    using assms ps by (auto simp: kl_inv_def)
  have hp: "kl_heap l p = Some \<lparr>ln_value = x, ln_prev = None, ln_next = (if ps' = [] then None else Some (hd ps'))\<rparr>" "dll (kl_heap l) (Some p) ps' xs None"
    using d(1) ps by simp_all
  show ?thesis
  proof (cases ps')
    case Nil
    then have "xs = []" using hp(2) by (cases xs) simp_all
    with i hp d(2) Nil ps show ?thesis by (simp add: popFront_def kl_inv_def)
  next
    case (Cons r rs)
    from hp(2) obtain y ys where y: "xs = y # ys" "kl_heap l r = Some \<lparr>ln_value = y, ln_prev = Some p, ln_next = (if rs = [] then None else Some (hd rs))\<rparr>" "dll (kl_heap l) (Some r) rs ys None"
      unfolding Cons by (auto simp: dll_Cons)
    have rp: "r \<noteq> p" "r \<notin> set rs" "p \<notin> set rs" using i(3) ps Cons by auto
    define h where "h = (kl_heap l)(r \<mapsto> \<lparr>ln_value = y, ln_prev = None, ln_next = (if rs = [] then None else Some (hd rs))\<rparr>, p := None)"
    define l' where "l' = l\<lparr>kl_heap := h, kl_head := Some r, kl_tail := Some (last (r # rs)), kl_cnt := of_nat (length xs)\<rparr>"
    have "popFront l = Inr (x, l')"
      using d(2) i(1,2,5) hp(1) y(2) rp ps Cons by (cases rs) (simp_all add: popFront_def l'_def h_def)
    moreover have "dll h None (r # rs) (y # ys) None" using y(3) rp by (simp add: h_def)
    then have "kl_inv l' (r # rs) xs" using i ps Cons y(1) by (simp add: kl_inv_def l'_def)
    ultimately show ?thesis using ps Cons by (simp add: l'_def)
  qed
qed

lemma popBack_ok:
  assumes "kl_inv l ps (xs @ [x])"
  shows "\<exists>l'. popBack l = Inr (x, l') \<and> kl_inv l' (butlast ps) xs \<and> kl_fresh l' = kl_fresh l"
proof -
  from assms have d: "dll (kl_heap l) None ps (xs @ [x]) None" "kl_cnt l \<noteq> 0" using kl_inv_cnt [OF assms] by (simp_all add: kl_inv_def)
  then obtain ps' p where ps: "ps = ps' @ [p]" "length ps' = length xs" using dll_length [OF d(1)] by (cases ps rule: rev_cases) auto
  have i: "kl_head l = Some (hd ps)" "kl_tail l = Some p" "distinct ps" "\<forall>q\<in>set ps. q < kl_fresh l" "kl_cnt l = 1 + of_nat (length xs)" "Suc (length xs) < 2 ^ 64"
    using assms ps by (auto simp: kl_inv_def)
  have hp: "kl_heap l p = Some \<lparr>ln_value = x, ln_prev = (if ps' = [] then None else Some (last ps')), ln_next = None\<rparr>" "dll (kl_heap l) None ps' xs (Some p)"
    using d(1) ps by (simp_all add: dll_append)
  show ?thesis
  proof (cases ps' rule: rev_cases)
    case Nil
    then have "xs = []" using hp(2) by (cases xs) simp_all
    with i hp d(2) Nil ps show ?thesis by (simp add: popBack_def kl_inv_def)
  next
    case (snoc rs r)
    with ps(2) obtain ys y where y: "xs = ys @ [y]" "length rs = length ys" by (cases xs rule: rev_cases) auto
    have hr: "kl_heap l r = Some \<lparr>ln_value = y, ln_prev = (if rs = [] then None else Some (last rs)), ln_next = Some p\<rparr>"
      using hp(2) y snoc by (simp add: dll_append)
    have rp: "r \<noteq> p" "r \<notin> set rs" "p \<notin> set rs" using i(3) ps snoc by auto
    define h where "h = (kl_heap l)(r \<mapsto> \<lparr>ln_value = y, ln_prev = (if rs = [] then None else Some (last rs)), ln_next = None\<rparr>, p := None)"
    define l' where "l' = l\<lparr>kl_heap := h, kl_head := Some (hd ps'), kl_tail := Some r, kl_cnt := of_nat (length xs)\<rparr>"
    have "popBack l = Inr (x, l')"
      using d(2) i(1,2,5) hp(1) hr rp ps snoc by (cases "rs = []") (simp_all add: popBack_def l'_def h_def)
    moreover have "dll h None ps' xs None"
    proof -
      have "dll ((kl_heap l)(r \<mapsto> \<lparr>ln_value = y, ln_prev = (if rs = [] then None else Some (last rs)), ln_next = Some p\<rparr>\<lparr>ln_next := None\<rparr>)) None (rs @ [r]) xs None"
        using hp(2) hr i(3) ps(1) unfolding snoc by (intro dll_set_next) auto
      then show ?thesis using rp by (simp add: h_def snoc)
    qed
    then have "kl_inv l' ps' xs" using i ps snoc y(1) by (simp add: kl_inv_def l'_def)
    ultimately show ?thesis using ps by (simp add: l'_def)
  qed
qed

section \<open>Walking along a list\<close>

definition pos :: "nat list \<Rightarrow> nat \<Rightarrow> lptr" where
  "pos ps n = (if n < length ps then Some (ps ! n) else None)"

lemma kl_inv_length: "kl_inv l ps xs \<Longrightarrow> length ps = length xs"
  unfolding kl_inv_def by (blast dest: dll_length)

lemma kl_inv_fuel: "kl_inv l ps xs \<Longrightarrow> length xs \<le> kl_fresh l"
proof -
  assume i: "kl_inv l ps xs"
  then have "set ps \<subseteq> {..<kl_fresh l}" "distinct ps" by (auto simp: kl_inv_def)
  then have "length ps \<le> kl_fresh l" by (metis card_lessThan card_mono distinct_card finite_lessThan)
  then show ?thesis by (simp add: kl_inv_length [OF i])
qed

lemma kl_inv_begin: "kl_inv l ps xs \<Longrightarrow> list_begin l = pos ps 0"
  by (auto simp: kl_inv_def list_begin_def pos_def hd_conv_nth)

lemma kl_inv_node:
  assumes "kl_inv l ps xs" "n < length xs"
  shows "\<exists>pr. kl_heap l (ps ! n) = Some \<lparr>ln_value = xs ! n, ln_prev = pr, ln_next = pos ps (Suc n)\<rparr>"
proof -
  from assms obtain as p bs ys y zs where s: "ps = as @ p # bs" "xs = ys @ y # zs" "length as = n" "length ys = n"
    "kl_heap l p = Some \<lparr>ln_value = y, ln_prev = (if as = [] then None else Some (last as)), ln_next = (if bs = [] then None else Some (hd bs))\<rparr>"
    by (rule kl_inv_split)
  then show ?thesis by (auto simp: pos_def nth_append hd_conv_nth)
qed

lemma it_ok:
  assumes "kl_inv l ps xs" "n < length xs"
  shows "it_value l (pos ps n) = Inr (xs ! n)" "it_next l (pos ps n) = Inr (pos ps (Suc n))" "pos ps n \<noteq> list_end" "pos ps n = Some (ps ! n)"
  using kl_inv_node [OF assms] assms(2) kl_inv_length [OF assms(1)] by (auto simp: it_value_def it_next_def pos_def list_end_def)

lemma pos_end: "kl_inv l ps xs \<Longrightarrow> pos ps (length xs) = list_end"
  by (simp add: pos_def list_end_def kl_inv_length)

lemma list_visit_ok:
  assumes "kl_inv l ps xs" "n \<le> length xs" "length xs - n < fuel"
  shows "list_visit fuel (pos ps n) l = Inr (drop n xs)"
  using assms(2,3)
proof (induction fuel arbitrary: n)
  case (Suc fuel)
  show ?case
  proof (cases "n < length xs")
    case True
    with Suc.IH [of "Suc n"] Suc.prems it_ok [OF assms(1) True] show ?thesis by (simp add: Cons_nth_drop_Suc)
  next
    case False
    with Suc.prems(1) have "n = length xs" by simp
    then show ?thesis using pos_end [OF assms(1)] by simp
  qed
qed simp

lemma list_entries_ok: "kl_inv l ps xs \<Longrightarrow> list_entries l = Inr xs"
  using list_visit_ok [of l ps xs 0 "Suc (kl_fresh l)"] kl_inv_fuel [of l ps xs] kl_inv_begin [of l ps xs] by (simp add: list_entries_def)

text \<open>Searching.\<close>

lemma find_if_from_ok:
  assumes "kl_inv l ps xs" "n \<le> length xs" "length xs - n < fuel"
  shows "find_if_from fuel P (pos ps n) l = Inr (pos ps (n + length (takeWhile (\<lambda>x. \<not> P x) (drop n xs))))"
  using assms(2,3)
proof (induction fuel arbitrary: n)
  case (Suc fuel)
  show ?case
  proof (cases "n < length xs")
    case True
    then have "drop n xs = xs ! n # drop (Suc n) xs" by (simp add: Cons_nth_drop_Suc)
    with Suc.IH [of "Suc n"] Suc.prems it_ok [OF assms(1) True] True show ?thesis by simp
  next
    case False
    with Suc.prems(1) have "n = length xs" by simp
    then show ?thesis using pos_end [OF assms(1)] by simp
  qed
qed simp

lemma list_find_if_ok: "kl_inv l ps xs \<Longrightarrow> list_find_if P l = Inr (pos ps (length (takeWhile (\<lambda>x. \<not> P x) xs)))"
  using find_if_from_ok [of l ps xs 0 "Suc (kl_fresh l)" P] kl_inv_fuel [of l ps xs] kl_inv_begin [of l ps xs] by (simp add: list_find_if_def)

text \<open>Removing every match.\<close>

lemma remove_all_from_ok:
  assumes "kl_inv l ps xs" "n \<le> length xs" "length xs - n < fuel"
  shows "\<exists>l' ps'. remove_all_from fuel P (pos ps n) l = Inr l' \<and> kl_inv l' ps' (take n xs @ filter (\<lambda>x. \<not> P x) (drop n xs))"
  using assms
proof (induction fuel arbitrary: n l ps xs)
  case (Suc fuel)
  show ?case
  proof (cases "n < length xs")
    case True
    note it = it_ok [OF Suc.prems(1) True]
    have dr: "drop n xs = xs ! n # drop (Suc n) xs" using True by (simp add: Cons_nth_drop_Suc)
    show ?thesis
    proof (cases "P (xs ! n)")
      case True
      let ?qs = "take n ps @ drop (Suc n) ps" and ?zs = "take n xs @ drop (Suc n) xs"
      from list_deleteNode_ok [OF Suc.prems(1) \<open>n < length xs\<close>] obtain l1 where
        l1: "list_deleteNode (Some (ps ! n)) l = Inr (pos ps (Suc n), l1)" "kl_inv l1 ?qs ?zs" by (auto simp: pos_def)
      have len: "length ps = length xs" by (rule kl_inv_length [OF Suc.prems(1)])
      have p: "pos ps (Suc n) = pos ?qs n" using \<open>n < length xs\<close> len by (auto simp: pos_def nth_append)
      have tz: "take n ?zs = take n xs" "drop n ?zs = drop (Suc n) xs" using \<open>n < length xs\<close> by simp_all
      have "n \<le> length ?zs" "length ?zs - n < fuel" using Suc.prems(3) \<open>n < length xs\<close> by auto
      from Suc.IH [OF l1(2) this] obtain l2 ps2 where
        "remove_all_from fuel P (pos ?qs n) l1 = Inr l2" "kl_inv l2 ps2 (take n xs @ filter (\<lambda>x. \<not> P x) (drop (Suc n) xs))" unfolding tz by auto
      with it l1(1) True p show ?thesis by (auto simp: dr list_erase_def)
    next
      case False
      have "Suc n \<le> length xs" "length xs - Suc n < fuel" using Suc.prems(3) \<open>n < length xs\<close> by auto
      from Suc.IH [OF Suc.prems(1) this] obtain l2 ps2 where
        "remove_all_from fuel P (pos ps (Suc n)) l = Inr l2" "kl_inv l2 ps2 (take (Suc n) xs @ filter (\<lambda>x. \<not> P x) (drop (Suc n) xs))" by auto
      with it False \<open>n < length xs\<close> show ?thesis by (auto simp: dr take_Suc_conv_app_nth)
    qed
  next
    case False
    with Suc.prems(2) have "n = length xs" by simp
    then show ?thesis using pos_end [OF Suc.prems(1)] Suc.prems(1) by auto
  qed
qed simp

lemma remove_all_if_ok:
  assumes "kl_inv l ps xs"
  shows "\<exists>l' ps'. remove_all_if P l = Inr l' \<and> kl_inv l' ps' (filter (\<lambda>x. \<not> P x) xs)"
  using remove_all_from_ok [OF assms, of 0 "Suc (kl_fresh l)" P] kl_inv_fuel [OF assms] by (simp add: remove_all_if_def kl_inv_begin [OF assms])

section \<open>First in, first out\<close>

definition kl_list :: "'a klist \<Rightarrow> 'a list" where
  "kl_list l = (case list_entries l of Inl _ \<Rightarrow> [] | Inr xs \<Rightarrow> xs)"

definition kl_ok :: "'a klist \<Rightarrow> bool" where
  "kl_ok l \<longleftrightarrow> (\<exists>ps xs. kl_inv l ps xs)"

lemma kl_list_inv: "kl_inv l ps xs \<Longrightarrow> kl_list l = xs"
  by (simp add: kl_list_def list_entries_ok)

lemma list_append_ok:
  assumes "kl_inv l ps xs" "Suc (length xs) < 2 ^ 64"
  shows "\<exists>l' ps'. list_append v l = Inr l' \<and> kl_inv l' ps' (xs @ [v])"
  using insertBefore_end_ok [OF assms, of v] by (auto simp: list_append_def list_end_def)

interpretation klq: krt_queue kl_ok "\<lambda>_. 2 ^ 64 - 1" kl_list list_append popFront
proof
  fix q :: "'a klist" and x xs
  show "\<exists>q'. list_append x q = Inr q' \<and> kl_ok q' \<and> 2 ^ 64 - 1 = (2 ^ 64 - 1 :: nat) \<and> kl_list q' = kl_list q @ [x]"
    if ok: "kl_ok q" and l: "length (kl_list q) < 2 ^ 64 - 1"
  proof -
    from ok obtain ps ys where i: "kl_inv q ps ys" by (auto simp: kl_ok_def)
    then have "Suc (length ys) < 2 ^ 64" using l by (simp add: kl_list_inv [OF i])
    from list_append_ok [OF i this, of x] obtain q' ps' where "list_append x q = Inr q'" "kl_inv q' ps' (ys @ [x])" by blast
    then show ?thesis using kl_list_inv [OF i] kl_list_inv [of q' ps'] by (auto simp: kl_ok_def)
  qed
  show "\<exists>q'. popFront q = Inr (x, q') \<and> kl_ok q' \<and> 2 ^ 64 - 1 = (2 ^ 64 - 1 :: nat) \<and> kl_list q' = xs"
    if ok: "kl_ok q" and l: "kl_list q = x # xs"
  proof -
    from ok obtain ps ys where i: "kl_inv q ps ys" by (auto simp: kl_ok_def)
    then have "kl_inv q ps (x # xs)" using kl_list_inv [OF i] l by simp
    from popFront_ok [OF this] show ?thesis by (auto simp: kl_ok_def dest: kl_list_inv)
  qed
qed

section \<open>Lists are lists\<close>

datatype 'a listop = LAppend 'a | LPrepend 'a | LInsertBefore nat 'a | LInsertAfter nat 'a | LErase nat | LRemoveAll 'a | LPopFront | LPopBack

text \<open>The iterator \<^verbatim>\<open>begin()\<close> moved on \<open>n\<close> times.\<close>

fun list_at :: "nat \<Rightarrow> 'a klist \<Rightarrow> lptr res" where
  "list_at 0 l = Inr (list_begin l)"
| "list_at (Suc n) l = bindE (list_at n l) (it_next l)"

fun klist_step :: "'a listop \<Rightarrow> 'a klist \<times> 'a list \<Rightarrow> ('a klist \<times> 'a list) res" where
  "klist_step (LAppend x) (l, out) = bindE (list_append x l) (\<lambda>l'. Inr (l', out))"
| "klist_step (LPrepend x) (l, out) = bindE (list_prepend x l) (\<lambda>l'. Inr (l', out))"
| "klist_step (LInsertBefore n x) (l, out) = bindE (list_at n l) (\<lambda>it. bindE (insertBefore it x l) (\<lambda>l'. Inr (l', out)))"
| "klist_step (LInsertAfter n x) (l, out) = bindE (list_at n l) (\<lambda>it. bindE (insertAfter it x l) (\<lambda>l'. Inr (l', out)))"
| "klist_step (LErase n) (l, out) = bindE (list_at n l) (\<lambda>it. bindE (list_erase it l) (\<lambda>(_, l'). Inr (l', out)))"
| "klist_step (LRemoveAll x) (l, out) = bindE (remove_all x l) (\<lambda>l'. Inr (l', out))"
| "klist_step LPopFront (l, out) = bindE (popFront l) (\<lambda>(x, l'). Inr (l', out @ [x]))"
| "klist_step LPopBack (l, out) = bindE (popBack l) (\<lambda>(x, l'). Inr (l', out @ [x]))"

text \<open>The same operations on a list of values.\<close>

fun dlist_step :: "'a listop \<Rightarrow> 'a list \<times> 'a list \<Rightarrow> ('a list \<times> 'a list) res" where
  "dlist_step (LAppend x) (xs, out) = Inr (xs @ [x], out)"
| "dlist_step (LPrepend x) (xs, out) = Inr (x # xs, out)"
| "dlist_step (LInsertBefore n x) (xs, out) = (if n \<le> length xs then Inr (take n xs @ x # drop n xs, out) else Inl (Abort ''out of range!''))"
| "dlist_step (LInsertAfter n x) (xs, out) =
     (if n < length xs then Inr (take (Suc n) xs @ x # drop (Suc n) xs, out)
      else if n = length xs then Inl (Abort ''insertAfter(): cannot insert after end!'') else Inl (Abort ''out of range!''))"
| "dlist_step (LErase n) (xs, out) = (if n \<le> length xs then Inr (take n xs @ drop (Suc n) xs, out) else Inl (Abort ''out of range!''))"
| "dlist_step (LRemoveAll x) (xs, out) = Inr (filter (\<lambda>y. y \<noteq> x) xs, out)"
| "dlist_step LPopFront (xs, out) = (case xs of [] \<Rightarrow> Inl (Abort ''popFront(): empty list'') | y # ys \<Rightarrow> Inr (ys, out @ [y]))"
| "dlist_step LPopBack (xs, out) = (if xs = [] then Inl (Abort ''popBack(): empty list'') else Inr (butlast xs, out @ [last xs]))"

lemma list_at_ok:
  assumes "kl_inv l ps xs"
  shows "list_at n l = (if n \<le> length xs then Inr (pos ps n) else Inl (Abort ''out of range!''))"
proof (induction n)
  case 0
  then show ?case using kl_inv_begin [OF assms] by simp
next
  case (Suc n)
  show ?case
  proof (cases "n < length xs")
    case True
    with Suc it_ok [OF assms True] show ?thesis by simp
  next
    case False
    show ?thesis
    proof (cases "n = length xs")
      case True
      with Suc pos_end [OF assms] show ?thesis by (simp add: it_next_def list_end_def)
    next
      case False
      with \<open>\<not> n < length xs\<close> have "\<not> n \<le> length xs" by simp
      with Suc show ?thesis by simp
    qed
  qed
qed

lemma klist_step_refines:
  assumes "kl_inv l ps xs" "Suc (length xs) < 2 ^ 64"
  shows "(\<exists>err. dlist_step op (xs, out) = Inl err \<and> klist_step op (l, out) = Inl err) \<or>
    (\<exists>ys out' l' ps'. dlist_step op (xs, out) = Inr (ys, out') \<and> length ys \<le> Suc (length xs) \<and> klist_step op (l, out) = Inr (l', out') \<and> kl_inv l' ps' ys)"
proof (cases op)
  case (LAppend x)
  with list_append_ok [OF assms, of x] show ?thesis by auto
next
  case (LPrepend x)
  show ?thesis
  proof (cases xs)
    case Nil
    then have "list_begin l = None" using kl_inv_begin [OF assms(1)] kl_inv_length [OF assms(1)] by (simp add: pos_def)
    with insertBefore_end_ok [OF assms, of x] Nil show ?thesis by (auto simp: LPrepend list_prepend_def)
  next
    case (Cons y ys)
    then have "0 < length xs" by simp
    with insertBefore_at_ok [OF assms(1) this assms(2), of x] kl_inv_begin [OF assms(1)] it_ok(4) [OF assms(1) this] show ?thesis
      by (auto simp: LPrepend list_prepend_def)
  qed
next
  case (LInsertBefore n x)
  consider "n < length xs" | "n = length xs" | "length xs < n" by linarith
  then show ?thesis
  proof cases
    case 1
    with insertBefore_at_ok [OF assms(1) 1 assms(2), of x] it_ok(4) [OF assms(1) 1] show ?thesis
      by (auto simp: LInsertBefore list_at_ok [OF assms(1)])
  next
    case 2
    with insertBefore_end_ok [OF assms, of x] pos_end [OF assms(1)] show ?thesis
      by (auto simp: LInsertBefore list_at_ok [OF assms(1)] list_end_def)
  qed (simp add: LInsertBefore list_at_ok [OF assms(1)])
next
  case (LInsertAfter n x)
  consider "n < length xs" | "n = length xs" | "length xs < n" by linarith
  then show ?thesis
  proof cases
    case 1
    with insertAfter_ok [OF assms(1) 1 assms(2), of x] it_ok(4) [OF assms(1) 1] show ?thesis
      by (auto simp: LInsertAfter list_at_ok [OF assms(1)])
  next
    case 2
    with pos_end [OF assms(1)] show ?thesis
      by (simp add: LInsertAfter list_at_ok [OF assms(1)] list_end_def insertAfter_def insertAfter_node_def kl_create_def)
  qed (simp add: LInsertAfter list_at_ok [OF assms(1)])
next
  case (LErase n)
  consider "n < length xs" | "n = length xs" | "length xs < n" by linarith
  then show ?thesis
  proof cases
    case 1
    with list_deleteNode_ok [OF assms(1) 1] it_ok(4) [OF assms(1) 1] show ?thesis
      by (auto simp: LErase list_at_ok [OF assms(1)] list_erase_def)
  next
    case 2
    with pos_end [OF assms(1)] assms(1) show ?thesis
      by (auto simp: LErase list_at_ok [OF assms(1)] list_end_def list_erase_def list_deleteNode_def)
  qed (simp add: LErase list_at_ok [OF assms(1)])
next
  case (LRemoveAll x)
  with remove_all_if_ok [OF assms(1), of "\<lambda>y. y = x"] show ?thesis by (auto simp: remove_all_def le_SucI)
next
  case LPopFront
  show ?thesis
  proof (cases xs)
    case Nil
    with kl_inv_cnt [OF assms(1)] show ?thesis by (simp add: LPopFront popFront_def)
  next
    case (Cons y ys)
    with popFront_ok [of l ps y ys] assms(1) show ?thesis by (auto simp: LPopFront)
  qed
next
  case LPopBack
  show ?thesis
  proof (cases xs rule: rev_cases)
    case Nil
    with kl_inv_cnt [OF assms(1)] show ?thesis by (simp add: LPopBack popBack_def)
  next
    case (snoc ys y)
    with popBack_ok [of l ps ys y] assms(1) show ?thesis by (auto simp: LPopBack)
  qed
qed

lemma klist_run_refines:
  assumes "kl_inv l ps xs" "length xs + length ops < 2 ^ 64"
  shows "case foldE dlist_step ops (xs, out) of
      Inl err \<Rightarrow> foldE klist_step ops (l, out) = Inl err
    | Inr (ys, out') \<Rightarrow> \<exists>l' ps'. foldE klist_step ops (l, out) = Inr (l', out') \<and> kl_inv l' ps' ys"
  using assms
proof (induction ops arbitrary: l ps xs out)
  case (Cons op ops)
  from Cons.prems(2) have "Suc (length xs) < 2 ^ 64" by simp
  from klist_step_refines [OF Cons.prems(1) this, of op out] show ?case
  proof (elim disjE exE conjE)
    fix ys out' l' ps'
    assume s: "dlist_step op (xs, out) = Inr (ys, out')" "length ys \<le> Suc (length xs)" "klist_step op (l, out) = Inr (l', out')" "kl_inv l' ps' ys"
    from s(1,3) have "foldE dlist_step (op # ops) (xs, out) = foldE dlist_step ops (ys, out')" "foldE klist_step (op # ops) (l, out) = foldE klist_step ops (l', out')" by simp_all
    moreover have "length ys + length ops < 2 ^ 64" using s(2) Cons.prems(2) by simp
    ultimately show ?case using Cons.IH [OF s(4), of out'] by (simp only:)
  qed simp
qed auto

text \<open>
  C32: A linked list does what a list of values does: any sequence of insertions at either end or at an iterator,
  removals at an iterator, removals of a value and removals from either end returns without following a null or
  freed pointer, gives out the same values, stops with the same messages, and leaves a list whose iteration and
  size agree with the list of values.
\<close>

theorem klist_refines_list:
  assumes "length ops < 2 ^ 64"
  shows "case foldE dlist_step ops ([], []) of
      Inl err \<Rightarrow> foldE klist_step ops (kl_new, []) = Inl err
    | Inr (xs, out) \<Rightarrow> \<exists>l. foldE klist_step ops (kl_new, []) = Inr (l, out) \<and> list_entries l = Inr xs \<and> list_size l = of_nat (length xs)"
proof -
  from klist_run_refines [OF kl_new_inv, of ops "[]"] assms
  have r: "case foldE dlist_step ops ([], []) of Inl err \<Rightarrow> foldE klist_step ops (kl_new, []) = Inl err
    | Inr (ys, out') \<Rightarrow> \<exists>l' ps'. foldE klist_step ops (kl_new, []) = Inr (l', out') \<and> kl_inv l' ps' ys" by simp
  show ?thesis
  proof (cases "foldE dlist_step ops ([], [])")
    case (Inr a)
    obtain xs out where a: "a = (xs, out)" by (cases a)
    with r Inr obtain l ps where "foldE klist_step ops (kl_new, []) = Inr (l, out)" "kl_inv l ps xs" by auto
    then show ?thesis using Inr a list_entries_ok [of l ps xs] by (auto simp: list_size_def kl_inv_def)
  qed (use r in simp)
qed

section \<open>Examples\<close>

theorem klist_refines_list_witness:
  "\<exists>l. foldE klist_step [LAppend 1, LAppend 2, LPrepend 0, LInsertAfter 1 (5::nat), LErase 0, LPopBack] (kl_new, []) = Inr (l, [2]) \<and> list_entries l = Inr [1, 5]"
  using klist_refines_list [of "[LAppend 1, LAppend 2, LPrepend 0, LInsertAfter 1 (5::nat), LErase 0, LPopBack]"] by auto

definition list_123 :: "nat klist" where
  "list_123 = (case foldE list_append [1, 2, 3] kl_new of Inr l \<Rightarrow> l | Inl _ \<Rightarrow> kl_new)"

text \<open>
  A copy has no first node, a moved list forgets its last node and drops what lies between on the next append, and
  a cleared list still points to its freed nodes.
\<close>

lemma list_copy_headless: "bindE (list_copy list_123) (\<lambda>l. bindE (list_entries l) (\<lambda>xs. Inr (xs, list_size l))) = Inr ([], 3)"
  by code_simp

lemma list_copy_faults: "bindE (list_copy list_123) (\<lambda>l. bindE (popFront l) (\<lambda>(x, _). Inr x)) = Inl (Fault 0)"
  by code_simp

lemma list_move_drops: "bindE (list_append 4 (fst (list_move list_123))) (\<lambda>l. bindE (list_entries l) (\<lambda>xs. Inr (xs, list_size l))) = Inr ([1, 4], 4)"
  by code_simp

lemma list_clear_dangles: "bindE (list_clear list_123) list_entries = Inl OutOfBounds"
  by code_simp

end
