(* ===== verification/Sched.thy ===== *)
theory Sched
  imports Prelude
begin

text \<open>
  The scheduler of one processor: \<^verbatim>\<open>kernel/source/scheduler/scheduler.cpp\<close>, \<^verbatim>\<open>switch.cpp\<close> and
  \<^verbatim>\<open>priority.cpp\<close>. A thread is the object at an address; an address whose object was destroyed holds nothing, and
  looking at it is \<open>OutOfBounds\<close>. The lists of threads are lists of addresses (the linked lists and arrays they are
  kept in are the subject of other theories). The lock of the scheduler and the count of held locks are part of the
  state. What only concerns the processor (stacks, the saved floating point state, segments, page tables) and the
  log are left out. A call is one step together with the switch at its end: a tick that falls between the two
  switches in the same way.
\<close>

section \<open>Priorities\<close>

definition LOW_BASE_PRIORITY :: u64 where "LOW_BASE_PRIORITY = 50000"
definition LOW_STARVATION_DIV :: u64 where "LOW_STARVATION_DIV = 9000"
definition LOW_BOOST_MULT :: u64 where "LOW_BOOST_MULT = 18000"
definition NORMAL_BASE_PRIORITY :: u64 where "NORMAL_BASE_PRIORITY = 100000"
definition NORMAL_STARVATION_DIV :: u64 where "NORMAL_STARVATION_DIV = 8000"
definition NORMAL_BOOST_MULT :: u64 where "NORMAL_BOOST_MULT = 15000"
definition HIGH_BASE_PRIORITY :: u64 where "HIGH_BASE_PRIORITY = 150000"
definition HIGH_STARVATION_DIV :: u64 where "HIGH_STARVATION_DIV = 7000"
definition HIGH_BOOST_MULT :: u64 where "HIGH_BOOST_MULT = 12000"

record Priority =
  basePriority :: u64
  lastScheduled :: u64
  starvationRewardDivisor :: u64
  temporaryBoost :: u64
  boostMultiplier :: u64

text \<open>The time is a parameter; the code reads it from the tick counter.\<close>

definition effective :: "u64 \<Rightarrow> Priority \<Rightarrow> u64" where
  "effective now p = basePriority p + temporaryBoost p + (now - lastScheduled p) div starvationRewardDivisor p"

definition boost :: "u64 \<Rightarrow> Priority \<Rightarrow> Priority" where
  "boost amt p = p\<lparr>temporaryBoost := temporaryBoost p + boostMultiplier p * amt\<rparr>"

definition prio_reset :: "u64 \<Rightarrow> Priority \<Rightarrow> Priority" where
  "prio_reset now p = p\<lparr>lastScheduled := now, temporaryBoost := 0\<rparr>"

definition prio_gt :: "u64 \<Rightarrow> Priority \<Rightarrow> Priority \<Rightarrow> bool" where
  "prio_gt now p q \<longleftrightarrow> effective now p > effective now q"

definition prio_low :: Priority where
  "prio_low = \<lparr>basePriority = LOW_BASE_PRIORITY, lastScheduled = 0, starvationRewardDivisor = LOW_STARVATION_DIV, temporaryBoost = 0, boostMultiplier = LOW_BOOST_MULT\<rparr>"

definition prio_normal :: Priority where
  "prio_normal = \<lparr>basePriority = NORMAL_BASE_PRIORITY, lastScheduled = 0, starvationRewardDivisor = NORMAL_STARVATION_DIV, temporaryBoost = 0, boostMultiplier = NORMAL_BOOST_MULT\<rparr>"

definition prio_high :: Priority where
  "prio_high = \<lparr>basePriority = HIGH_BASE_PRIORITY, lastScheduled = 0, starvationRewardDivisor = HIGH_STARVATION_DIV, temporaryBoost = 0, boostMultiplier = HIGH_BOOST_MULT\<rparr>"

section \<open>Threads and the state of the scheduler\<close>

type_synonym tid = nat

datatype ThreadState = Stopped | Running | BlockedOnCondition | BlockedOnSleep | AboutToExit

record thread =
  th_priority :: Priority
  th_state :: ThreadState
  th_blockedOn :: "nat option"
  th_wakeUpTimestamp :: u64

definition new_thread :: thread where
  "new_thread = \<lparr>th_priority = prio_normal, th_state = Stopped, th_blockedOn = None, th_wakeUpTimestamp = 0\<rparr>"

datatype SchedulerInitPhase = Uninitialised | KernelProcessInit | ReadyToRegisterCPUs | BootstrapCPURegistered | SchedulerStarted

record sched =
  IdleThread :: tid
  CurrentThread :: tid
  ThreadList :: "tid list"
  BlockedThreads :: "tid list"
  DestructionQueue :: "tid list"
  timesliceTicks :: u64
  tickCounter :: u64
  expediteSchedule :: bool
  sc_lock :: bool
  numHeldLocks :: u64
  initPhase :: SchedulerInitPhase
  sc_threads :: "tid \<Rightarrow> thread option"

definition NS_PER_TICK :: u64 where "NS_PER_TICK = 1000000"
definition TIMESLICE_DURATION_NS :: u64 where "TIMESLICE_DURATION_NS = 4000000"

definition getElapsedNanoseconds :: "sched \<Rightarrow> u64" where
  "getElapsedNanoseconds s = tickCounter s * NS_PER_TICK"

definition get_thread :: "sched \<Rightarrow> tid \<Rightarrow> thread res" where
  "get_thread s t = (case sc_threads s t of None \<Rightarrow> Inl OutOfBounds | Some th \<Rightarrow> Inr th)"

definition upd_thread :: "tid \<Rightarrow> (thread \<Rightarrow> thread) \<Rightarrow> sched \<Rightarrow> sched res" where
  "upd_thread t f s = bindE (get_thread s t) (\<lambda>th. Inr (s\<lparr>sc_threads := (sc_threads s)(t \<mapsto> f th)\<rparr>))"

definition getCurrentThread :: "sched \<Rightarrow> tid option" where
  "getCurrentThread s = (if initPhase s \<noteq> SchedulerStarted then None else Some (CurrentThread s))"

text \<open>\<^verbatim>\<open>auto t = getCurrentThread(); assert(t);\<close>\<close>

definition current_thread :: "sched \<Rightarrow> tid res" where
  "current_thread s = (case getCurrentThread s of None \<Rightarrow> Inl (AssertFail ''t'') | Some t \<Rightarrow> Inr t)"

section \<open>Pausing and locking\<close>

definition sched_pause :: "sched \<Rightarrow> sched" where
  "sched_pause s = s\<lparr>numHeldLocks := numHeldLocks s + 1\<rparr>"

definition isPaused :: "sched \<Rightarrow> bool" where
  "isPaused s \<longleftrightarrow> numHeldLocks s > 0"

definition unpause :: "sched \<Rightarrow> sched res" where
  "unpause s = bindE (assertE (isPaused s) ''isPaused()'') (\<lambda>_. Inr (s\<lparr>numHeldLocks := numHeldLocks s - 1\<rparr>))"

text \<open>\<^verbatim>\<open>LockedSection(&ss->lock, ...)\<close>: the lock is a spinlock, so waiting for it on the same processor never ends.\<close>

definition locked_section :: "(sched \<Rightarrow> sched res) \<Rightarrow> sched \<Rightarrow> sched res" where
  "locked_section f s =
     (if sc_lock s then Inl (Abort ''deadlock'')
      else bindE (f (sched_pause (s\<lparr>sc_lock := True\<rparr>))) (\<lambda>s'. unpause (s'\<lparr>sc_lock := False\<rparr>)))"

section \<open>Switching\<close>

definition pick :: "sched \<Rightarrow> tid \<Rightarrow> tid option \<times> Priority \<Rightarrow> (tid option \<times> Priority) res" where
  "pick s thr best =
     bindE (get_thread s thr) (\<lambda>th.
     Inr (if th_state th = Stopped \<and> (fst best = None \<or> prio_gt (getElapsedNanoseconds s) (th_priority th) (snd best))
          then (Some thr, th_priority th) else best))"

definition getNextThread :: "sched \<Rightarrow> tid res" where
  "getNextThread s =
     bindE (foldE (pick s) (ThreadList s) (None, prio_low)) (\<lambda>(next, _).
     Inr (case next of None \<Rightarrow> IdleThread s | Some t \<Rightarrow> t))"

definition find_and_switch_thread :: "sched \<Rightarrow> sched res" where
  "find_and_switch_thread s =
     bindE (assertE (\<not> sc_lock s) ''switching with held lock?!'') (\<lambda>_.
     bindE (upd_thread (CurrentThread s) (\<lambda>th. if th_state th = Running then th\<lparr>th_state := Stopped\<rparr> else th) s) (\<lambda>s1.
     bindE (getNextThread s1) (\<lambda>newthr.
     bindE (upd_thread newthr (\<lambda>th. th\<lparr>th_state := Running, th_priority := prio_reset (getElapsedNanoseconds s1) (th_priority th)\<rparr>) s1) (\<lambda>s2.
     Inr (s2\<lparr>CurrentThread := newthr\<rparr>)))))"

definition sched_yield :: "sched \<Rightarrow> sched res" where
  "sched_yield s = bindE (assertE (\<not> sc_lock s) ''cannot yield while holding the scheduler lock!!'') (\<lambda>_. find_and_switch_thread s)"

text \<open>The loop of \<^verbatim>\<open>wakeUpThreads\<close>: whether a thread woke up, and the threads that stay blocked.\<close>

fun wake_from :: "u64 \<Rightarrow> tid list \<Rightarrow> sched \<Rightarrow> (bool \<times> tid list \<times> sched) res" where
  "wake_from now [] s = Inr (False, [], s)"
| "wake_from now (t # ts) s =
     bindE (get_thread s t) (\<lambda>th.
     if th_state th = BlockedOnSleep \<and> now \<ge> th_wakeUpTimestamp th
     then bindE (upd_thread t (\<lambda>th. th\<lparr>th_wakeUpTimestamp := 0, th_state := Stopped\<rparr>) s) (\<lambda>s1.
          bindE (wake_from now ts s1) (\<lambda>(_, rest, s2). Inr (True, rest, s2)))
     else bindE (wake_from now ts s) (\<lambda>(woke, rest, s2). Inr (woke, t # rest, s2)))"

definition wakeUpThreads :: "sched \<Rightarrow> (bool \<times> sched) res" where
  "wakeUpThreads s =
     bindE (wake_from (getElapsedNanoseconds s) (BlockedThreads s) s) (\<lambda>(woke, rest, s1). Inr (woke, s1\<lparr>BlockedThreads := rest\<rparr>))"

definition scheduler_tick :: "sched \<Rightarrow> (bool \<times> sched) res" where
  "scheduler_tick s =
     bindE (wakeUpThreads (s\<lparr>tickCounter := tickCounter s + 1, timesliceTicks := timesliceTicks s + 1\<rparr>)) (\<lambda>(woke, s1).
     let ret = (woke \<or> expediteSchedule s1 \<or> timesliceTicks s1 * NS_PER_TICK \<ge> TIMESLICE_DURATION_NS) \<and> \<not> numHeldLocks s1 > 0;
         s2 = s1\<lparr>expediteSchedule := False\<rparr>
     in Inr (ret, if ret then s2\<lparr>timesliceTicks := 0\<rparr> else s2))"

text \<open>The interrupt handler of the tick (\<^verbatim>\<open>nx_x64_tick_handler\<close>): switch when the tick asks for it.\<close>

definition tick_handler :: "sched \<Rightarrow> sched res" where
  "tick_handler s = bindE (scheduler_tick s) (\<lambda>(ret, s1). if ret then find_and_switch_thread s1 else Inr s1)"

section \<open>Blocking and waking\<close>

definition sched_block :: "nat \<Rightarrow> sched \<Rightarrow> sched res" where
  "sched_block cv s =
     bindE (current_thread s) (\<lambda>t.
     bindE (locked_section (\<lambda>s. upd_thread t (\<lambda>th. th\<lparr>th_blockedOn := Some cv, th_state := BlockedOnCondition\<rparr>)
              (s\<lparr>BlockedThreads := BlockedThreads s @ [t]\<rparr>)) s) sched_yield)"

fun notify_from :: "nat \<Rightarrow> bool \<Rightarrow> tid list \<Rightarrow> sched \<Rightarrow> (tid list \<times> sched) res" where
  "notify_from cv all [] s = Inr ([], s)"
| "notify_from cv all (t # ts) s =
     bindE (get_thread s t) (\<lambda>th.
     if th_state th = BlockedOnCondition \<and> th_blockedOn th = Some cv
     then bindE (upd_thread t (\<lambda>th. th\<lparr>th_blockedOn := None, th_state := Stopped, th_priority := boost 1 (th_priority th)\<rparr>) s) (\<lambda>s1.
          if all then notify_from cv all ts s1 else Inr (ts, s1))
     else bindE (notify_from cv all ts s) (\<lambda>(rest, s1). Inr (t # rest, s1)))"

definition sched_notify :: "nat \<Rightarrow> bool \<Rightarrow> sched \<Rightarrow> sched res" where
  "sched_notify cv all s =
     (if initPhase s \<noteq> SchedulerStarted then Inr s
      else locked_section (\<lambda>s. bindE (notify_from cv all (BlockedThreads s) s) (\<lambda>(rest, s1). Inr (s1\<lparr>BlockedThreads := rest\<rparr>))) s)"

definition notifyOne :: "nat \<Rightarrow> sched \<Rightarrow> sched res" where
  "notifyOne cv s = sched_notify cv False s"

definition notifyAll :: "nat \<Rightarrow> sched \<Rightarrow> sched res" where
  "notifyAll cv s = sched_notify cv True s"

definition nanosleep :: "u64 \<Rightarrow> sched \<Rightarrow> sched res" where
  "nanosleep ns s =
     bindE (current_thread s) (\<lambda>t.
     bindE (locked_section (\<lambda>s.
       bindE (upd_thread t (\<lambda>th. th\<lparr>th_state := BlockedOnSleep, th_wakeUpTimestamp := getElapsedNanoseconds s + ns\<rparr>) s) (\<lambda>s1.
       Inr (s1\<lparr>BlockedThreads := BlockedThreads s1 @ [t]\<rparr>))) s) sched_yield)"

section \<open>The life of a thread\<close>

definition addThread :: "tid \<Rightarrow> sched \<Rightarrow> sched" where
  "addThread t s = s\<lparr>ThreadList := ThreadList s @ [t]\<rparr>"

definition condemn :: "tid \<Rightarrow> sched \<Rightarrow> sched res" where
  "condemn t s = bindE (upd_thread t (\<lambda>th. th\<lparr>th_state := AboutToExit\<rparr>) s) (\<lambda>s1. Inr (s1\<lparr>DestructionQueue := DestructionQueue s1 @ [t]\<rparr>))"

definition sched_exit :: "sched \<Rightarrow> sched res" where
  "sched_exit s = bindE (current_thread s) (\<lambda>t. bindE (locked_section (condemn t) s) sched_yield)"

definition crashFromException :: "sched \<Rightarrow> sched res" where
  "crashFromException s = bindE (current_thread s) (\<lambda>t. bindE (locked_section (condemn t) s) find_and_switch_thread)"

definition terminate :: "tid \<Rightarrow> sched \<Rightarrow> sched res" where
  "terminate t s = bindE (locked_section (condemn t) s) (\<lambda>s1. if getCurrentThread s1 = Some t then sched_yield s1 else Inr s1)"

text \<open>Terminating a process: its threads, and whether it is the current one.\<close>

definition terminate_process :: "tid list \<Rightarrow> bool \<Rightarrow> sched \<Rightarrow> sched res" where
  "terminate_process ts current s = bindE (locked_section (foldE condemn ts) s) (\<lambda>s1. if current then sched_yield s1 else Inr s1)"

text \<open>One round of the thread that destroys the others; \<^verbatim>\<open>destroyThread\<close> ends the life of the object.\<close>

definition destroy_next :: "sched \<Rightarrow> sched res" where
  "destroy_next s =
     (case DestructionQueue s of [] \<Rightarrow> Inr s
      | thr # _ \<Rightarrow>
        bindE (locked_section (\<lambda>s. Inr (s\<lparr>DestructionQueue := tl (DestructionQueue s), ThreadList := removeAll thr (ThreadList s)\<rparr>)) s) (\<lambda>s1.
        bindE (get_thread s1 thr) (\<lambda>_. Inr (s1\<lparr>sc_threads := (sc_threads s1)(thr := None)\<rparr>))))"

text \<open>\<^verbatim>\<open>init\<close> and \<^verbatim>\<open>start\<close>: the idle thread runs, and the destroyer of threads is the first thread of the list.\<close>

definition sched_init :: "tid \<Rightarrow> tid \<Rightarrow> sched" where
  "sched_init idle destroyer = addThread destroyer
     \<lparr>IdleThread = idle, CurrentThread = idle, ThreadList = [], BlockedThreads = [], DestructionQueue = [], timesliceTicks = 0, tickCounter = 0,
      expediteSchedule = False, sc_lock = False, numHeldLocks = 0, initPhase = BootstrapCPURegistered, sc_threads = [idle \<mapsto> new_thread, destroyer \<mapsto> new_thread]\<rparr>"

definition sched_start :: "sched \<Rightarrow> sched" where
  "sched_start s = s\<lparr>initPhase := SchedulerStarted, CurrentThread := IdleThread s\<rparr>"

section \<open>Runs\<close>

text \<open>What happens on the processor: a tick, or a call made by the running thread. The idle thread makes no calls.\<close>

datatype kop = KTick | KYield | KBlock nat | KSleep u64 | KNotify nat bool | KExit | KCrash | KDestroy

fun kcall :: "kop \<Rightarrow> sched \<Rightarrow> sched res" where
  "kcall KTick s = tick_handler s"
| "kcall KYield s = sched_yield s"
| "kcall (KBlock cv) s = sched_block cv s"
| "kcall (KSleep ns) s = nanosleep ns s"
| "kcall (KNotify cv all) s = sched_notify cv all s"
| "kcall KExit s = sched_exit s"
| "kcall KCrash s = crashFromException s"
| "kcall KDestroy s = destroy_next s"

definition kstep :: "kop \<Rightarrow> sched \<Rightarrow> sched res" where
  "kstep k s = (if k \<noteq> KTick \<and> CurrentThread s = IdleThread s then Inr s else kcall k s)"

definition ticks :: "kop list \<Rightarrow> nat" where
  "ticks ops = length (filter (\<lambda>k. k = KTick) ops)"

section \<open>Priorities as numbers\<close>

definition prio_ok :: "nat \<Rightarrow> Priority \<Rightarrow> bool" where
  "prio_ok now p \<longleftrightarrow>
     (basePriority p, starvationRewardDivisor p, boostMultiplier p) \<in>
       {(LOW_BASE_PRIORITY, LOW_STARVATION_DIV, LOW_BOOST_MULT), (NORMAL_BASE_PRIORITY, NORMAL_STARVATION_DIV, NORMAL_BOOST_MULT), (HIGH_BASE_PRIORITY, HIGH_STARVATION_DIV, HIGH_BOOST_MULT)} \<and>
     temporaryBoost p \<le> boostMultiplier p \<and> unat (lastScheduled p) \<le> now"

lemmas prio_consts = LOW_BASE_PRIORITY_def LOW_STARVATION_DIV_def LOW_BOOST_MULT_def NORMAL_BASE_PRIORITY_def NORMAL_STARVATION_DIV_def
  NORMAL_BOOST_MULT_def HIGH_BASE_PRIORITY_def HIGH_STARVATION_DIV_def HIGH_BOOST_MULT_def

lemma prio_ok_mono: "\<lbrakk>prio_ok now p; now \<le> now'\<rbrakk> \<Longrightarrow> prio_ok now' p"
  by (auto simp: prio_ok_def)

lemma prio_ok_reset: "\<lbrakk>prio_ok now p; unat w \<le> now\<rbrakk> \<Longrightarrow> prio_ok now (prio_reset w p)"
  by (auto simp: prio_ok_def prio_reset_def)

lemma prio_ok_boost: "\<lbrakk>prio_ok now p; temporaryBoost p = 0\<rbrakk> \<Longrightarrow> prio_ok now (boost 1 p)"
  by (auto simp: prio_ok_def boost_def)

lemma prio_ok_new: "prio_ok now prio_low" "prio_ok now prio_normal" "prio_ok now prio_high"
  by (simp_all add: prio_ok_def prio_low_def prio_normal_def prio_high_def)

lemma unat_div_u64: "unat (a div b :: u64) = unat a div unat b"
  by (fact unat_div_distrib)

lemma effective_nat:
  assumes "prio_ok (unat now) p" "unat now < 2 ^ 61"
  shows "unat (effective now p) = unat (basePriority p) + unat (temporaryBoost p) + (unat now - unat (lastScheduled p)) div unat (starvationRewardDivisor p)"
proof -
  have b: "unat (basePriority p) \<le> 150000" "unat (temporaryBoost p) \<le> 18000" using assms(1) by (auto simp: prio_ok_def prio_consts word_le_nat_alt)
  have l: "unat (now - lastScheduled p) = unat now - unat (lastScheduled p)" using assms(1) by (intro unat_sub_nowrap) (simp add: prio_ok_def)
  have "unat ((now - lastScheduled p) div starvationRewardDivisor p) \<le> unat now" unfolding unat_div_u64 l by (meson diff_le_self div_le_dividend le_trans)
  then have "unat ((now - lastScheduled p) div starvationRewardDivisor p) < 2 ^ 61" using assms(2) by linarith
  then show ?thesis using b unfolding effective_def by (simp add: unat_add_nowrap unat_div_u64 l)
qed

lemma effective_bounds:
  assumes "prio_ok (unat now) p" "unat now < 2 ^ 61"
  shows "50000 + (unat now - unat (lastScheduled p)) div 9000 \<le> unat (effective now p)"
    "unat (effective now p) \<le> 162000 + (unat now - unat (lastScheduled p)) div 7000"
proof -
  let ?n = "unat now - unat (lastScheduled p)"
  have m: "?n div 9000 \<le> ?n div 8000" "?n div 8000 \<le> ?n div 7000" by (intro div_le_mono2; simp)+
  from assms(1) consider "unat (basePriority p) = 50000" "unat (starvationRewardDivisor p) = 9000" "unat (temporaryBoost p) \<le> 18000"
    | "unat (basePriority p) = 100000" "unat (starvationRewardDivisor p) = 8000" "unat (temporaryBoost p) \<le> 15000"
    | "unat (basePriority p) = 150000" "unat (starvationRewardDivisor p) = 7000" "unat (temporaryBoost p) \<le> 12000"
    by (auto simp: prio_ok_def prio_consts word_le_nat_alt)
  then show "50000 + ?n div 9000 \<le> unat (effective now p)" "unat (effective now p) \<le> 162000 + ?n div 7000"
    using m by (cases; simp add: effective_nat [OF assms])+
qed

section \<open>Choosing the next thread\<close>

abbreviation now_ns :: "sched \<Rightarrow> nat" where
  "now_ns s \<equiv> unat (tickCounter s) * 1000000"

lemma elapsed_nat: "unat (tickCounter s) < 2 ^ 40 \<Longrightarrow> unat (getElapsedNanoseconds s) = now_ns s \<and> now_ns s < 2 ^ 61"
  unfolding getElapsedNanoseconds_def by (subst unat_mul_nowrap) (simp_all add: NS_PER_TICK_def)

definition ready :: "sched \<Rightarrow> tid \<Rightarrow> bool" where
  "ready s t \<longleftrightarrow> t \<in> set (ThreadList s) \<and> th_state (the (sc_threads s t)) = Stopped"

definition eff :: "sched \<Rightarrow> tid \<Rightarrow> nat" where
  "eff s t = unat (effective (getElapsedNanoseconds s) (th_priority (the (sc_threads s t))))"

definition best_ok :: "sched \<Rightarrow> tid set \<Rightarrow> tid option \<times> Priority \<Rightarrow> bool" where
  "best_ok s seen best \<longleftrightarrow>
     (case fst best of None \<Rightarrow> \<forall>v\<in>seen. th_state (the (sc_threads s v)) \<noteq> Stopped
      | Some u \<Rightarrow> u \<in> seen \<and> th_state (the (sc_threads s u)) = Stopped \<and> snd best = th_priority (the (sc_threads s u)) \<and>
          (\<forall>v\<in>seen. th_state (the (sc_threads s v)) = Stopped \<longrightarrow> eff s v \<le> eff s u))"

lemma pick_ok:
  assumes "sc_threads s t = Some th" "best_ok s seen best"
  shows "\<exists>best'. pick s t best = Inr best' \<and> best_ok s (insert t seen) best'"
proof -
  have g: "prio_gt (getElapsedNanoseconds s) (th_priority th) p \<longleftrightarrow> unat (effective (getElapsedNanoseconds s) p) < eff s t" for p
    using assms(1) by (simp add: prio_gt_def eff_def word_less_nat_alt)
  obtain n p where b: "best = (n, p)" by (cases best)
  show ?thesis
  proof (cases n)
    case None
    then show ?thesis using assms by (auto simp: pick_def get_thread_def best_ok_def b)
  next
    case (Some u)
    with assms(2) b have u: "u \<in> seen" "th_state (the (sc_threads s u)) = Stopped" "p = th_priority (the (sc_threads s u))"
      "\<forall>v\<in>seen. th_state (the (sc_threads s v)) = Stopped \<longrightarrow> eff s v \<le> eff s u" by (simp_all add: best_ok_def)
    have e: "unat (effective (getElapsedNanoseconds s) p) = eff s u" using u(3) by (simp add: eff_def)
    have "pick s t best = Inr (if th_state th = Stopped \<and> eff s u < eff s t then (Some t, th_priority th) else best)"
      using assms(1) by (simp add: pick_def get_thread_def b Some g e)
    moreover have "best_ok s (insert t seen) (if th_state th = Stopped \<and> eff s u < eff s t then (Some t, th_priority th) else best)"
    proof (cases "th_state th = Stopped \<and> eff s u < eff s t")
      case True
      then have "eff s v \<le> eff s t" if "v \<in> seen" "th_state (the (sc_threads s v)) = Stopped" for v using u(4) that by fastforce
      with True show ?thesis using assms(1) by (simp add: best_ok_def)
    next
      case False
      with u assms(1) show ?thesis by (auto simp: best_ok_def b Some)
    qed
    ultimately show ?thesis by blast
  qed
qed

lemma fold_pick_ok:
  assumes "\<forall>t\<in>set ts. \<exists>th. sc_threads s t = Some th" "best_ok s seen best"
  shows "\<exists>best'. foldE (pick s) ts best = Inr best' \<and> best_ok s (seen \<union> set ts) best'"
  using assms
proof (induction ts arbitrary: seen best)
  case (Cons t ts)
  from Cons.prems(1) obtain th where "sc_threads s t = Some th" by auto
  from pick_ok [OF this Cons.prems(2)] obtain b1 where b1: "pick s t best = Inr b1" "best_ok s (insert t seen) b1" by blast
  from Cons.IH [OF _ b1(2)] Cons.prems(1) obtain b2 where "foldE (pick s) ts b1 = Inr b2" "best_ok s (insert t seen \<union> set ts) b2" by auto
  with b1(1) show ?case by simp
qed simp

lemma getNextThread_ok:
  assumes "\<forall>t\<in>set (ThreadList s). \<exists>th. sc_threads s t = Some th"
  obtains u where "getNextThread s = Inr u" "u = IdleThread s" "\<forall>t. \<not> ready s t"
  | u where "getNextThread s = Inr u" "ready s u" "\<forall>t. ready s t \<longrightarrow> eff s t \<le> eff s u"
proof -
  have "best_ok s {} (None, prio_low)" by (simp add: best_ok_def)
  from fold_pick_ok [OF assms this] obtain n p where b: "foldE (pick s) (ThreadList s) (None, prio_low) = Inr (n, p)" "best_ok s (set (ThreadList s)) (n, p)" by auto
  show thesis
  proof (cases n)
    case None
    with b that(1) [of "IdleThread s"] show thesis by (auto simp: getNextThread_def best_ok_def ready_def)
  next
    case (Some u)
    with b that(2) [of u] show thesis by (auto simp: getNextThread_def best_ok_def ready_def)
  qed
qed

section \<open>The invariant\<close>

definition thread_ok :: "sched \<Rightarrow> tid \<Rightarrow> thread \<Rightarrow> bool" where
  "thread_ok s t th \<longleftrightarrow> prio_ok (now_ns s) (th_priority th) \<and> (th_state th = Running \<longrightarrow> t = CurrentThread s) \<and>
     (th_state th \<in> {BlockedOnCondition, BlockedOnSleep} \<longleftrightarrow> t \<in> set (BlockedThreads s)) \<and>
     (th_state th = AboutToExit \<longleftrightarrow> t \<in> set (DestructionQueue s)) \<and> (th_state th \<noteq> Stopped \<longrightarrow> temporaryBoost (th_priority th) = 0)"

text \<open>What holds whenever the lock of the scheduler is free, and what holds when a thread is running.\<close>

definition sched_mid :: "sched \<Rightarrow> bool" where
  "sched_mid s \<longleftrightarrow> \<not> sc_lock s \<and> numHeldLocks s = 0 \<and> initPhase s = SchedulerStarted \<and> unat (tickCounter s) < 2 ^ 40 \<and>
     distinct (ThreadList s) \<and> IdleThread s \<notin> set (ThreadList s) \<and> CurrentThread s \<in> insert (IdleThread s) (set (ThreadList s)) \<and>
     distinct (BlockedThreads s) \<and> set (BlockedThreads s) \<subseteq> set (ThreadList s) \<and>
     distinct (DestructionQueue s) \<and> set (DestructionQueue s) \<subseteq> set (ThreadList s) \<and>
     (\<forall>t\<in>insert (IdleThread s) (set (ThreadList s)). \<exists>th. sc_threads s t = Some th \<and> thread_ok s t th)"

definition sched_run :: "sched \<Rightarrow> bool" where
  "sched_run s \<longleftrightarrow> sched_mid s \<and> (CurrentThread s \<noteq> IdleThread s \<longrightarrow> th_state (the (sc_threads s (CurrentThread s))) = Running)"

definition sched_inv :: "sched \<Rightarrow> bool" where
  "sched_inv s \<longleftrightarrow> sched_run s \<and> unat (timesliceTicks s) \<le> 3"

lemma sched_midD:
  assumes "sched_mid s"
  shows "\<not> sc_lock s" "numHeldLocks s = 0" "initPhase s = SchedulerStarted" "unat (tickCounter s) < 2 ^ 40" "distinct (ThreadList s)"
    "IdleThread s \<notin> set (ThreadList s)" "CurrentThread s = IdleThread s \<or> CurrentThread s \<in> set (ThreadList s)"
    "distinct (BlockedThreads s)" "set (BlockedThreads s) \<subseteq> set (ThreadList s)" "distinct (DestructionQueue s)" "set (DestructionQueue s) \<subseteq> set (ThreadList s)"
  using assms by (auto simp: sched_mid_def)

lemma sched_mid_thread:
  assumes "sched_mid s" "t = IdleThread s \<or> t \<in> set (ThreadList s)"
  obtains th where "sc_threads s t = Some th" "thread_ok s t th"
  using assms by (auto simp: sched_mid_def)

lemma sched_midI:
  assumes "\<not> sc_lock s" "numHeldLocks s = 0" "initPhase s = SchedulerStarted" "unat (tickCounter s) < 2 ^ 40" "distinct (ThreadList s)"
    "IdleThread s \<notin> set (ThreadList s)" "CurrentThread s = IdleThread s \<or> CurrentThread s \<in> set (ThreadList s)"
    "distinct (BlockedThreads s)" "set (BlockedThreads s) \<subseteq> set (ThreadList s)" "distinct (DestructionQueue s)" "set (DestructionQueue s) \<subseteq> set (ThreadList s)"
    "\<And>t. t = IdleThread s \<or> t \<in> set (ThreadList s) \<Longrightarrow> \<exists>th. sc_threads s t = Some th \<and> thread_ok s t th"
  shows "sched_mid s"
  using assms by (auto simp: sched_mid_def)

section \<open>A switch\<close>

definition prio :: "sched \<Rightarrow> tid \<Rightarrow> Priority" where
  "prio s t = th_priority (the (sc_threads s t))"

definition switched :: "sched \<Rightarrow> sched \<Rightarrow> bool" where
  "switched s s' \<longleftrightarrow> IdleThread s' = IdleThread s \<and> ThreadList s' = ThreadList s \<and> tickCounter s' = tickCounter s \<and> timesliceTicks s' = timesliceTicks s \<and>
     (\<forall>v. v \<noteq> CurrentThread s \<and> v \<noteq> CurrentThread s' \<longrightarrow> sc_threads s' v = sc_threads s v) \<and>
     (\<forall>v. v \<noteq> CurrentThread s' \<longrightarrow> prio s' v = prio s v) \<and>
     lastScheduled (prio s' (CurrentThread s')) = getElapsedNanoseconds s \<and>
     (\<forall>t. ready s t \<longrightarrow> CurrentThread s' \<in> set (ThreadList s) \<and> eff s t \<le> eff s (CurrentThread s'))"

lemma upd_thread_Some: "sc_threads s t = Some th \<Longrightarrow> upd_thread t f s = Inr (s\<lparr>sc_threads := (sc_threads s)(t \<mapsto> f th)\<rparr>)"
  by (simp add: upd_thread_def get_thread_def)

lemma find_and_switch_ok:
  assumes "sched_mid s"
  shows "\<exists>s'. find_and_switch_thread s = Inr s' \<and> sched_run s' \<and> switched s s'"
proof -
  note d = sched_midD [OF assms]
  let ?c = "CurrentThread s"
  from sched_mid_thread [OF assms d(7)] obtain th where th: "sc_threads s ?c = Some th" "thread_ok s ?c th" by blast
  define th1 where "th1 = (if th_state th = Running then th\<lparr>th_state := Stopped\<rparr> else th)"
  define s1 where "s1 = s\<lparr>sc_threads := (sc_threads s)(?c \<mapsto> th1)\<rparr>"
  have p1: "th_priority th1 = th_priority th" "th_state th1 \<noteq> Running" by (simp_all add: th1_def)
  have e1: "eff s1 v = eff s v" for v using th(1) p1 by (simp add: eff_def s1_def getElapsedNanoseconds_def)
  have r1: "ready s t \<Longrightarrow> ready s1 t" for t using th(1) by (auto simp: ready_def s1_def th1_def)
  have t1: "\<exists>th'. sc_threads s1 t = Some th' \<and> thread_ok s1 t th' \<and> th_state th' \<noteq> Running" if "t = IdleThread s \<or> t \<in> set (ThreadList s)" for t
  proof (cases "t = ?c")
    case True
    have "thread_ok s1 ?c th1" using th(2) by (auto simp: thread_ok_def s1_def th1_def)
    then show ?thesis using True p1 by (simp add: s1_def)
  next
    case False
    from sched_mid_thread [OF assms that] obtain th' where "sc_threads s t = Some th'" "thread_ok s t th'" by blast
    with False show ?thesis by (auto simp: s1_def thread_ok_def)
  qed
  have "ThreadList s1 = ThreadList s" by (simp add: s1_def)
  with t1 have ex: "\<forall>t\<in>set (ThreadList s1). \<exists>th. sc_threads s1 t = Some th" by fastforce
  obtain u where u: "getNextThread s1 = Inr u" "u = IdleThread s \<or> u \<in> set (ThreadList s)" "u = IdleThread s \<or> th_state (the (sc_threads s1 u)) = Stopped"
    "\<forall>t. ready s1 t \<longrightarrow> u \<in> set (ThreadList s) \<and> eff s1 t \<le> eff s1 u"
    by (rule getNextThread_ok [OF ex]) (auto simp: ready_def s1_def)
  from t1 [OF u(2)] obtain tu where tu: "sc_threads s1 u = Some tu" "thread_ok s1 u tu" "th_state tu \<noteq> Running" by blast
  define now where "now = getElapsedNanoseconds s"
  have now: "unat now = now_ns s" using elapsed_nat [OF d(4)] by (simp add: now_def)
  define tu' where "tu' = tu\<lparr>th_state := Running, th_priority := prio_reset now (th_priority tu)\<rparr>"
  define s' where "s' = s1\<lparr>sc_threads := (sc_threads s1)(u \<mapsto> tu'), CurrentThread := u\<rparr>"
  have r: "find_and_switch_thread s = Inr s'"
    using d(1) th(1) u(1) tu(1)
    by (simp add: find_and_switch_thread_def upd_thread_Some s1_def [unfolded th1_def, symmetric] s'_def tu'_def now_def)
      (simp add: s1_def getElapsedNanoseconds_def)
  have st: "th_state tu = Stopped"
  proof (cases "u = IdleThread s")
    case True
    then have "u \<notin> set (BlockedThreads s)" "u \<notin> set (DestructionQueue s)" using d(6,9,11) by auto
    then show ?thesis using tu(2,3) by (cases "th_state tu") (auto simp: thread_ok_def s1_def)
  qed (use u(3) tu(1) in simp)
  have "sched_mid s'"
  proof (rule sched_midI)
    fix t assume t: "t = IdleThread s' \<or> t \<in> set (ThreadList s')"
    show "\<exists>th. sc_threads s' t = Some th \<and> thread_ok s' t th"
    proof (cases "t = u")
      case True
      have "thread_ok s' u tu'" using tu(2) st now by (auto simp: thread_ok_def s'_def s1_def tu'_def prio_ok_reset) (auto simp: prio_reset_def)
      then show ?thesis using True by (simp add: s'_def)
    next
      case False
      from t have "t = IdleThread s \<or> t \<in> set (ThreadList s)" by (simp add: s'_def s1_def)
      from t1 [OF this] False show ?thesis by (auto simp: s'_def thread_ok_def s1_def)
    qed
  qed (use d u(2) in \<open>auto simp: s'_def s1_def\<close>)
  then have "sched_run s'" by (simp add: sched_run_def s'_def tu'_def)
  moreover have "switched s s'"
  proof -
    have "prio s' v = prio s v" if "v \<noteq> u" for v using that th(1) p1 by (simp add: prio_def s'_def s1_def)
    then show ?thesis using u(4) r1 e1 by (auto simp: switched_def s'_def s1_def prio_def tu'_def prio_reset_def now_def)
  qed
  ultimately show ?thesis using r by blast
qed

section \<open>What happens between switches\<close>

text \<open>The effect of the operations on the threads that wait: none, except that \<open>d\<close> ticks go by.\<close>

definition quiet :: "nat \<Rightarrow> sched \<Rightarrow> sched \<Rightarrow> bool" where
  "quiet d s s1 \<longleftrightarrow> unat (tickCounter s1) = unat (tickCounter s) + d \<and> CurrentThread s1 = CurrentThread s \<and> IdleThread s1 = IdleThread s \<and>
     set (ThreadList s1) \<subseteq> set (ThreadList s) \<and> (\<forall>v\<in>set (ThreadList s1). lastScheduled (prio s1 v) = lastScheduled (prio s v)) \<and>
     (\<forall>t. ready s t \<and> t \<noteq> CurrentThread s \<longrightarrow> ready s1 t \<and> sc_threads s1 t = sc_threads s t)"

lemma quiet_refl: "quiet 0 s s"
  by (simp add: quiet_def)

lemma locked_section_ok:
  assumes "sched_mid s" "f (s\<lparr>sc_lock := True, numHeldLocks := 1\<rparr>) = Inr s1" "numHeldLocks s1 = 1"
  shows "locked_section f s = Inr (s1\<lparr>sc_lock := False, numHeldLocks := 0\<rparr>)"
  using assms sched_midD(1,2) [OF assms(1)]
  by (simp add: locked_section_def sched_pause_def unpause_def isPaused_def)

lemma sched_run_current:
  assumes "sched_run s" "CurrentThread s \<noteq> IdleThread s"
  obtains th where "sc_threads s (CurrentThread s) = Some th" "th_state th = Running" "thread_ok s (CurrentThread s) th" "CurrentThread s \<in> set (ThreadList s)"
    "CurrentThread s \<notin> set (BlockedThreads s)" "CurrentThread s \<notin> set (DestructionQueue s)"
proof -
  have m: "sched_mid s" using assms(1) by (simp add: sched_run_def)
  from sched_mid_thread [OF m sched_midD(7) [OF m]] obtain th where th: "sc_threads s (CurrentThread s) = Some th" "thread_ok s (CurrentThread s) th" by blast
  moreover have "th_state th = Running" using assms th(1) by (simp add: sched_run_def)
  ultimately show thesis using sched_midD(7) [OF m] assms(2) by (intro that [of th]) (auto simp: thread_ok_def)
qed

text \<open>The running thread leaves: to the blocked threads or to the threads that are destroyed.\<close>

lemma leave_ok:
  assumes "sched_run s" "CurrentThread s \<noteq> IdleThread s" "sc_threads s (CurrentThread s) = Some th" "th_priority th' = th_priority th"
    "s1 = s\<lparr>sc_threads := (sc_threads s)(CurrentThread s \<mapsto> th'), BlockedThreads := bs, DestructionQueue := ds\<rparr>"
    "th_state th' \<in> {BlockedOnCondition, BlockedOnSleep} \<and> bs = BlockedThreads s @ [CurrentThread s] \<and> ds = DestructionQueue s \<or>
     th_state th' = AboutToExit \<and> bs = BlockedThreads s \<and> ds = DestructionQueue s @ [CurrentThread s]"
  shows "sched_mid s1" "quiet 0 s s1" "timesliceTicks s1 = timesliceTicks s"
proof -
  have m: "sched_mid s" using assms(1) by (simp add: sched_run_def)
  note d = sched_midD [OF m]
  let ?c = "CurrentThread s"
  have c: "th_state th = Running" "thread_ok s ?c th" "?c \<in> set (ThreadList s)" "?c \<notin> set (BlockedThreads s)" "?c \<notin> set (DestructionQueue s)"
    by (rule sched_run_current [OF assms(1,2)]; use assms(3) in simp)+
  have old: "thread_ok s1 t tt" if "thread_ok s t tt" "t \<noteq> ?c" for t tt using that assms(5,6) by (auto simp: thread_ok_def)
  have new: "thread_ok s1 ?c th'" using c assms(4,5,6) by (auto simp: thread_ok_def)
  show "sched_mid s1"
  proof (rule sched_midI)
    fix t assume "t = IdleThread s1 \<or> t \<in> set (ThreadList s1)"
    then have t: "t = IdleThread s \<or> t \<in> set (ThreadList s)" by (simp add: assms(5))
    show "\<exists>th. sc_threads s1 t = Some th \<and> thread_ok s1 t th"
    proof (cases "t = ?c")
      case True
      then show ?thesis using new by (simp add: assms(5))
    next
      case False
      from sched_mid_thread [OF m t] obtain tt where "sc_threads s t = Some tt" "thread_ok s t tt" by blast
      then show ?thesis using old [of t tt] False by (simp add: assms(5))
    qed
  qed (use d c assms(5,6) in auto)
  show "quiet 0 s s1" using assms(3,4,5) by (auto simp: quiet_def ready_def prio_def)
  show "timesliceTicks s1 = timesliceTicks s" by (simp add: assms(5))
qed

definition wake_rel :: "tid list \<Rightarrow> tid list \<Rightarrow> (tid \<Rightarrow> thread option) \<Rightarrow> (tid \<Rightarrow> thread option) \<Rightarrow> bool" where
  "wake_rel ts rest m m' \<longleftrightarrow> distinct rest \<and> set rest \<subseteq> set ts \<and> (\<forall>t. t \<notin> set ts - set rest \<longrightarrow> m' t = m t) \<and>
     (\<forall>t\<in>set ts - set rest. \<exists>th th'. m t = Some th \<and> m' t = Some th' \<and> th_state th \<in> {BlockedOnCondition, BlockedOnSleep} \<and> th_state th' = Stopped \<and>
        (th_priority th' = th_priority th \<or> th_priority th' = boost 1 (th_priority th)))"

lemma wake_rel_skip: "\<lbrakk>wake_rel ts rest m m'; t \<notin> set ts\<rbrakk> \<Longrightarrow> wake_rel (t # ts) (t # rest) m m'"
  by (auto simp: wake_rel_def)

lemma wake_rel_wake:
  assumes "wake_rel ts rest (m(t \<mapsto> th')) m'" "t \<notin> set ts" "m t = Some th" "th_state th \<in> {BlockedOnCondition, BlockedOnSleep}" "th_state th' = Stopped"
    "th_priority th' = th_priority th \<or> th_priority th' = boost 1 (th_priority th)"
  shows "wake_rel (t # ts) rest m m'"
proof -
  have "t \<notin> set rest" using assms(1,2) by (auto simp: wake_rel_def)
  then have "m' t = Some th'" using assms(1,2) by (auto simp: wake_rel_def)
  have a: "m' v = m v" if "v \<notin> set (t # ts) - set rest" for v
    using assms(1) that \<open>t \<notin> set rest\<close> by (auto simp: wake_rel_def)
  have b: "\<exists>th th'. m v = Some th \<and> m' v = Some th' \<and> th_state th \<in> {BlockedOnCondition, BlockedOnSleep} \<and> th_state th' = Stopped \<and>
        (th_priority th' = th_priority th \<or> th_priority th' = boost 1 (th_priority th))" if "v \<in> set (t # ts) - set rest" for v
  proof (cases "v = t")
    case True
    with assms(3-6) \<open>m' t = Some th'\<close> show ?thesis by blast
  next
    case False
    then have "v \<in> set ts - set rest" using that by auto
    then show ?thesis using assms(1) False unfolding wake_rel_def by (metis fun_upd_other)
  qed
  have "distinct rest" "set rest \<subseteq> set (t # ts)" using assms(1) by (auto simp: wake_rel_def)
  with a b show ?thesis unfolding wake_rel_def by blast
qed

lemma wake_rel_refl: "distinct ts \<Longrightarrow> wake_rel ts ts m m"
  by (auto simp: wake_rel_def)

lemma wake_from_ok:
  assumes "distinct ts" "\<forall>t\<in>set ts. sc_threads s t \<noteq> None"
  shows "\<exists>woke rest m. wake_from now ts s = Inr (woke, rest, s\<lparr>sc_threads := m\<rparr>) \<and> wake_rel ts rest (sc_threads s) m"
  using assms
proof (induction ts arbitrary: s)
  case Nil
  then show ?case using wake_rel_refl [of "[]" "sc_threads s"] by (intro exI [of _ False] exI [of _ "[]"] exI [of _ "sc_threads s"]) simp
next
  case (Cons t ts)
  from Cons.prems obtain th where th: "sc_threads s t = Some th" by auto
  have t: "t \<notin> set ts" using Cons.prems(1) by simp
  show ?case
  proof (cases "th_state th = BlockedOnSleep \<and> now \<ge> th_wakeUpTimestamp th")
    case True
    let ?th = "th\<lparr>th_wakeUpTimestamp := 0, th_state := Stopped\<rparr>"
    let ?s = "s\<lparr>sc_threads := (sc_threads s)(t \<mapsto> ?th)\<rparr>"
    have e: "distinct ts" "\<forall>u\<in>set ts. sc_threads ?s u \<noteq> None" using Cons.prems by simp_all
    from Cons.IH [OF e] obtain woke rest m where
      r: "wake_from now ts ?s = Inr (woke, rest, ?s\<lparr>sc_threads := m\<rparr>)" "wake_rel ts rest ((sc_threads s)(t \<mapsto> ?th)) m" by (auto simp del: fun_upd_apply)
    have "wake_from now (t # ts) s = Inr (True, rest, s\<lparr>sc_threads := m\<rparr>)" using th True r(1) by (simp add: get_thread_def upd_thread_Some)
    moreover have "wake_rel (t # ts) rest (sc_threads s) m" by (rule wake_rel_wake [OF r(2) t th]) (use True in simp_all)
    ultimately show ?thesis by blast
  next
    case False
    from Cons.IH [of s] Cons.prems obtain woke rest m where r: "wake_from now ts s = Inr (woke, rest, s\<lparr>sc_threads := m\<rparr>)" "wake_rel ts rest (sc_threads s) m" by auto
    have "wake_from now (t # ts) s = Inr (woke, t # rest, s\<lparr>sc_threads := m\<rparr>)" using th False r(1) by (auto simp: get_thread_def)
    with wake_rel_skip [OF r(2) t] show ?thesis by blast
  qed
qed

lemma notify_from_ok:
  assumes "distinct ts" "\<forall>t\<in>set ts. sc_threads s t \<noteq> None"
  shows "\<exists>rest m. notify_from cv all ts s = Inr (rest, s\<lparr>sc_threads := m\<rparr>) \<and> wake_rel ts rest (sc_threads s) m"
  using assms
proof (induction ts arbitrary: s)
  case Nil
  then show ?case using wake_rel_refl [of "[]" "sc_threads s"] by (intro exI [of _ "[]"] exI [of _ "sc_threads s"]) simp
next
  case (Cons t ts)
  from Cons.prems obtain th where th: "sc_threads s t = Some th" by auto
  have t: "t \<notin> set ts" "distinct ts" using Cons.prems(1) by simp_all
  show ?case
  proof (cases "th_state th = BlockedOnCondition \<and> th_blockedOn th = Some cv")
    case True
    let ?th = "th\<lparr>th_blockedOn := None, th_state := Stopped, th_priority := boost 1 (th_priority th)\<rparr>"
    let ?s = "s\<lparr>sc_threads := (sc_threads s)(t \<mapsto> ?th)\<rparr>"
    obtain rest m where r: "(if all then notify_from cv all ts ?s else Inr (ts, ?s)) = Inr (rest, ?s\<lparr>sc_threads := m\<rparr>)" "wake_rel ts rest ((sc_threads s)(t \<mapsto> ?th)) m"
    proof (cases all)
      case True
      have "\<forall>u\<in>set ts. sc_threads ?s u \<noteq> None" using Cons.prems by simp
      from Cons.IH [OF t(2) this] True that show thesis by (auto simp del: fun_upd_apply)
    next
      case False
      with that [of ts "(sc_threads s)(t \<mapsto> ?th)"] wake_rel_refl [OF t(2)] show thesis by simp
    qed
    have "notify_from cv all (t # ts) s = Inr (rest, s\<lparr>sc_threads := m\<rparr>)" using th True r(1) by (simp add: get_thread_def upd_thread_Some)
    moreover have "wake_rel (t # ts) rest (sc_threads s) m" by (rule wake_rel_wake [OF r(2) t(1) th]) (use True in simp_all)
    ultimately show ?thesis by blast
  next
    case False
    from Cons.IH [of s] Cons.prems obtain rest m where r: "notify_from cv all ts s = Inr (rest, s\<lparr>sc_threads := m\<rparr>)" "wake_rel ts rest (sc_threads s) m" by auto
    have "notify_from cv all (t # ts) s = Inr (t # rest, s\<lparr>sc_threads := m\<rparr>)" using th False r(1) by (auto simp: get_thread_def)
    with wake_rel_skip [OF r(2) t(1)] show ?thesis by blast
  qed
qed

lemma wake_ok:
  assumes "sched_mid s" "wake_rel (BlockedThreads s) rest (sc_threads s) m" "s1 = s\<lparr>sc_threads := m, BlockedThreads := rest\<rparr>"
  shows "sched_mid s1" "quiet 0 s s1" "sched_run s \<Longrightarrow> sched_run s1"
proof -
  note d = sched_midD [OF assms(1)]
  have w: "distinct rest" "set rest \<subseteq> set (BlockedThreads s)" "\<And>t. t \<notin> set (BlockedThreads s) - set rest \<Longrightarrow> m t = sc_threads s t"
    "\<And>t. t \<in> set (BlockedThreads s) - set rest \<Longrightarrow> \<exists>th th'. sc_threads s t = Some th \<and> m t = Some th' \<and> th_state th \<in> {BlockedOnCondition, BlockedOnSleep} \<and> th_state th' = Stopped \<and>
        (th_priority th' = th_priority th \<or> th_priority th' = boost 1 (th_priority th))"
    using assms(2) unfolding wake_rel_def by blast+
  show mid: "sched_mid s1"
  proof (rule sched_midI)
    fix t assume "t = IdleThread s1 \<or> t \<in> set (ThreadList s1)"
    then have "t = IdleThread s \<or> t \<in> set (ThreadList s)" by (simp add: assms(3))
    from sched_mid_thread [OF assms(1) this] obtain tt where tt: "sc_threads s t = Some tt" "thread_ok s t tt" by blast
    show "\<exists>th. sc_threads s1 t = Some th \<and> thread_ok s1 t th"
    proof (cases "t \<in> set (BlockedThreads s) - set rest")
      case True
      from w(4) [OF True] tt(1) obtain th' where th': "m t = Some th'" "th_state tt \<in> {BlockedOnCondition, BlockedOnSleep}" "th_state th' = Stopped"
        "th_priority th' = th_priority tt \<or> th_priority th' = boost 1 (th_priority tt)" by auto
      moreover have "prio_ok (now_ns s) (th_priority th')" using th'(2,4) tt(2) by (auto simp: thread_ok_def intro: prio_ok_boost)
      moreover have "t \<notin> set (DestructionQueue s)" using th'(2) tt(2) by (auto simp: thread_ok_def)
      ultimately show ?thesis using True by (auto simp: thread_ok_def assms(3))
    next
      case False
      with w(3) tt have "m t = Some tt" by simp
      moreover have "t \<in> set rest \<longleftrightarrow> t \<in> set (BlockedThreads s)" using False w(2) by auto
      ultimately show ?thesis using tt(2) by (auto simp: thread_ok_def assms(3))
    qed
  qed (use d w(1,2) in \<open>auto simp: assms(3)\<close>)
  have same: "m t = sc_threads s t" if "th_state (the (sc_threads s t)) \<in> {Stopped, Running}" for t
    using w(3,4) [of t] that by (cases "t \<in> set (BlockedThreads s) - set rest") auto
  have "lastScheduled (th_priority (the (m v))) = lastScheduled (th_priority (the (sc_threads s v)))" for v
    using w(3,4) [of v] by (cases "v \<in> set (BlockedThreads s) - set rest") (auto simp: boost_def)
  then show "quiet 0 s s1" using same by (auto simp: quiet_def ready_def prio_def assms(3))
  show "sched_run s1" if "sched_run s"
    using that mid same [of "CurrentThread s"] by (auto simp: sched_run_def assms(3))
qed

lemma quiet_trans: "\<lbrakk>quiet d s s1; quiet d' s1 s2\<rbrakk> \<Longrightarrow> quiet (d + d') s s2"
  unfolding quiet_def by (auto 0 3 dest: subsetD)

lemma thread_ok_upd [simp]:
  "thread_ok (s\<lparr>timesliceTicks := a\<rparr>) t th \<longleftrightarrow> thread_ok s t th" "thread_ok (s\<lparr>expediteSchedule := b\<rparr>) t th \<longleftrightarrow> thread_ok s t th"
  by (simp_all add: thread_ok_def)

lemma sched_mid_upd [simp]:
  "sched_mid (s\<lparr>timesliceTicks := a\<rparr>) \<longleftrightarrow> sched_mid s" "sched_mid (s\<lparr>expediteSchedule := b\<rparr>) \<longleftrightarrow> sched_mid s"
  by (simp_all add: sched_mid_def)

lemma sched_run_upd [simp]:
  "sched_run (s\<lparr>timesliceTicks := a\<rparr>) \<longleftrightarrow> sched_run s" "sched_run (s\<lparr>expediteSchedule := b\<rparr>) \<longleftrightarrow> sched_run s"
  by (simp_all add: sched_run_def)

lemma quiet_upd [simp]:
  "quiet d s (s1\<lparr>timesliceTicks := a\<rparr>) \<longleftrightarrow> quiet d s s1" "quiet d s (s1\<lparr>expediteSchedule := b\<rparr>) \<longleftrightarrow> quiet d s s1"
  by (simp_all add: quiet_def ready_def prio_def)

lemma unlocked: "sched_mid s \<Longrightarrow> s\<lparr>sc_lock := False, numHeldLocks := 0\<rparr> = s"
  using sched_midD(1,2) [of s] by simp

lemma yield_ok: "sched_mid s \<Longrightarrow> \<exists>s'. sched_yield s = Inr s' \<and> sched_run s' \<and> switched s s'"
  using find_and_switch_ok [of s] sched_midD(1) [of s] by (simp add: sched_yield_def)

text \<open>One step: the scheduler keeps its invariant, and the threads either only see time go by or a switch as well.\<close>

definition step_shape :: "nat \<Rightarrow> sched \<Rightarrow> sched \<Rightarrow> bool" where
  "step_shape d s s' \<longleftrightarrow> quiet d s s' \<and> unat (timesliceTicks s') = unat (timesliceTicks s) + d \<or>
     (\<exists>s1. sched_mid s1 \<and> quiet d s s1 \<and> switched s1 s')"

lemma switch_shape:
  assumes "sched_mid s1" "quiet d s s1" "timesliceTicks s1 = timesliceTicks s" "unat (timesliceTicks s) \<le> 3"
    "sched_run s'" "switched s1 s'"
  shows "sched_inv s' \<and> step_shape d s s'"
  using assms by (auto simp: sched_inv_def step_shape_def switched_def)

lemma leave_shape:
  assumes "sched_inv s" "sched_mid s1" "quiet 0 s s1" "timesliceTicks s1 = timesliceTicks s"
  shows "\<exists>s'. sched_yield s1 = Inr s' \<and> sched_inv s' \<and> step_shape 0 s s'"
    "\<exists>s'. find_and_switch_thread s1 = Inr s' \<and> sched_inv s' \<and> step_shape 0 s s'"
  using yield_ok [OF assms(2)] find_and_switch_ok [OF assms(2)] switch_shape [OF assms(2-4)] assms(1) by (auto simp: sched_inv_def)

lemma current_ok: "sched_mid s \<Longrightarrow> current_thread s = Inr (CurrentThread s)"
  using sched_midD(3) [of s] by (simp add: current_thread_def getCurrentThread_def)

lemma block_shape:
  assumes "sched_inv s" "CurrentThread s \<noteq> IdleThread s"
  shows "\<exists>s'. sched_block cv s = Inr s' \<and> sched_inv s' \<and> step_shape 0 s s'"
proof -
  have run: "sched_run s" "sched_mid s" using assms(1) by (simp_all add: sched_inv_def sched_run_def)
  from sched_run_current [OF run(1) assms(2)] obtain th where th: "sc_threads s (CurrentThread s) = Some th" by blast
  define th' where "th' = th\<lparr>th_blockedOn := Some cv, th_state := BlockedOnCondition\<rparr>"
  define s1 where "s1 = s\<lparr>sc_threads := (sc_threads s)(CurrentThread s \<mapsto> th'), BlockedThreads := BlockedThreads s @ [CurrentThread s], DestructionQueue := DestructionQueue s\<rparr>"
  have "th_priority th' = th_priority th" "th_state th' = BlockedOnCondition" by (simp_all add: th'_def)
  then have m: "sched_mid s1" "quiet 0 s s1" "timesliceTicks s1 = timesliceTicks s" by (intro leave_ok [OF run(1) assms(2) th _ s1_def]; simp)+
  have "sched_block cv s = sched_yield s1"
  proof -
    let ?c = "CurrentThread s"
    have "locked_section (\<lambda>s. upd_thread ?c (\<lambda>th. th\<lparr>th_blockedOn := Some cv, th_state := BlockedOnCondition\<rparr>)
        (s\<lparr>BlockedThreads := BlockedThreads s @ [?c]\<rparr>)) s = Inr (s1\<lparr>sc_lock := False, numHeldLocks := 0\<rparr>)"
      using locked_section_ok [OF run(2), of _ "s1\<lparr>sc_lock := True, numHeldLocks := 1\<rparr>"] th by (simp add: upd_thread_Some s1_def th'_def)
    then show ?thesis by (simp only: sched_block_def current_ok [OF run(2)] bindE.simps unlocked [OF m(1)])
  qed
  with leave_shape(1) [OF assms(1) m] show ?thesis by simp
qed

lemma sleep_shape:
  assumes "sched_inv s" "CurrentThread s \<noteq> IdleThread s"
  shows "\<exists>s'. nanosleep ns s = Inr s' \<and> sched_inv s' \<and> step_shape 0 s s'"
proof -
  have run: "sched_run s" "sched_mid s" using assms(1) by (simp_all add: sched_inv_def sched_run_def)
  from sched_run_current [OF run(1) assms(2)] obtain th where th: "sc_threads s (CurrentThread s) = Some th" by blast
  define th' where "th' = th\<lparr>th_state := BlockedOnSleep, th_wakeUpTimestamp := getElapsedNanoseconds s + ns\<rparr>"
  define s1 where "s1 = s\<lparr>sc_threads := (sc_threads s)(CurrentThread s \<mapsto> th'), BlockedThreads := BlockedThreads s @ [CurrentThread s], DestructionQueue := DestructionQueue s\<rparr>"
  have "th_priority th' = th_priority th" "th_state th' = BlockedOnSleep" by (simp_all add: th'_def)
  then have m: "sched_mid s1" "quiet 0 s s1" "timesliceTicks s1 = timesliceTicks s" by (intro leave_ok [OF run(1) assms(2) th _ s1_def]; simp)+
  have "nanosleep ns s = sched_yield s1"
  proof -
    let ?c = "CurrentThread s"
    have "locked_section (\<lambda>s. bindE (upd_thread ?c (\<lambda>th. th\<lparr>th_state := BlockedOnSleep, th_wakeUpTimestamp := getElapsedNanoseconds s + ns\<rparr>) s) (\<lambda>s1.
       Inr (s1\<lparr>BlockedThreads := BlockedThreads s1 @ [?c]\<rparr>))) s = Inr (s1\<lparr>sc_lock := False, numHeldLocks := 0\<rparr>)"
      using locked_section_ok [OF run(2), of _ "s1\<lparr>sc_lock := True, numHeldLocks := 1\<rparr>"] th by (simp add: upd_thread_Some s1_def th'_def getElapsedNanoseconds_def)
    then show ?thesis by (simp only: nanosleep_def current_ok [OF run(2)] bindE.simps unlocked [OF m(1)])
  qed
  with leave_shape(1) [OF assms(1) m] show ?thesis by simp
qed

lemma exit_shape:
  assumes "sched_inv s" "CurrentThread s \<noteq> IdleThread s"
  shows "\<exists>s'. sched_exit s = Inr s' \<and> sched_inv s' \<and> step_shape 0 s s'" "\<exists>s'. crashFromException s = Inr s' \<and> sched_inv s' \<and> step_shape 0 s s'"
proof -
  have run: "sched_run s" "sched_mid s" using assms(1) by (simp_all add: sched_inv_def sched_run_def)
  from sched_run_current [OF run(1) assms(2)] obtain th where th: "sc_threads s (CurrentThread s) = Some th" by blast
  define th' where "th' = th\<lparr>th_state := AboutToExit\<rparr>"
  define s1 where "s1 = s\<lparr>sc_threads := (sc_threads s)(CurrentThread s \<mapsto> th'), BlockedThreads := BlockedThreads s, DestructionQueue := DestructionQueue s @ [CurrentThread s]\<rparr>"
  have "th_priority th' = th_priority th" "th_state th' = AboutToExit" by (simp_all add: th'_def)
  then have m: "sched_mid s1" "quiet 0 s s1" "timesliceTicks s1 = timesliceTicks s" by (intro leave_ok [OF run(1) assms(2) th _ s1_def]; simp)+
  have "locked_section (condemn (CurrentThread s)) s = Inr (s1\<lparr>sc_lock := False, numHeldLocks := 0\<rparr>)"
    using locked_section_ok [OF run(2), of _ "s1\<lparr>sc_lock := True, numHeldLocks := 1\<rparr>"] th by (simp add: condemn_def upd_thread_Some s1_def th'_def)
  then have "sched_exit s = sched_yield s1" "crashFromException s = find_and_switch_thread s1"
    by (simp_all only: sched_exit_def crashFromException_def current_ok [OF run(2)] bindE.simps unlocked [OF m(1)])
  with leave_shape [OF assms(1) m] show "\<exists>s'. sched_exit s = Inr s' \<and> sched_inv s' \<and> step_shape 0 s s'" "\<exists>s'. crashFromException s = Inr s' \<and> sched_inv s' \<and> step_shape 0 s s'" by simp_all
qed

lemma notify_shape:
  assumes "sched_inv s"
  shows "\<exists>s'. sched_notify cv all s = Inr s' \<and> sched_inv s' \<and> step_shape 0 s s'"
proof -
  have run: "sched_run s" "sched_mid s" using assms by (simp_all add: sched_inv_def sched_run_def)
  note d = sched_midD [OF run(2)]
  let ?s = "s\<lparr>sc_lock := True, numHeldLocks := 1\<rparr>"
  have "\<forall>t\<in>set (BlockedThreads s). sc_threads ?s t \<noteq> None" using run(2) d(9) by (auto simp: sched_mid_def)
  from notify_from_ok [OF d(8) this, of cv all] obtain rest m where
    r: "notify_from cv all (BlockedThreads s) ?s = Inr (rest, ?s\<lparr>sc_threads := m\<rparr>)" "wake_rel (BlockedThreads s) rest (sc_threads s) m" by auto
  define s1 where "s1 = s\<lparr>sc_threads := m, BlockedThreads := rest\<rparr>"
  note w = wake_ok [OF run(2) r(2) s1_def]
  have "sched_notify cv all s = Inr (s1\<lparr>sc_lock := False, numHeldLocks := 0\<rparr>)"
    using d(3) locked_section_ok [OF run(2), of _ "s1\<lparr>sc_lock := True, numHeldLocks := 1\<rparr>"] r(1) by (simp add: sched_notify_def s1_def)
  then have "sched_notify cv all s = Inr s1" by (simp only: unlocked [OF w(1)])
  moreover have "timesliceTicks s1 = timesliceTicks s" by (simp add: s1_def)
  ultimately show ?thesis using w(2,3) run(1) assms by (auto simp: sched_inv_def step_shape_def)
qed

lemma destroy_shape:
  assumes "sched_inv s"
  shows "\<exists>s'. destroy_next s = Inr s' \<and> sched_inv s' \<and> step_shape 0 s s'"
proof (cases "DestructionQueue s")
  case Nil
  then show ?thesis using assms quiet_refl by (auto simp: destroy_next_def step_shape_def)
next
  case (Cons x xs)
  have run: "sched_run s" "sched_mid s" using assms by (simp_all add: sched_inv_def sched_run_def)
  note d = sched_midD [OF run(2)]
  have "x \<in> set (ThreadList s)" using d(11) Cons by simp
  from sched_mid_thread [OF run(2) disjI2 [OF this]] obtain th where th: "sc_threads s x = Some th" "thread_ok s x th" by blast
  then have st: "th_state th = AboutToExit" "x \<notin> set xs" "x \<notin> set (BlockedThreads s)" using Cons d(10) by (auto simp: thread_ok_def)
  have ne: "x \<noteq> IdleThread s" "x \<noteq> CurrentThread s" using d(6) \<open>x \<in> set (ThreadList s)\<close> run(1) th(1) st by (auto simp: sched_run_def)
  define s1 where "s1 = s\<lparr>DestructionQueue := xs, ThreadList := removeAll x (ThreadList s), sc_threads := (sc_threads s)(x := None)\<rparr>"
  have mid: "sched_mid s1"
  proof (rule sched_midI)
    fix t assume t: "t = IdleThread s1 \<or> t \<in> set (ThreadList s1)"
    then have "t = IdleThread s \<or> t \<in> set (ThreadList s)" "t \<noteq> x" using ne(1) by (auto simp: s1_def)
    then obtain tt where "sc_threads s t = Some tt" "thread_ok s t tt" using sched_mid_thread [OF run(2)] by blast
    then show "\<exists>th. sc_threads s1 t = Some th \<and> thread_ok s1 t th" using \<open>t \<noteq> x\<close> Cons by (auto simp: s1_def thread_ok_def)
  qed (use d ne st Cons in \<open>auto simp: s1_def distinct_removeAll\<close>)
  have "sched_run s1" using mid run(1) ne by (simp add: sched_run_def s1_def)
  moreover have "quiet 0 s s1" using th(1) st(1) by (auto simp: quiet_def ready_def prio_def s1_def)
  moreover have "destroy_next s = Inr s1"
  proof -
    have "locked_section (\<lambda>s. Inr (s\<lparr>DestructionQueue := tl (DestructionQueue s), ThreadList := removeAll x (ThreadList s)\<rparr>)) s =
        Inr (s\<lparr>DestructionQueue := xs, ThreadList := removeAll x (ThreadList s), sc_lock := False, numHeldLocks := 0\<rparr>)"
      by (subst locked_section_ok [OF run(2) refl]) (simp_all add: Cons)
    then show ?thesis using th(1) d(1,2) by (simp add: destroy_next_def Cons get_thread_def s1_def)
  qed
  ultimately show ?thesis using assms by (auto simp: sched_inv_def step_shape_def s1_def)
qed

lemma tick_shape:
  assumes "sched_inv s" "Suc (unat (tickCounter s)) < 2 ^ 40"
  shows "\<exists>s'. tick_handler s = Inr s' \<and> sched_inv s' \<and> step_shape 1 s s'"
proof -
  have run: "sched_run s" "sched_mid s" using assms(1) by (simp_all add: sched_inv_def sched_run_def)
  define s0 where "s0 = s\<lparr>tickCounter := tickCounter s + 1, timesliceTicks := timesliceTicks s + 1\<rparr>"
  have n: "unat (tickCounter s0) = Suc (unat (tickCounter s))" "unat (timesliceTicks s0) = Suc (unat (timesliceTicks s))"
    using assms by (simp_all add: s0_def unat_add_nowrap sched_inv_def)
  have mid0: "sched_mid s0"
  proof (rule sched_midI)
    fix t assume "t = IdleThread s0 \<or> t \<in> set (ThreadList s0)"
    then have "t = IdleThread s \<or> t \<in> set (ThreadList s)" by (simp add: s0_def)
    from sched_mid_thread [OF run(2) this] obtain tt where tt: "sc_threads s t = Some tt" "thread_ok s t tt" by blast
    then have "thread_ok s0 t tt" using n(1) by (auto simp: thread_ok_def s0_def intro: prio_ok_mono)
    then show "\<exists>th. sc_threads s0 t = Some th \<and> thread_ok s0 t th" using tt(1) by (simp add: s0_def)
  qed (use sched_midD [OF run(2)] n assms(2) in \<open>simp_all add: s0_def\<close>)
  have q0: "quiet 1 s s0" using n by (simp add: quiet_def s0_def ready_def prio_def)
  have run0: "sched_run s0" using mid0 run(1) by (simp add: sched_run_def s0_def)
  note d = sched_midD [OF mid0]
  have "\<forall>t\<in>set (BlockedThreads s0). sc_threads s0 t \<noteq> None" using mid0 d(9) by (auto simp: sched_mid_def)
  from wake_from_ok [OF d(8) this] obtain woke rest m where
    r: "wake_from (getElapsedNanoseconds s0) (BlockedThreads s0) s0 = Inr (woke, rest, s0\<lparr>sc_threads := m\<rparr>)" "wake_rel (BlockedThreads s0) rest (sc_threads s0) m" by blast
  define s1 where "s1 = s0\<lparr>sc_threads := m, BlockedThreads := rest\<rparr>"
  note w = wake_ok [OF mid0 r(2) s1_def]
  have q1: "quiet 1 s s1" using quiet_trans [OF q0 w(2)] by simp
  have ts1: "unat (timesliceTicks s1) = Suc (unat (timesliceTicks s))" "numHeldLocks s1 = 0" using n(2) d(2) by (simp_all add: s1_def)
  define ret where "ret \<longleftrightarrow> woke \<or> expediteSchedule s1 \<or> timesliceTicks s1 * NS_PER_TICK \<ge> TIMESLICE_DURATION_NS"
  define s2 where "s2 = s1\<lparr>expediteSchedule := False\<rparr>"
  have t: "scheduler_tick s = Inr (ret, if ret then s2\<lparr>timesliceTicks := 0\<rparr> else s2)"
    using r(1) ts1(2) by (simp add: scheduler_tick_def wakeUpThreads_def s0_def [symmetric] s1_def ret_def s2_def Let_def)
  show ?thesis
  proof (cases ret)
    case True
    let ?s = "s2\<lparr>timesliceTicks := 0\<rparr>"
    have m2: "sched_mid ?s" "quiet 1 s ?s" using w(1) q1 by (simp_all add: s2_def)
    from find_and_switch_ok [OF m2(1)] obtain s' where s': "find_and_switch_thread ?s = Inr s'" "sched_run s'" "switched ?s s'" by blast
    have "sched_inv s'" using s'(2,3) by (simp add: sched_inv_def switched_def)
    moreover have "step_shape 1 s s'" using m2 s'(3) unfolding step_shape_def by blast
    ultimately show ?thesis using t True s'(1) by (simp add: tick_handler_def)
  next
    case False
    have "unat (timesliceTicks s1 * NS_PER_TICK) = unat (timesliceTicks s1) * 1000000"
      using ts1(1) assms(1) by (subst unat_mul_nowrap) (simp_all add: NS_PER_TICK_def sched_inv_def)
    with False have "unat (timesliceTicks s1) \<le> 3" by (simp add: ret_def word_le_nat_alt TIMESLICE_DURATION_NS_def)
    then have "sched_inv s2" "step_shape 1 s s2" using w(3) [OF run0] q1 ts1(1) by (simp_all add: sched_inv_def s2_def step_shape_def)
    then show ?thesis using t False by (simp add: tick_handler_def)
  qed
qed

lemma kstep_ok:
  assumes "sched_inv s" "k = KTick \<Longrightarrow> Suc (unat (tickCounter s)) < 2 ^ 40"
  shows "\<exists>s'. kstep k s = Inr s' \<and> sched_inv s' \<and> step_shape (if k = KTick then 1 else 0) s s'"
proof (cases "k = KTick")
  case True
  with tick_shape [OF assms(1)] assms(2) show ?thesis by (simp add: kstep_def)
next
  case False
  show ?thesis
  proof (cases "CurrentThread s = IdleThread s")
    case True
    then show ?thesis using False assms(1) quiet_refl by (auto simp: kstep_def step_shape_def)
  next
    case idle: False
    have mid: "sched_mid s" using assms(1) by (simp add: sched_inv_def sched_run_def)
    have k: "kstep k s = kcall k s" using False idle by (simp add: kstep_def)
    show ?thesis unfolding k
      using leave_shape(1) [OF assms(1) mid quiet_refl refl] block_shape [OF assms(1) idle] sleep_shape [OF assms(1) idle] notify_shape [OF assms(1)]
        exit_shape [OF assms(1) idle] destroy_shape [OF assms(1)] False by (cases k) auto
  qed
qed

section \<open>Every ready thread runs\<close>

lemma shape_tick: "step_shape d s s' \<Longrightarrow> unat (tickCounter s') = unat (tickCounter s) + d"
  by (auto simp: step_shape_def quiet_def switched_def)

lemma shape_list: "step_shape d s s' \<Longrightarrow> set (ThreadList s') \<subseteq> set (ThreadList s)"
  by (auto simp: step_shape_def quiet_def switched_def)

lemma shape_wait:
  assumes "step_shape d s s'" "ready s t" "t \<noteq> CurrentThread s"
  shows "CurrentThread s' = t \<or> ready s' t \<and> t \<noteq> CurrentThread s' \<and> sc_threads s' t = sc_threads s t"
proof -
  from assms(1) consider "quiet d s s'" | s1 where "quiet d s s1" "switched s1 s'" by (auto simp: step_shape_def)
  then show ?thesis
  proof cases
    case 1
    with assms(2,3) show ?thesis by (auto simp: quiet_def)
  next
    case (2 s1)
    with assms(2,3) have w: "ready s1 t" "sc_threads s1 t = sc_threads s t" "t \<noteq> CurrentThread s1" by (auto simp: quiet_def)
    show ?thesis
    proof (cases "CurrentThread s' = t")
      case False
      with 2(2) w(3) have "sc_threads s' t = sc_threads s1 t" "ThreadList s' = ThreadList s1" by (auto simp: switched_def)
      with w False show ?thesis by (auto simp: ready_def)
    qed simp
  qed
qed

text \<open>A run goes on, or it reaches a state in which the thread runs.\<close>

lemma run_until:
  assumes step: "\<And>k s. \<lbrakk>P s; k = KTick \<Longrightarrow> Suc (unat (tickCounter s)) < 2 ^ 40\<rbrakk> \<Longrightarrow>
      \<exists>s'. kstep k s = Inr s' \<and> (CurrentThread s' = t \<or> P s') \<and> unat (tickCounter s') = unat (tickCounter s) + (if k = KTick then 1 else 0)"
    and "P s" "unat (tickCounter s) + ticks ops < 2 ^ 40"
  shows "(\<exists>pre post s'. ops = pre @ post \<and> foldE kstep pre s = Inr s' \<and> CurrentThread s' = t) \<or>
    (\<exists>s'. foldE kstep ops s = Inr s' \<and> P s' \<and> unat (tickCounter s') = unat (tickCounter s) + ticks ops)"
  using assms(2,3)
proof (induction ops arbitrary: s)
  case Nil
  then show ?case by (simp add: ticks_def)
next
  case (Cons k ops)
  have tk: "ticks (k # ops) = (if k = KTick then 1 else 0) + ticks ops" by (simp add: ticks_def)
  have "Suc (unat (tickCounter s)) < 2 ^ 40" if "k = KTick" using Cons.prems(2) that unfolding tk by simp
  from step [OF Cons.prems(1) this] obtain s1 where
    s1: "kstep k s = Inr s1" "CurrentThread s1 = t \<or> P s1" "unat (tickCounter s1) = unat (tickCounter s) + (if k = KTick then 1 else 0)" by blast
  show ?case
  proof (cases "CurrentThread s1 = t")
    case True
    with s1(1) show ?thesis by (intro disjI1 exI [of _ "[k]"] exI [of _ ops] exI [of _ s1]) simp
  next
    case False
    with s1(2) have "P s1" by simp
    moreover have "unat (tickCounter s1) + ticks ops < 2 ^ 40" using Cons.prems(2) s1(3) tk by simp
    ultimately have "(\<exists>pre post s'. ops = pre @ post \<and> foldE kstep pre s1 = Inr s' \<and> CurrentThread s' = t) \<or>
        (\<exists>s'. foldE kstep ops s1 = Inr s' \<and> P s' \<and> unat (tickCounter s') = unat (tickCounter s1) + ticks ops)" by (rule Cons.IH)
    then show ?thesis
    proof
      assume "\<exists>pre post s'. ops = pre @ post \<and> foldE kstep pre s1 = Inr s' \<and> CurrentThread s' = t"
      then obtain pre post s' where "ops = pre @ post" "foldE kstep pre s1 = Inr s'" "CurrentThread s' = t" by blast
      with s1(1) show ?thesis by (intro disjI1 exI [of _ "k # pre"] exI [of _ post] exI [of _ s']) simp
    next
      assume "\<exists>s'. foldE kstep ops s1 = Inr s' \<and> P s' \<and> unat (tickCounter s') = unat (tickCounter s1) + ticks ops"
      with s1 tk show ?thesis by (intro disjI2) auto
    qed
  qed
qed

definition waiting :: "tid \<Rightarrow> u64 \<Rightarrow> tid set \<Rightarrow> sched \<Rightarrow> bool" where
  "waiting t l0 A s \<longleftrightarrow> sched_inv s \<and> ready s t \<and> t \<noteq> CurrentThread s \<and> lastScheduled (prio s t) = l0 \<and> set (ThreadList s) \<subseteq> A"

lemma waiting_step:
  assumes "waiting t l0 A s" "k = KTick \<Longrightarrow> Suc (unat (tickCounter s)) < 2 ^ 40"
  shows "\<exists>s'. kstep k s = Inr s' \<and> step_shape (if k = KTick then 1 else 0) s s' \<and> sched_inv s' \<and> (CurrentThread s' = t \<or> waiting t l0 A s')"
proof -
  from assms(1) have w: "sched_inv s" "ready s t" "t \<noteq> CurrentThread s" "lastScheduled (prio s t) = l0" "set (ThreadList s) \<subseteq> A" by (simp_all add: waiting_def)
  from kstep_ok [OF w(1) assms(2)] obtain s' where s': "kstep k s = Inr s'" "sched_inv s'" "step_shape (if k = KTick then 1 else 0) s s'" by blast
  with shape_wait [OF s'(3) w(2,3)] shape_list [OF s'(3)] w(4,5) show ?thesis by (auto simp: waiting_def prio_def)
qed

text \<open>
  The threads \<open>R\<close> that were chosen since tick \<open>T\<close> cannot be chosen again before the waiting thread, so four ticks
  need one new thread each.
\<close>

definition window :: "tid \<Rightarrow> u64 \<Rightarrow> tid set \<Rightarrow> nat \<Rightarrow> tid set \<Rightarrow> sched \<Rightarrow> bool" where
  "window t l0 A T R s \<longleftrightarrow> waiting t l0 A s \<and> R \<subseteq> A - {t} \<and> T \<le> unat (tickCounter s) \<and>
     unat (tickCounter s) - T \<le> 4 * card R + unat (timesliceTicks s) \<and>
     (\<forall>u\<in>R \<inter> set (ThreadList s). T * 1000000 \<le> unat (lastScheduled (prio s u)))"

lemma aging:
  assumes "T + 4 * N \<ge> now" "L + (1071 + 6 * N) * 1000000 \<le> T * (1000000::nat)" "T \<le> now"
  shows "162000 + (now * 1000000 - T * 1000000) div 7000 < 50000 + (now * 1000000 - L) div 9000"
proof -
  have "(now * 1000000 - T * 1000000) div 7000 \<le> (7000 * (572 * N)) div 7000" using assms(1) by (intro div_le_mono) simp
  also have "\<dots> = 572 * N" by simp
  finally have a: "(now * 1000000 - T * 1000000) div 7000 \<le> 572 * N" .
  have "(9000 * (119000 + 666 * N)) div 9000 \<le> (now * 1000000 - L) div 9000" using assms(2,3) by (intro div_le_mono) simp
  then have "119000 + 666 * N \<le> (now * 1000000 - L) div 9000" by simp
  with a show ?thesis by linarith
qed

lemma chosen_is_new:
  assumes "sched_mid s1" "ready s1 t" "ready s1 u \<or> u \<in> set (ThreadList s1)" "eff s1 t \<le> eff s1 u"
    "unat (lastScheduled (prio s1 t)) + (1071 + 6 * N) * 1000000 \<le> T * 1000000" "T \<le> unat (tickCounter s1)" "unat (tickCounter s1) \<le> T + 4 * N"
  shows "unat (lastScheduled (prio s1 u)) < T * 1000000"
proof (rule ccontr)
  assume "\<not> ?thesis"
  then have u: "T * 1000000 \<le> unat (lastScheduled (prio s1 u))" by simp
  note d = sched_midD [OF assms(1)]
  have e: "unat (getElapsedNanoseconds s1) = now_ns s1" "unat (getElapsedNanoseconds s1) < 2 ^ 61" using elapsed_nat [OF d(4)] by simp_all
  have ok: "prio_ok (unat (getElapsedNanoseconds s1)) (prio s1 v)" if "v \<in> set (ThreadList s1)" for v
  proof -
    from sched_mid_thread [OF assms(1) disjI2 [OF that]] obtain th where "sc_threads s1 v = Some th" "thread_ok s1 v th" by blast
    then show ?thesis unfolding e(1) by (simp add: thread_ok_def prio_def)
  qed
  have l: "t \<in> set (ThreadList s1)" "u \<in> set (ThreadList s1)" using assms(2,3) by (auto simp: ready_def)
  have "eff s1 u \<le> 162000 + (now_ns s1 - unat (lastScheduled (prio s1 u))) div 7000"
    using effective_bounds(2) [OF ok [OF l(2)] e(2)] e(1) by (simp add: eff_def prio_def)
  also have "\<dots> \<le> 162000 + (now_ns s1 - T * 1000000) div 7000" using u by (intro add_left_mono div_le_mono) simp
  also have "\<dots> < 50000 + (now_ns s1 - unat (lastScheduled (prio s1 t))) div 9000" by (rule aging [OF assms(7,5,6)])
  also have "\<dots> \<le> eff s1 t" using effective_bounds(1) [OF ok [OF l(1)] e(2)] e(1) by (simp add: eff_def prio_def)
  finally show False using assms(4) by simp
qed

lemma window_step:
  assumes "window t l0 A T R s" "finite A" "t \<in> A" "unat l0 + (1071 + 6 * card A) * 1000000 \<le> T * 1000000" "k = KTick \<Longrightarrow> Suc (unat (tickCounter s)) < 2 ^ 40"
  shows "\<exists>s'. kstep k s = Inr s' \<and> (CurrentThread s' = t \<or> (\<exists>R'. window t l0 A T R' s')) \<and> unat (tickCounter s') = unat (tickCounter s) + (if k = KTick then 1 else 0)"
proof -
  let ?d = "if k = KTick then 1 else (0::nat)"
  from assms(1) have w: "waiting t l0 A s" "R \<subseteq> A - {t}" "T \<le> unat (tickCounter s)" "unat (tickCounter s) - T \<le> 4 * card R + unat (timesliceTicks s)"
    "\<forall>u\<in>R \<inter> set (ThreadList s). T * 1000000 \<le> unat (lastScheduled (prio s u))" by (simp_all add: window_def)
  from waiting_step [OF w(1) assms(5)] obtain s' where s': "kstep k s = Inr s'" "step_shape ?d s s'" "sched_inv s'" "CurrentThread s' = t \<or> waiting t l0 A s'" by blast
  have tk: "unat (tickCounter s') = unat (tickCounter s) + ?d" by (rule shape_tick [OF s'(2)])
  have fin: "finite R" using w(2) assms(2) by (auto intro: finite_subset)
  have "card R \<le> card (A - {t})" using w(2) assms(2) by (intro card_mono) auto
  then have cR: "Suc (card R) \<le> card A" using assms(2,3) by (metis card_Suc_Diff1 Suc_le_mono)
  have ts: "unat (timesliceTicks s) \<le> 3" using w(1) by (simp add: waiting_def sched_inv_def)
  have "CurrentThread s' = t \<or> (\<exists>R'. window t l0 A T R' s')"
  proof (cases "CurrentThread s' = t")
    case False
    with s'(4) have w': "waiting t l0 A s'" by simp
    from s'(2) consider "quiet ?d s s'" "unat (timesliceTicks s') = unat (timesliceTicks s) + ?d" | s1 where "sched_mid s1" "quiet ?d s s1" "switched s1 s'"
      unfolding step_shape_def by blast
    then show ?thesis
    proof cases
      case 1
      then have "window t l0 A T R s'" using w w' tk by (auto simp: window_def quiet_def)
      then show ?thesis by blast
    next
      case (2 s1)
      let ?u = "CurrentThread s'"
      from w(1) have ws: "ready s t" "t \<noteq> CurrentThread s" "lastScheduled (prio s t) = l0" "set (ThreadList s) \<subseteq> A" by (simp_all add: waiting_def)
      with 2(2) have t1: "ready s1 t" "sc_threads s1 t = sc_threads s t" "set (ThreadList s1) \<subseteq> A" by (auto simp: quiet_def)
      from 2(3) t1(1) have u: "?u \<in> set (ThreadList s1)" "eff s1 t \<le> eff s1 ?u" "tickCounter s' = tickCounter s1" "ThreadList s' = ThreadList s1"
        "lastScheduled (prio s' ?u) = getElapsedNanoseconds s1" "\<forall>v. v \<noteq> ?u \<longrightarrow> prio s' v = prio s1 v" by (auto simp: switched_def)
      have same: "lastScheduled (prio s1 v) = lastScheduled (prio s v)" "v \<in> set (ThreadList s)" if "v \<in> set (ThreadList s1)" for v using 2(2) that by (auto simp: quiet_def)
      have "unat (lastScheduled (prio s1 ?u)) < T * 1000000"
        by (rule chosen_is_new [OF 2(1) t1(1) disjI2 [OF u(1)] u(2), of "card A"])
          (use assms(4) ws(3) t1(2) w(3,4) tk u(3) cR ts in \<open>auto simp: prio_def\<close>)
      then have new: "?u \<notin> R" using bspec [OF w(5), of ?u] same [OF u(1)] by auto
      have now: "T * 1000000 \<le> unat (getElapsedNanoseconds s1)" using elapsed_nat [OF sched_midD(4) [OF 2(1)]] tk u(3) w(3) by auto
      have "T * 1000000 \<le> unat (lastScheduled (prio s' v))" if "v \<in> insert ?u R \<inter> set (ThreadList s')" for v
      proof (cases "v = ?u")
        case True
        then show ?thesis using now u(5) by simp
      next
        case False
        with that u(4) have v: "v \<in> R" "v \<in> set (ThreadList s1)" by auto
        with bspec [OF w(5), of v] same [OF v(2)] u(6) False show ?thesis by simp
      qed
      moreover have "insert ?u R \<subseteq> A - {t}" using u(1) t1(3) w(2) False by auto
      moreover have "unat (tickCounter s') - T \<le> 4 * card (insert ?u R) + unat (timesliceTicks s')"
      proof -
        have "unat (tickCounter s') \<le> unat (tickCounter s) + 1" using tk by simp
        then show ?thesis using w(3,4) ts new fin by simp
      qed
      ultimately have "window t l0 A T (insert ?u R) s'" using w' w(3) tk by (simp add: window_def)
      then show ?thesis by blast
    qed
  qed simp
  with s'(1) tk show ?thesis by blast
qed

lemma window_bound:
  assumes "window t l0 A T R s" "finite A" "t \<in> A"
  shows "unat (tickCounter s) < T + 4 * card A"
proof -
  from assms(1) have w: "R \<subseteq> A - {t}" "T \<le> unat (tickCounter s)" "unat (tickCounter s) - T \<le> 4 * card R + unat (timesliceTicks s)" "unat (timesliceTicks s) \<le> 3"
    by (simp_all add: window_def waiting_def sched_inv_def)
  have "card R \<le> card (A - {t})" using w(1) assms(2) by (intro card_mono) auto
  then have "Suc (card R) \<le> card A" using assms(2,3) by (metis card_Suc_Diff1 Suc_le_mono)
  with w(2-4) show ?thesis by linarith
qed

lemma ticks_append: "ticks (xs @ ys) = ticks xs + ticks ys"
  by (simp add: ticks_def)

lemma ticks_split: "n \<le> ticks ops \<Longrightarrow> \<exists>xs ys. ops = xs @ ys \<and> ticks xs = n"
proof (induction ops arbitrary: n)
  case Nil
  then show ?case by (simp add: ticks_def)
next
  case (Cons k ops)
  show ?case
  proof (cases "n = 0")
    case True
    then show ?thesis by (intro exI [of _ "[]"] exI [of _ "k # ops"]) (simp add: ticks_def)
  next
    case False
    let ?d = "if k = KTick then 1 else (0::nat)"
    have k: "ticks (k # zs) = ?d + ticks zs" for zs by (simp add: ticks_def)
    have "n - ?d \<le> ticks ops" using Cons.prems by (simp add: k)
    from Cons.IH [OF this] obtain xs ys where "ops = xs @ ys" "ticks xs = n - ?d" by blast
    then have "k # ops = (k # xs) @ ys" "ticks (k # xs) = n" using False by (simp_all add: k)
    then show ?thesis by blast
  qed
qed

lemma waiting_run:
  assumes "waiting t l A s" "unat (tickCounter s) + ticks ops < 2 ^ 40"
  shows "(\<exists>pre post s'. ops = pre @ post \<and> foldE kstep pre s = Inr s' \<and> CurrentThread s' = t) \<or>
    (\<exists>s'. foldE kstep ops s = Inr s' \<and> waiting t l A s' \<and> unat (tickCounter s') = unat (tickCounter s) + ticks ops)"
proof (rule run_until [where P = "waiting t l A", OF _ assms])
  fix k s assume "waiting t l A s" "k = KTick \<Longrightarrow> Suc (unat (tickCounter s)) < 2 ^ 40"
  from waiting_step [OF this] obtain s' where s': "kstep k s = Inr s'" "step_shape (if k = KTick then 1 else 0) s s'" "CurrentThread s' = t \<or> waiting t l A s'" by blast
  with shape_tick [OF s'(2)] show "\<exists>s'. kstep k s = Inr s' \<and> (CurrentThread s' = t \<or> waiting t l A s') \<and> unat (tickCounter s') = unat (tickCounter s) + (if k = KTick then 1 else 0)" by blast
qed

lemma window_run:
  assumes "\<exists>R. window t l A T R s" "finite A" "t \<in> A" "unat l + (1071 + 6 * card A) * 1000000 \<le> T * 1000000" "unat (tickCounter s) + ticks ops < 2 ^ 40"
  shows "(\<exists>pre post s'. ops = pre @ post \<and> foldE kstep pre s = Inr s' \<and> CurrentThread s' = t) \<or>
    (\<exists>s'. foldE kstep ops s = Inr s' \<and> (\<exists>R. window t l A T R s') \<and> unat (tickCounter s') = unat (tickCounter s) + ticks ops)"
proof (rule run_until [where P = "\<lambda>s. \<exists>R. window t l A T R s", OF _ assms(1,5)])
  fix k s assume "\<exists>R. window t l A T R s" and k: "k = KTick \<Longrightarrow> Suc (unat (tickCounter s)) < 2 ^ 40"
  then obtain R where "window t l A T R s" by blast
  from window_step [OF this assms(2-4) k]
  show "\<exists>s'. kstep k s = Inr s' \<and> (CurrentThread s' = t \<or> (\<exists>R. window t l A T R s')) \<and> unat (tickCounter s') = unat (tickCounter s) + (if k = KTick then 1 else 0)" by blast
qed



text \<open>
  C35: A thread that is terminated while it is blocked stays in the list of blocked threads after it was
  destroyed, and the next tick reads the object that no longer exists.
\<close>

theorem terminated_thread_dangles:
  assumes "sched_inv s" and "t \<in> set (BlockedThreads s)" and "DestructionQueue s = []"
  shows "bindE (terminate t s) (\<lambda>s1. bindE (destroy_next s1) tick_handler) = Inl OutOfBounds"
proof -
  have run: "sched_run s" "sched_mid s" using assms(1) by (simp_all add: sched_inv_def sched_run_def)
  note d = sched_midD [OF run(2)]
  from assms(2) d(9) have tl: "t \<in> set (ThreadList s)" by auto
  from sched_mid_thread [OF run(2) disjI2 [OF tl]] obtain th where th: "sc_threads s t = Some th" "thread_ok s t th" by blast
  then have ne: "t \<noteq> CurrentThread s" using run(1) assms(2) d(6) tl by (auto simp: thread_ok_def sched_run_def)
  define s1 where "s1 = s\<lparr>sc_threads := (sc_threads s)(t \<mapsto> th\<lparr>th_state := AboutToExit\<rparr>), DestructionQueue := [t]\<rparr>"
  have unl: "s1\<lparr>sc_lock := False, numHeldLocks := 0\<rparr> = s1" using d(1,2) by (simp add: s1_def)
  have "locked_section (condemn t) s = Inr (s1\<lparr>sc_lock := False, numHeldLocks := 0\<rparr>)"
    using locked_section_ok [OF run(2), of _ "s1\<lparr>sc_lock := True, numHeldLocks := 1\<rparr>"] th(1) assms(3) by (simp add: condemn_def upd_thread_Some s1_def)
  then have t1: "terminate t s = Inr s1" using ne unfolding unl by (simp add: terminate_def s1_def getCurrentThread_def)
  define s2 where "s2 = s1\<lparr>DestructionQueue := [], ThreadList := removeAll t (ThreadList s), sc_threads := (sc_threads s)(t := None)\<rparr>"
  have t2: "destroy_next s1 = Inr s2"
    using d(1,2) by (simp add: destroy_next_def s1_def s2_def locked_section_def sched_pause_def unpause_def isPaused_def get_thread_def)
  have w: "wake_from now ts s' = Inl OutOfBounds"
    if "t \<in> set ts" "sc_threads s' t = None" "\<forall>u\<in>set ts. u \<noteq> t \<longrightarrow> sc_threads s' u \<noteq> None" for now ts s'
    using that
  proof (induction ts arbitrary: s')
    case (Cons u ts)
    show ?case
    proof (cases "u = t")
      case True
      then show ?thesis using Cons.prems(2) by (simp add: get_thread_def)
    next
      case False
      with Cons.prems obtain tu where u: "sc_threads s' u = Some tu" by auto
      have "wake_from now ts s' = Inl OutOfBounds" using Cons.IH [of s'] Cons.prems False by auto
      moreover have "wake_from now ts (s'\<lparr>sc_threads := (sc_threads s')(u \<mapsto> tu')\<rparr>) = Inl OutOfBounds" for tu'
        using Cons.IH [of "s'\<lparr>sc_threads := (sc_threads s')(u \<mapsto> tu')\<rparr>"] Cons.prems False by auto
      ultimately show ?thesis using u by (simp add: get_thread_def upd_thread_Some)
    qed
  qed simp
  have "\<forall>u\<in>set (BlockedThreads s). u \<noteq> t \<longrightarrow> sc_threads s2 u \<noteq> None" using run(2) d(9) by (auto simp: sched_mid_def s2_def)
  then have "tick_handler s2 = Inl OutOfBounds" using assms(2)
    by (simp add: tick_handler_def scheduler_tick_def wakeUpThreads_def w s2_def s1_def)
  with t1 t2 show ?thesis by simp
qed

section \<open>Examples\<close>

text \<open>A processor with an idle thread, a running thread and two ready ones.\<close>

definition sched_demo :: sched where
  "sched_demo = (sched_start (addThread 3 (addThread 2 (sched_init 0 1))))
     \<lparr>sc_threads := [0 \<mapsto> new_thread, 1 \<mapsto> new_thread\<lparr>th_state := Running\<rparr>, 2 \<mapsto> new_thread\<lparr>th_priority := prio_low\<rparr>, 3 \<mapsto> new_thread\<lparr>th_priority := prio_high\<rparr>],
      CurrentThread := 1\<rparr>"

lemma sched_demo_inv: "sched_inv sched_demo"
  by (auto simp: sched_inv_def sched_run_def sched_mid_def thread_ok_def sched_demo_def sched_start_def addThread_def sched_init_def new_thread_def prio_ok_new)
    (auto simp: prio_normal_def prio_low_def prio_high_def)



definition blocked_demo :: sched where
  "blocked_demo = sched_demo\<lparr>BlockedThreads := [2], sc_threads := (sc_threads sched_demo)(2 \<mapsto> new_thread\<lparr>th_state := BlockedOnCondition, th_blockedOn := Some 7\<rparr>)\<rparr>"

lemma blocked_demo_inv: "sched_inv blocked_demo"
  by (auto simp: blocked_demo_def sched_inv_def sched_run_def sched_mid_def thread_ok_def sched_demo_def sched_start_def addThread_def sched_init_def new_thread_def prio_ok_new)
    (auto simp: prio_normal_def prio_low_def prio_high_def)

theorem terminated_thread_dangles_witness:
  "bindE (terminate 2 blocked_demo) (\<lambda>s1. bindE (destroy_next s1) tick_handler) = Inl OutOfBounds"
  using terminated_thread_dangles [OF blocked_demo_inv, of 2] by (simp add: blocked_demo_def sched_demo_def sched_start_def addThread_def sched_init_def)

end
