(* ===== verification/Spinlock.thy ===== *)
theory Spinlock
  imports Sched
begin

text \<open>
  The atomic operations of \<^verbatim>\<open>kernel/source/arch/x86_64/atomic\<close> and the spinlock of
  \<^verbatim>\<open>kernel/source/scheduler/synchro.cpp\<close>, run by several processors. A step of a processor is the code up to and
  including its next access to shared memory, so that every interleaving of the accesses is a run of the model.
\<close>

section \<open>Atomic operations\<close>

text \<open>The instruction \<^verbatim>\<open>lock cmpxchgq new, (mem)\<close>: the zero flag, \<^verbatim>\<open>rax\<close> and the memory afterwards.\<close>

definition cmpxchg :: "u64 \<Rightarrow> u64 \<Rightarrow> u64 \<Rightarrow> bool \<times> u64 \<times> u64" where
  "cmpxchg rax new mem = (if mem = rax then (True, rax, new) else (False, mem, mem))"

definition atomic_cas :: "u64 \<Rightarrow> u64 \<Rightarrow> u64 \<Rightarrow> bool \<times> u64" where
  "atomic_cas mem expected new = (case cmpxchg expected new mem of (zf, _, mem') \<Rightarrow> (zf, mem'))"

definition atomic_store :: "u64 \<Rightarrow> u64 \<Rightarrow> u64 \<times> u64" where
  "atomic_store mem v = (mem, v)"

section \<open>Processors\<close>

text \<open>Where a processor is: outside the lock, at a point of \<^verbatim>\<open>lock\<close>, \<^verbatim>\<open>unlock\<close> or \<^verbatim>\<open>trylock\<close>, or holding the lock.\<close>

datatype spc = SpOut | SpCheck | CasFirst | CasSpin | CasRetry | CasTaken | SpSetHolder | SpIn | SpClear | SpClearHolder | SpUnpause | SpTry

record cpu =
  c_pc :: spc
  c_rax :: u64
  c_if :: bool
  c_pushed_if :: bool
  c_numHeldLocks :: u64
  c_thread :: tid

record spinsys =
  sp_value :: u64
  sp_holder :: "tid option"
  sp_cpus :: "nat \<Rightarrow> cpu"

text \<open>\<^verbatim>\<open>cas_spinlock(ptr, expected, new_value)\<close>, from one access to the next.\<close>

fun cas_spinlock :: "u64 \<Rightarrow> u64 \<Rightarrow> cpu \<Rightarrow> u64 \<Rightarrow> cpu \<times> u64" where
  "cas_spinlock rsi rdx c mem =
     (case c_pc c of
        CasFirst \<Rightarrow>
          let c1 = c\<lparr>c_rax := rsi, c_pushed_if := c_if c, c_if := False\<rparr>
          in (case cmpxchg (c_rax c1) rdx mem of (zf, rax, mem') \<Rightarrow> (c1\<lparr>c_rax := rax, c_pc := if zf then CasTaken else CasSpin\<rparr>, mem'))
      | CasSpin \<Rightarrow> (c\<lparr>c_if := c_pushed_if c, c_pc := if mem = rsi then CasRetry else CasSpin\<rparr>, mem)
      | CasRetry \<Rightarrow>
          let c1 = c\<lparr>c_if := False\<rparr>
          in (case cmpxchg (c_rax c1) rdx mem of (zf, rax, mem') \<Rightarrow> (c1\<lparr>c_rax := rax, c_pc := if zf then CasTaken else CasSpin\<rparr>, mem'))
      | CasTaken \<Rightarrow> (c\<lparr>c_numHeldLocks := c_numHeldLocks c + 1, c_if := c_pushed_if c, c_pc := SpSetHolder\<rparr>, mem)
      | _ \<Rightarrow> (c, mem))"

definition cas_trylock :: "u64 \<Rightarrow> u64 \<Rightarrow> cpu \<Rightarrow> u64 \<Rightarrow> bool \<times> cpu \<times> u64" where
  "cas_trylock rsi rdx c mem =
     (case cmpxchg rsi rdx mem of (zf, _, mem') \<Rightarrow>
        if zf then (True, c\<lparr>c_rax := 1, c_pushed_if := c_if c, c_numHeldLocks := c_numHeldLocks c + 1\<rparr>, mem')
        else (False, c\<lparr>c_rax := 0, c_pushed_if := c_if c\<rparr>, mem'))"

definition check_selflock :: "tid option \<Rightarrow> cpu \<Rightarrow> bool" where
  "check_selflock holder c = (case holder of None \<Rightarrow> False | Some h \<Rightarrow> c_thread c = h)"

definition set_cpu :: "nat \<Rightarrow> cpu \<Rightarrow> spinsys \<Rightarrow> spinsys" where
  "set_cpu i c s = s\<lparr>sp_cpus := (sp_cpus s)(i := c)\<rparr>"

fun spinlock_lock :: "nat \<Rightarrow> spinsys \<Rightarrow> spinsys res" where
  "spinlock_lock i s =
     (let c = sp_cpus s i in
      case c_pc c of
        SpCheck \<Rightarrow> if check_selflock (sp_holder s) c then Inl (Abort ''deadlock'') else Inr (set_cpu i (c\<lparr>c_pc := CasFirst\<rparr>) s)
      | SpSetHolder \<Rightarrow> Inr (set_cpu i (c\<lparr>c_pc := SpIn\<rparr>) (s\<lparr>sp_holder := Some (c_thread c)\<rparr>))
      | _ \<Rightarrow> (case cas_spinlock 0 1 c (sp_value s) of (c', v) \<Rightarrow> Inr (set_cpu i c' (s\<lparr>sp_value := v\<rparr>))))"

fun spinlock_unlock :: "nat \<Rightarrow> spinsys \<Rightarrow> spinsys res" where
  "spinlock_unlock i s =
     (let c = sp_cpus s i in
      case c_pc c of
        SpClear \<Rightarrow> Inr (set_cpu i (c\<lparr>c_pc := SpClearHolder\<rparr>) (s\<lparr>sp_value := snd (atomic_store (sp_value s) 0)\<rparr>))
      | SpClearHolder \<Rightarrow> Inr (set_cpu i (c\<lparr>c_pc := SpUnpause\<rparr>) (s\<lparr>sp_holder := None\<rparr>))
      | SpUnpause \<Rightarrow> bindE (assertE (c_numHeldLocks c > 0) ''isPaused()'') (\<lambda>_. Inr (set_cpu i (c\<lparr>c_pc := SpOut, c_numHeldLocks := c_numHeldLocks c - 1\<rparr>) s))
      | _ \<Rightarrow> Inr s)"

definition spinlock_trylock :: "nat \<Rightarrow> spinsys \<Rightarrow> spinsys res" where
  "spinlock_trylock i s =
     (case cas_trylock 0 1 (sp_cpus s i) (sp_value s) of (ok, c, v) \<Rightarrow>
        Inr (set_cpu i (c\<lparr>c_pc := if ok then SpSetHolder else SpOut\<rparr>) (s\<lparr>sp_value := v\<rparr>)))"

definition spinlock_held :: "spinsys \<Rightarrow> bool" where
  "spinlock_held s \<longleftrightarrow> sp_value s \<noteq> 0"

text \<open>What a processor does next: go on with the call it is in, or begin a call. Only a holder unlocks, and it does not lock again.\<close>

datatype spact = SpGo | CallLock | CallTrylock | CallUnlock

fun spin_event :: "nat \<times> spact \<Rightarrow> spinsys \<Rightarrow> spinsys res" where
  "spin_event (i, a) s =
     (let c = sp_cpus s i; at = (\<lambda>pc. set_cpu i (c\<lparr>c_pc := pc\<rparr>) s) in
      case (c_pc c, a) of
        (SpOut, CallLock) \<Rightarrow> Inr (at SpCheck)
      | (SpOut, CallTrylock) \<Rightarrow> Inr (at SpTry)
      | (SpIn, CallUnlock) \<Rightarrow> Inr (at SpClear)
      | (SpOut, _) \<Rightarrow> Inr s
      | (SpIn, _) \<Rightarrow> Inr s
      | (SpTry, SpGo) \<Rightarrow> spinlock_trylock i s
      | (pc, SpGo) \<Rightarrow> if pc \<in> {SpClear, SpClearHolder, SpUnpause} then spinlock_unlock i s else spinlock_lock i s
      | _ \<Rightarrow> Inr s)"

definition cpu_init :: "tid \<Rightarrow> cpu" where
  "cpu_init t = \<lparr>c_pc = SpOut, c_rax = 0, c_if = True, c_pushed_if = True, c_numHeldLocks = 0, c_thread = t\<rparr>"

text \<open>A new lock, and processors that each run a thread of their own.\<close>

definition spin_init :: spinsys where
  "spin_init = \<lparr>sp_value = 0, sp_holder = None, sp_cpus = cpu_init\<rparr>"

definition holds_spinlock :: "spinsys \<Rightarrow> nat \<Rightarrow> bool" where
  "holds_spinlock s i \<longleftrightarrow> c_pc (sp_cpus s i) \<in> {CasTaken, SpSetHolder, SpIn, SpClear}"

section \<open>Locks\<close>

text \<open>
  What a lock promises: whenever its value is 0 nobody holds it, and otherwise exactly one does. It suffices that
  every step leaves value and holders alone, takes the lock while its value is 0, or gives it up. Steps may be
  restricted (\<open>ok\<close>), and they may use up a budget (\<open>cost\<close>).
\<close>

definition exclusive :: "u64 \<Rightarrow> 'i set \<Rightarrow> bool" where
  "exclusive v H \<longleftrightarrow> v = 0 \<and> H = {} \<or> v = 1 \<and> (\<exists>t. H = {t})"

definition lock_change :: "u64 \<Rightarrow> 'i set \<Rightarrow> u64 \<Rightarrow> 'i set \<Rightarrow> bool" where
  "lock_change v H v' H' \<longleftrightarrow> v' = v \<and> H' = H \<or> v = 0 \<and> v' = 1 \<and> (\<exists>t. H' = insert t H) \<or> v' = 0 \<and> (\<exists>t\<in>H. H' = H - {t})"

lemma exclusive_change: "\<lbrakk>exclusive v H; lock_change v H v' H'\<rbrakk> \<Longrightarrow> exclusive v' H'"
  by (auto simp: exclusive_def lock_change_def)

fun allowed :: "('e \<Rightarrow> 's \<Rightarrow> bool) \<Rightarrow> ('e \<Rightarrow> 's \<Rightarrow> 's res) \<Rightarrow> 'e list \<Rightarrow> 's \<Rightarrow> bool" where
  "allowed ok step [] s = True"
| "allowed ok step (e # es) s = (ok e s \<and> (case step e s of Inl _ \<Rightarrow> True | Inr s' \<Rightarrow> allowed ok step es s'))"

locale lock_protocol =
  fixes step :: "'e \<Rightarrow> 's \<Rightarrow> 's res" and ok :: "'e \<Rightarrow> 's \<Rightarrow> bool" and cost :: "'e \<Rightarrow> nat"
    and inv :: "nat \<Rightarrow> 's \<Rightarrow> bool" and val :: "'s \<Rightarrow> u64" and holders :: "'s \<Rightarrow> 'i set"
  assumes step_ok: "\<lbrakk>inv (cost e + n) s; exclusive (val s) (holders s); ok e s\<rbrakk> \<Longrightarrow>
    \<exists>s'. step e s = Inr s' \<and> inv n s' \<and> lock_change (val s) (holders s) (val s') (holders s')"
begin

lemma run_exclusive:
  assumes "inv (sum_list (map cost es) + n) s" "exclusive (val s) (holders s)" "allowed ok step es s"
  shows "\<exists>s'. foldE step es s = Inr s' \<and> inv n s' \<and> exclusive (val s') (holders s')"
  using assms
proof (induction es arbitrary: s)
  case Nil
  then show ?case by simp
next
  case (Cons e es)
  have "inv (cost e + (sum_list (map cost es) + n)) s" "ok e s" using Cons.prems by (simp_all add: add.assoc)
  from step_ok [OF this(1) Cons.prems(2) this(2)] obtain s1 where
    s1: "step e s = Inr s1" "inv (sum_list (map cost es) + n) s1" "lock_change (val s) (holders s) (val s1) (holders s1)" by blast
  have "allowed ok step es s1" using Cons.prems(3) s1(1) by simp
  from Cons.IH [OF s1(2) exclusive_change [OF Cons.prems(2) s1(3)] this] s1(1) show ?case by simp
qed

lemma never_two:
  assumes "inv (sum_list (map cost es) + n) s" "exclusive (val s) (holders s)" "allowed ok step es s"
  shows "\<exists>s'. foldE step es s = Inr s' \<and> inv n s' \<and> (val s' \<noteq> 0 \<longleftrightarrow> holders s' \<noteq> {}) \<and> (\<forall>i\<in>holders s'. \<forall>j\<in>holders s'. i = j)"
  using run_exclusive [OF assms] by (auto simp: exclusive_def)

end

section \<open>The spinlock excludes, unless a retry compares with a stale value\<close>

definition spin_cpu_ok :: "spinsys \<Rightarrow> nat \<Rightarrow> bool" where
  "spin_cpu_ok s i \<longleftrightarrow> (let c = sp_cpus s i in c_thread c = i \<and> (c_pc c \<in> {CasSpin, CasRetry} \<longrightarrow> c_rax c \<le> 1) \<and>
     c_numHeldLocks c = (if c_pc c \<in> {SpSetHolder, SpIn, SpClear, SpClearHolder, SpUnpause} then 1 else 0) \<and>
     (sp_holder s = Some i \<longrightarrow> c_pc c \<in> {SpIn, SpClear, SpClearHolder}))"

definition spin_inv :: "nat \<Rightarrow> spinsys \<Rightarrow> bool" where
  "spin_inv n s \<longleftrightarrow> (\<forall>i. spin_cpu_ok s i)"

text \<open>The retry of \<^verbatim>\<open>cas_spinlock\<close> compares with what the failed attempt before it read, not with \<^verbatim>\<open>expected\<close>.\<close>

definition fresh_retry :: "nat \<times> spact \<Rightarrow> spinsys \<Rightarrow> bool" where
  "fresh_retry e s \<longleftrightarrow> \<not> (snd e = SpGo \<and> c_pc (sp_cpus s (fst e)) = CasRetry \<and> c_rax (sp_cpus s (fst e)) = 1 \<and> sp_value s = 1)"

definition spin_holders :: "spinsys \<Rightarrow> nat set" where
  "spin_holders s = {i. holds_spinlock s i}"

lemma word_le_1: "(w :: u64) \<le> 1 \<longleftrightarrow> w = 0 \<or> w = 1"
proof
  assume "w \<le> 1"
  then have "unat w \<le> 1" by (simp add: word_le_nat_alt)
  then have "unat w = 0 \<or> unat w = 1" by linarith
  then show "w = 0 \<or> w = 1" by (metis unat_1 unat_0 word_unat_eq_iff)
qed auto

lemma spin_inv_set:
  assumes "spin_inv n s" "spin_cpu_ok s' i" "sp_cpus s' = (sp_cpus s)(i := c)" "sp_holder s' = sp_holder s \<or> sp_holder s' = None \<or> sp_holder s' = Some i"
  shows "spin_inv n' s'"
  unfolding spin_inv_def
proof
  fix j
  show "spin_cpu_ok s' j"
  proof (cases "j = i")
    case False
    have "spin_cpu_ok s j" using assms(1) by (simp add: spin_inv_def)
    with False assms(3,4) show ?thesis by (auto simp: spin_cpu_ok_def Let_def)
  qed (use assms(2) in simp)
qed

lemma spin_holders_set:
  assumes "sp_cpus s' = (sp_cpus s)(i := c)"
  shows "spin_holders s' = (if c_pc c \<in> {CasTaken, SpSetHolder, SpIn, SpClear} then insert i (spin_holders s) else spin_holders s - {i})"
  using assms by (auto simp: spin_holders_def holds_spinlock_def)

lemma in_spin_holders: "i \<in> spin_holders s \<longleftrightarrow> c_pc (sp_cpus s i) \<in> {CasTaken, SpSetHolder, SpIn, SpClear}"
  by (simp add: spin_holders_def holds_spinlock_def)

text \<open>One step of processor \<open>i\<close> that ends in the state \<open>s'\<close> with \<open>c\<close> as the processor.\<close>

lemma spin_step_intro:
  assumes "spin_inv n s" "s' = s\<lparr>sp_value := v, sp_holder := h, sp_cpus := (sp_cpus s)(i := c)\<rparr>"
    "h = sp_holder s \<or> h = None \<or> h = Some i" "spin_cpu_ok s' i"
    "v = sp_value s \<and> (i \<in> spin_holders s \<longleftrightarrow> c_pc c \<in> {CasTaken, SpSetHolder, SpIn, SpClear}) \<or>
     sp_value s = 0 \<and> v = 1 \<and> c_pc c \<in> {CasTaken, SpSetHolder, SpIn, SpClear} \<or>
     v = 0 \<and> i \<in> spin_holders s \<and> c_pc c \<notin> {CasTaken, SpSetHolder, SpIn, SpClear}"
  shows "spin_inv n' s' \<and> lock_change (sp_value s) (spin_holders s) (sp_value s') (spin_holders s')"
proof -
  have c: "sp_cpus s' = (sp_cpus s)(i := c)" "sp_value s' = v" "sp_holder s' = h" using assms(2) by simp_all
  have "spin_inv n' s'" using spin_inv_set [OF assms(1,4) c(1)] assms(3) c(3) by simp
  moreover have "lock_change (sp_value s) (spin_holders s) v (spin_holders s')"
    using assms(5) unfolding lock_change_def spin_holders_set [OF c(1)] by (auto simp: insert_absorb)
  ultimately show ?thesis using c(2) by simp
qed

lemma spin_stay: "spin_inv n s \<Longrightarrow> spin_inv n' s \<and> lock_change (sp_value s) (spin_holders s) (sp_value s) (spin_holders s)"
  by (simp add: spin_inv_def lock_change_def)

lemma spin_event_ok:
  assumes "spin_inv n s" "exclusive (sp_value s) (spin_holders s)" "fresh_retry e s"
  shows "\<exists>s'. spin_event e s = Inr s' \<and> spin_inv n' s' \<and> lock_change (sp_value s) (spin_holders s) (sp_value s') (spin_holders s')"
proof -
  obtain i a where e: "e = (i, a)" by (cases e)
  let ?c = "sp_cpus s i"
  have ok: "spin_cpu_ok s i" using assms(1) by (simp add: spin_inv_def)
  have v: "sp_value s = 0 \<or> sp_value s = 1" "i \<in> spin_holders s \<Longrightarrow> sp_value s = 1" using assms(2) by (auto simp: exclusive_def)
  have step: ?thesis if "spin_event e s = Inr (s\<lparr>sp_value := v, sp_holder := h, sp_cpus := (sp_cpus s)(i := c)\<rparr>)"
      "h = sp_holder s \<or> h = None \<or> h = Some i" "spin_cpu_ok (s\<lparr>sp_value := v, sp_holder := h, sp_cpus := (sp_cpus s)(i := c)\<rparr>) i"
      "v = sp_value s \<and> (i \<in> spin_holders s \<longleftrightarrow> c_pc c \<in> {CasTaken, SpSetHolder, SpIn, SpClear}) \<or>
       sp_value s = 0 \<and> v = 1 \<and> c_pc c \<in> {CasTaken, SpSetHolder, SpIn, SpClear} \<or>
       v = 0 \<and> i \<in> spin_holders s \<and> c_pc c \<notin> {CasTaken, SpSetHolder, SpIn, SpClear}" for v h c
    using spin_step_intro [OF assms(1) refl that(2-4)] that(1) by blast
  have stay: ?thesis if "spin_event e s = Inr s" using that spin_stay [OF assms(1)] by blast
  note sim = e set_cpu_def Let_def spin_cpu_ok_def in_spin_holders
  note keep = step [where v = "sp_value s" and h = "sp_holder s"]
  show ?thesis
  proof (cases "a = SpGo")
    case False
    consider "spin_event e s = Inr s" | "c_pc ?c = SpOut" "a = CallLock" | "c_pc ?c = SpOut" "a = CallTrylock" | "c_pc ?c = SpIn" "a = CallUnlock"
      using False by (cases a; cases "c_pc ?c") (auto simp: e Let_def)
    then show ?thesis
    proof cases
      case 2 show ?thesis by (rule keep [where c = "?c\<lparr>c_pc := SpCheck\<rparr>"]; use 2 ok in \<open>auto simp: sim\<close>)
    next
      case 3 show ?thesis by (rule keep [where c = "?c\<lparr>c_pc := SpTry\<rparr>"]; use 3 ok in \<open>auto simp: sim\<close>)
    next
      case 4 show ?thesis by (rule keep [where c = "?c\<lparr>c_pc := SpClear\<rparr>"]; use 4 ok in \<open>auto simp: sim\<close>)
    qed (rule stay)
  next
    case True
    note sim = sim True
    let ?taken = "?c\<lparr>c_rax := 1, c_pushed_if := c_if ?c, c_numHeldLocks := c_numHeldLocks ?c + 1, c_pc := SpSetHolder\<rparr>"
    let ?refused = "?c\<lparr>c_rax := 0, c_pushed_if := c_if ?c, c_pc := SpOut\<rparr>"
    show ?thesis
    proof (cases "c_pc ?c")
      case SpOut
      then show ?thesis by (intro stay) (simp add: sim)
    next
      case SpIn
      then show ?thesis by (intro stay) (simp add: sim)
    next
      case SpTry
      note sim = sim SpTry spinlock_trylock_def cas_trylock_def cmpxchg_def
      show ?thesis using v(1)
      proof
        assume "sp_value s = 0"
        then show ?thesis by (intro step [where v = 1 and h = "sp_holder s" and c = ?taken]; use ok in \<open>auto simp: sim\<close>)
      next
        assume "sp_value s = 1"
        then show ?thesis by (intro keep [where c = ?refused]; use ok in \<open>auto simp: sim\<close>)
      qed
    next
      case SpCheck
      have "\<not> check_selflock (sp_holder s) ?c" using SpCheck ok by (auto simp: check_selflock_def spin_cpu_ok_def Let_def split: option.splits)
      then show ?thesis by (intro keep [where c = "?c\<lparr>c_pc := CasFirst\<rparr>"]; use SpCheck ok in \<open>auto simp: sim\<close>)
    next
      case SpSetHolder
      show ?thesis by (rule step [where v = "sp_value s" and h = "Some i" and c = "?c\<lparr>c_pc := SpIn\<rparr>"]; use SpSetHolder ok in \<open>auto simp: sim\<close>)
    next
      case SpClear
      show ?thesis by (rule step [where v = 0 and h = "sp_holder s" and c = "?c\<lparr>c_pc := SpClearHolder\<rparr>"]; use SpClear ok in \<open>auto simp: sim atomic_store_def\<close>)
    next
      case SpClearHolder
      show ?thesis by (rule step [where v = "sp_value s" and h = None and c = "?c\<lparr>c_pc := SpUnpause\<rparr>"]; use SpClearHolder ok in \<open>auto simp: sim\<close>)
    next
      case SpUnpause
      show ?thesis by (rule keep [where c = "?c\<lparr>c_pc := SpOut, c_numHeldLocks := c_numHeldLocks ?c - 1\<rparr>"]; use SpUnpause ok in \<open>auto simp: sim\<close>)
    next
      case CasFirst
      note sim = sim CasFirst cmpxchg_def
      show ?thesis using v(1)
      proof
        assume "sp_value s = 0"
        then show ?thesis by (intro step [where v = 1 and h = "sp_holder s" and c = "?c\<lparr>c_pushed_if := c_if ?c, c_if := False, c_rax := 0, c_pc := CasTaken\<rparr>"]; use ok in \<open>auto simp: sim\<close>)
      next
        assume "sp_value s = 1"
        then show ?thesis by (intro keep [where c = "?c\<lparr>c_pushed_if := c_if ?c, c_if := False, c_rax := 1, c_pc := CasSpin\<rparr>"]; use ok in \<open>auto simp: sim\<close>)
      qed
    next
      case CasSpin
      show ?thesis by (rule keep [where c = "?c\<lparr>c_if := c_pushed_if ?c, c_pc := if sp_value s = 0 then CasRetry else CasSpin\<rparr>"]; use CasSpin ok in \<open>auto simp: sim\<close>)
    next
      case CasTaken
      show ?thesis by (rule keep [where c = "?c\<lparr>c_numHeldLocks := c_numHeldLocks ?c + 1, c_if := c_pushed_if ?c, c_pc := SpSetHolder\<rparr>"]; use CasTaken ok in \<open>auto simp: sim\<close>)
    next
      case CasRetry
      note sim = sim CasRetry cmpxchg_def
      have "c_rax ?c = 0 \<or> c_rax ?c = 1" using ok CasRetry by (simp add: spin_cpu_ok_def Let_def word_le_1)
      then consider "sp_value s = 0" "c_rax ?c = 0" | "sp_value s \<noteq> c_rax ?c" using v(1) assms(3) CasRetry True by (auto simp: fresh_retry_def e)
      then show ?thesis
      proof cases
        case 1
        then show ?thesis by (intro step [where v = 1 and h = "sp_holder s" and c = "?c\<lparr>c_if := False, c_rax := 0, c_pc := CasTaken\<rparr>"]; use ok in \<open>auto simp: sim\<close>)
      next
        case 2
        then show ?thesis using v(1) by (intro keep [where c = "?c\<lparr>c_if := False, c_rax := sp_value s, c_pc := CasSpin\<rparr>"]; use ok in \<open>auto simp: sim\<close>)
      qed
    qed
  qed
qed

interpretation spin: lock_protocol spin_event fresh_retry "\<lambda>_. 0" spin_inv sp_value spin_holders
  by unfold_locales (rule spin_event_ok)

lemma spin_init_ok: "spin_inv n spin_init" "exclusive (sp_value spin_init) (spin_holders spin_init)"
  by (auto simp: spin_inv_def spin_cpu_ok_def spin_init_def cpu_init_def exclusive_def spin_holders_def holds_spinlock_def)


text \<open>A processor takes the lock again just before the retry of another, which then compares 1 with 1.\<close>

definition two_holders :: "(nat \<times> spact) list" where
  "two_holders = (0, CallLock) # replicate 4 (0, SpGo) @ (1, CallLock) # replicate 2 (1, SpGo) @ (0, CallUnlock) # replicate 3 (0, SpGo) @
     (1, SpGo) # (0, CallLock) # replicate 4 (0, SpGo) @ replicate 3 (1, SpGo)"

lemma spinlock_two_holders:
  "\<exists>s. foldE spin_event two_holders spin_init = Inr s \<and> c_pc (sp_cpus s 0) = SpIn \<and> c_pc (sp_cpus s 1) = SpIn"
proof -
  have "case foldE spin_event two_holders spin_init of Inl _ \<Rightarrow> False | Inr s \<Rightarrow> c_pc (sp_cpus s 0) = SpIn \<and> c_pc (sp_cpus s 1) = SpIn" by code_simp
  then show ?thesis by (auto split: sum.splits)
qed


end
