(* ===== verification/Mutex.thy ===== *)
theory Mutex
  imports Spinlock
begin

text \<open>
  The mutex of \<^verbatim>\<open>kernel/source/scheduler/synchro.cpp\<close>, used by the threads of one processor under the scheduler of
  the theory \<open>Sched\<close>. The running thread goes from one access of the mutex to the next, and a tick may switch to
  another thread between any two of them; \<^verbatim>\<open>block\<close> and \<^verbatim>\<open>notifyOne\<close> are those of the scheduler.
\<close>

section \<open>The mutex\<close>

text \<open>Where a thread is: outside the mutex, at a point of \<^verbatim>\<open>lock\<close>, \<^verbatim>\<open>trylock\<close> or \<^verbatim>\<open>unlock\<close>, or holding the mutex.\<close>

datatype mpc = MOut | MCheck | MCas | MBlock | MTry | MSetHolder | MIn | MClear | MClearHolder | MNotify

record msys =
  m_value :: u64
  m_holder :: "tid option"
  m_pc :: "tid \<Rightarrow> mpc"
  m_sch :: sched

definition m_goto :: "mpc \<Rightarrow> msys \<Rightarrow> msys" where
  "m_goto pc s = s\<lparr>m_pc := (m_pc s)(CurrentThread (m_sch s) := pc)\<rparr>"

fun mutex_lock :: "nat \<Rightarrow> mpc \<Rightarrow> msys \<Rightarrow> msys res" where
  "mutex_lock cv MCheck s =
     (if m_holder s \<noteq> None \<and> m_holder s = getCurrentThread (m_sch s) then Inl (Abort ''deadlock'') else Inr (m_goto MCas s))"
| "mutex_lock cv MCas s =
     (case atomic_cas (m_value s) 0 1 of (ok, v) \<Rightarrow> Inr (m_goto (if ok then MSetHolder else MBlock) (s\<lparr>m_value := v\<rparr>)))"
| "mutex_lock cv MBlock s = bindE (sched_block cv (m_sch s)) (\<lambda>sch. Inr ((m_goto MCas s)\<lparr>m_sch := sch\<rparr>))"
| "mutex_lock cv MSetHolder s = Inr (m_goto MIn (s\<lparr>m_holder := getCurrentThread (m_sch s)\<rparr>))"
| "mutex_lock cv _ s = Inr s"

fun mutex_unlock :: "nat \<Rightarrow> mpc \<Rightarrow> msys \<Rightarrow> msys res" where
  "mutex_unlock cv MClear s = Inr (m_goto MClearHolder (s\<lparr>m_value := snd (atomic_store (m_value s) 0)\<rparr>))"
| "mutex_unlock cv MClearHolder s = Inr (m_goto MNotify (s\<lparr>m_holder := None\<rparr>))"
| "mutex_unlock cv MNotify s = bindE (notifyOne cv (m_sch s)) (\<lambda>sch. Inr ((m_goto MOut s)\<lparr>m_sch := sch\<rparr>))"
| "mutex_unlock cv _ s = Inr s"

definition mutex_trylock :: "msys \<Rightarrow> msys res" where
  "mutex_trylock s = (case atomic_cas (m_value s) 0 1 of (ok, v) \<Rightarrow> Inr (m_goto (if ok then MSetHolder else MOut) (s\<lparr>m_value := v\<rparr>)))"

definition mutex_held :: "msys \<Rightarrow> bool" where
  "mutex_held s \<longleftrightarrow> m_value s \<noteq> 0"

text \<open>
  What happens next on the processor: a tick, another call of the scheduler by a thread that is in no call of the
  mutex, or the running thread begins a call of the mutex or goes on with it. The idle thread does nothing. Only a
  holder unlocks, and it does not lock again.
\<close>

datatype mact = MSched kop | MGo | MCallLock | MCallTrylock | MCallUnlock

definition on_sched :: "kop \<Rightarrow> msys \<Rightarrow> msys res" where
  "on_sched k s = bindE (kstep k (m_sch s)) (\<lambda>sch. Inr (s\<lparr>m_sch := sch\<rparr>))"

definition mutex_event :: "nat \<Rightarrow> mact \<Rightarrow> msys \<Rightarrow> msys res" where
  "mutex_event cv a s =
     (let t = CurrentThread (m_sch s); pc = m_pc s t in
      if a = MSched KTick then on_sched KTick s
      else if t = IdleThread (m_sch s) then Inr s
      else case a of
        MSched k \<Rightarrow> if pc \<in> {MOut, MIn} then on_sched k s else Inr s
      | MCallLock \<Rightarrow> Inr (if pc = MOut then m_goto MCheck s else s)
      | MCallTrylock \<Rightarrow> Inr (if pc = MOut then m_goto MTry s else s)
      | MCallUnlock \<Rightarrow> Inr (if pc = MIn then m_goto MClear s else s)
      | MGo \<Rightarrow> if pc = MTry then mutex_trylock s else if pc \<in> {MClear, MClearHolder, MNotify} then mutex_unlock cv pc s else mutex_lock cv pc s)"

definition holds_mutex :: "msys \<Rightarrow> tid \<Rightarrow> bool" where
  "holds_mutex s t \<longleftrightarrow> m_pc s t \<in> {MSetHolder, MIn, MClear}"

definition mutex_init :: "sched \<Rightarrow> msys" where
  "mutex_init sch = \<lparr>m_value = 0, m_holder = None, m_pc = (\<lambda>_. MOut), m_sch = sch\<rparr>"

definition tick_cost :: "mact \<Rightarrow> nat" where
  "tick_cost a = (if a = MSched KTick then 1 else 0)"

section \<open>Mutual exclusion\<close>

definition mutex_inv :: "nat \<Rightarrow> msys \<Rightarrow> bool" where
  "mutex_inv n s \<longleftrightarrow> sched_inv (m_sch s) \<and> unat (tickCounter (m_sch s)) + n < 2 ^ 40 \<and>
     (\<forall>t. m_holder s = Some t \<longrightarrow> m_pc s t \<in> {MIn, MClear, MClearHolder})"

definition mutex_holders :: "msys \<Rightarrow> tid set" where
  "mutex_holders s = {t. holds_mutex s t}"

lemma mutex_holders_goto:
  assumes "m_pc s' = (m_pc s)(t := pc)"
  shows "mutex_holders s' = (if pc \<in> {MSetHolder, MIn, MClear} then insert t (mutex_holders s) else mutex_holders s - {t})"
  using assms by (auto simp: mutex_holders_def holds_mutex_def)

text \<open>A step of the running thread \<open>t\<close> that ends at \<open>pc\<close>.\<close>

lemma mutex_step_intro:
  assumes "mutex_inv n s" "m_pc s' = (m_pc s)(t := pc)" "sched_inv (m_sch s')" "unat (tickCounter (m_sch s')) = unat (tickCounter (m_sch s))"
    "m_holder s' = m_holder s \<and> (m_holder s = Some t \<longrightarrow> pc \<in> {MIn, MClear, MClearHolder}) \<or> m_holder s' = None \<or> m_holder s' = Some t \<and> pc = MIn"
    "m_value s' = m_value s \<and> (holds_mutex s t \<longleftrightarrow> pc \<in> {MSetHolder, MIn, MClear}) \<or>
     m_value s = 0 \<and> m_value s' = 1 \<and> pc \<in> {MSetHolder, MIn, MClear} \<or> m_value s' = 0 \<and> holds_mutex s t \<and> pc \<notin> {MSetHolder, MIn, MClear}"
  shows "mutex_inv n s' \<and> lock_change (m_value s) (mutex_holders s) (m_value s') (mutex_holders s')"
proof -
  have "m_pc s' u \<in> {MIn, MClear, MClearHolder}" if u: "m_holder s' = Some u" for u
  proof (cases "u = t")
    case True
    with assms(2,5) u show ?thesis by auto
  next
    case False
    with assms(5) u have "m_holder s = Some u" by auto
    with assms(1,2) False show ?thesis by (simp add: mutex_inv_def)
  qed
  then have "mutex_inv n s'" using assms(1,3,4) by (simp add: mutex_inv_def)
  moreover have "holds_mutex s t \<longleftrightarrow> t \<in> mutex_holders s" by (simp add: mutex_holders_def)
  then have "lock_change (m_value s) (mutex_holders s) (m_value s') (mutex_holders s')"
    using assms(6) unfolding lock_change_def mutex_holders_goto [OF assms(2)] by (auto simp: insert_absorb)
  ultimately show ?thesis by simp
qed

lemma on_sched_ok:
  assumes "mutex_inv (tick_cost (MSched k) + n) s"
  shows "\<exists>s'. on_sched k s = Inr s' \<and> mutex_inv n s' \<and> lock_change (m_value s) (mutex_holders s) (m_value s') (mutex_holders s')"
proof -
  have "k = KTick \<Longrightarrow> Suc (unat (tickCounter (m_sch s))) < 2 ^ 40" using assms by (simp add: mutex_inv_def tick_cost_def)
  with kstep_ok [of "m_sch s" k] assms obtain sch where
    k: "kstep k (m_sch s) = Inr sch" "sched_inv sch" "step_shape (if k = KTick then 1 else 0) (m_sch s) sch" by (auto simp: mutex_inv_def)
  have "unat (tickCounter sch) + n < 2 ^ 40" using shape_tick [OF k(3)] assms by (simp add: mutex_inv_def tick_cost_def split: if_splits)
  then have "mutex_inv n (s\<lparr>m_sch := sch\<rparr>)" using assms k(2) by (simp add: mutex_inv_def)
  then show ?thesis using k(1) by (simp add: on_sched_def lock_change_def mutex_holders_def holds_mutex_def)
qed

lemma mutex_event_ok:
  assumes "mutex_inv (tick_cost a + n) s" "exclusive (m_value s) (mutex_holders s)"
  shows "\<exists>s'. mutex_event cv a s = Inr s' \<and> mutex_inv n s' \<and> lock_change (m_value s) (mutex_holders s) (m_value s') (mutex_holders s')"
proof -
  let ?t = "CurrentThread (m_sch s)"
  have n: "mutex_inv n s" using assms(1) by (simp add: mutex_inv_def)
  have sch: "sched_inv (m_sch s)" "sched_mid (m_sch s)" using n by (simp_all add: mutex_inv_def sched_inv_def sched_run_def)
  have cur: "getCurrentThread (m_sch s) = Some ?t" using sched_midD(3) [OF sch(2)] by (simp add: getCurrentThread_def)
  have v: "m_value s = 0 \<or> m_value s = 1" "holds_mutex s ?t \<Longrightarrow> m_value s = 1" using assms(2) by (auto simp: exclusive_def mutex_holders_def)
  have hold: "m_holder s = Some ?t \<Longrightarrow> m_pc s ?t \<in> {MIn, MClear, MClearHolder}" using n by (simp add: mutex_inv_def)
  have stay: ?thesis if "mutex_event cv a s = Inr s" using that n by (simp add: lock_change_def)
  have step: ?thesis if "mutex_event cv a s = Inr s'" "m_pc s' = (m_pc s)(?t := pc)" "sched_inv (m_sch s')" "unat (tickCounter (m_sch s')) = unat (tickCounter (m_sch s))"
    "m_holder s' = m_holder s \<and> (m_holder s = Some ?t \<longrightarrow> pc \<in> {MIn, MClear, MClearHolder}) \<or> m_holder s' = None \<or> m_holder s' = Some ?t \<and> pc = MIn"
    "m_value s' = m_value s \<and> (holds_mutex s ?t \<longleftrightarrow> pc \<in> {MSetHolder, MIn, MClear}) \<or>
     m_value s = 0 \<and> m_value s' = 1 \<and> pc \<in> {MSetHolder, MIn, MClear} \<or> m_value s' = 0 \<and> holds_mutex s ?t \<and> pc \<notin> {MSetHolder, MIn, MClear}" for s' pc
    using mutex_step_intro [OF n that(2-6)] that(1) by blast
  note sim = mutex_event_def Let_def m_goto_def holds_mutex_def
  show ?thesis
  proof (cases "a = MSched KTick")
    case True
    then show ?thesis using on_sched_ok [of KTick n s] assms(1) by (simp add: mutex_event_def Let_def)
  next
    case notick: False
    show ?thesis
    proof (cases "?t = IdleThread (m_sch s)")
      case True
      then show ?thesis using notick by (intro stay) (simp add: mutex_event_def Let_def)
    next
      case idle: False
      note sim = sim notick idle
      have moved: ?thesis if "mutex_event cv a s = Inr (m_goto pc s)" "m_holder s = Some ?t \<longrightarrow> pc \<in> {MIn, MClear, MClearHolder}"
          "holds_mutex s ?t \<longleftrightarrow> pc \<in> {MSetHolder, MIn, MClear}" for pc
        by (rule step [OF that(1), of pc]) (use that sch in \<open>auto simp: m_goto_def\<close>)
      show ?thesis
      proof (cases a)
        case (MSched k)
        then show ?thesis using on_sched_ok [of k n s] assms(1) stay idle notick by (auto simp: mutex_event_def Let_def)
      next
        case MCallLock
        show ?thesis
        proof (cases "m_pc s ?t = MOut")
          case True
          show ?thesis by (rule moved [of MCheck]) (use MCallLock True hold in \<open>auto simp: sim\<close>)
        qed (use MCallLock in \<open>intro stay, simp add: sim\<close>)
      next
        case MCallTrylock
        show ?thesis
        proof (cases "m_pc s ?t = MOut")
          case True
          show ?thesis by (rule moved [of MTry]) (use MCallTrylock True hold in \<open>auto simp: sim\<close>)
        qed (use MCallTrylock in \<open>intro stay, simp add: sim\<close>)
      next
        case MCallUnlock
        show ?thesis
        proof (cases "m_pc s ?t = MIn")
          case True
          show ?thesis by (rule moved [of MClear]) (use MCallUnlock True hold in \<open>auto simp: sim\<close>)
        qed (use MCallUnlock in \<open>intro stay, simp add: sim\<close>)
      next
        case MGo
        have tried: ?thesis if "mutex_event cv a s = (case atomic_cas (m_value s) 0 1 of (ok, v) \<Rightarrow> Inr (m_goto (if ok then MSetHolder else pc) (s\<lparr>m_value := v\<rparr>)))"
            "m_pc s ?t \<in> {MCas, MTry}" "pc \<in> {MBlock, MOut}" for pc
          using v(1)
        proof
          assume "m_value s = 0"
          then show ?thesis by (intro step [where s' = "m_goto MSetHolder (s\<lparr>m_value := 1\<rparr>)" and pc = MSetHolder]; use that hold sch in \<open>auto simp: sim atomic_cas_def cmpxchg_def\<close>)
        next
          assume "m_value s = 1"
          then show ?thesis by (intro step [where s' = "m_goto pc s" and pc = pc]; use that hold sch in \<open>auto simp: sim atomic_cas_def cmpxchg_def\<close>)
        qed
        show ?thesis
        proof (cases "m_pc s ?t")
          case MOut
          then show ?thesis by (intro stay) (simp add: sim MGo)
        next
          case MIn
          then show ?thesis by (intro stay) (simp add: sim MGo)
        next
          case MCheck
          show ?thesis by (rule moved [of MCas]) (use MGo MCheck hold cur in \<open>auto simp: sim\<close>)
        next
          case MCas
          show ?thesis by (rule tried [of MBlock]) (use MGo MCas in \<open>simp_all add: sim\<close>)
        next
          case MTry
          show ?thesis by (rule tried [of MOut]) (use MGo MTry in \<open>simp_all add: sim mutex_trylock_def\<close>)
        next
          case MBlock
          from block_shape [OF sch(1) idle, of cv] obtain sch' where b: "sched_block cv (m_sch s) = Inr sch'" "sched_inv sch'" "step_shape 0 (m_sch s) sch'" by blast
          have "unat (tickCounter sch') = unat (tickCounter (m_sch s))" using shape_tick [OF b(3)] by simp
          then show ?thesis by (intro step [where s' = "(m_goto MCas s)\<lparr>m_sch := sch'\<rparr>" and pc = MCas]; use MGo MBlock hold b in \<open>auto simp: sim\<close>)
        next
          case MSetHolder
          show ?thesis by (rule step [where s' = "m_goto MIn (s\<lparr>m_holder := Some ?t\<rparr>)" and pc = MIn]) (use MGo MSetHolder sch cur in \<open>auto simp: sim\<close>)
        next
          case MClear
          show ?thesis by (rule step [where s' = "m_goto MClearHolder (s\<lparr>m_value := 0\<rparr>)" and pc = MClearHolder]) (use MGo MClear sch in \<open>auto simp: sim atomic_store_def\<close>)
        next
          case MClearHolder
          show ?thesis by (rule step [where s' = "m_goto MNotify (s\<lparr>m_holder := None\<rparr>)" and pc = MNotify]) (use MGo MClearHolder sch in \<open>auto simp: sim\<close>)
        next
          case MNotify
          from notify_shape [OF sch(1), of cv False] obtain sch' where b: "sched_notify cv False (m_sch s) = Inr sch'" "sched_inv sch'" "step_shape 0 (m_sch s) sch'" by blast
          have "unat (tickCounter sch') = unat (tickCounter (m_sch s))" using shape_tick [OF b(3)] by simp
          then show ?thesis by (intro step [where s' = "(m_goto MOut s)\<lparr>m_sch := sch'\<rparr>" and pc = MOut]; use MGo MNotify hold b in \<open>auto simp: sim notifyOne_def\<close>)
        qed
      qed
    qed
  qed
qed

interpretation mtx: lock_protocol "mutex_event cv" "\<lambda>_ _. True" tick_cost mutex_inv m_value mutex_holders for cv
  by unfold_locales (rule mutex_event_ok)

lemma allowed_True: "allowed (\<lambda>_ _. True) step es s"
  by (induction es arbitrary: s) (auto split: sum.splits)

definition mutex_ticks :: "mact list \<Rightarrow> nat" where
  "mutex_ticks es = sum_list (map tick_cost es)"



section \<open>A wake-up that is lost\<close>

text \<open>A thread that waits for a condition stays where it is until the condition is notified.\<close>

definition asleep :: "nat \<Rightarrow> tid \<Rightarrow> sched \<Rightarrow> bool" where
  "asleep cv t s \<longleftrightarrow> t \<noteq> IdleThread s \<and> t \<noteq> CurrentThread s \<and> t \<in> set (BlockedThreads s) \<and>
     (\<exists>th. sc_threads s t = Some th \<and> th_state th = BlockedOnCondition \<and> th_blockedOn th = Some cv)"

text \<open>What matters of it in the middle of an operation, when the thread may still be the current one.\<close>

definition parked :: "nat \<Rightarrow> tid \<Rightarrow> sched \<Rightarrow> bool" where
  "parked cv t s \<longleftrightarrow> t \<noteq> IdleThread s \<and> t \<in> set (BlockedThreads s) \<and>
     (\<exists>th. sc_threads s t = Some th \<and> th_state th = BlockedOnCondition \<and> th_blockedOn th = Some cv)"

lemma asleep_parked: "asleep cv t s \<longleftrightarrow> parked cv t s \<and> t \<noteq> CurrentThread s"
  by (auto simp: asleep_def parked_def)

lemma upd_thread_Inr: "upd_thread t f s = Inr s' \<longleftrightarrow> (\<exists>th. sc_threads s t = Some th \<and> s' = s\<lparr>sc_threads := (sc_threads s)(t \<mapsto> f th)\<rparr>)"
  by (auto simp: upd_thread_def get_thread_def split: option.splits)

lemma parked_fields [simp]:
  "parked cv t (s\<lparr>CurrentThread := c\<rparr>) = parked cv t s" "parked cv t (s\<lparr>sc_lock := l\<rparr>) = parked cv t s" "parked cv t (s\<lparr>numHeldLocks := n\<rparr>) = parked cv t s"
  "parked cv t (s\<lparr>tickCounter := w\<rparr>) = parked cv t s" "parked cv t (s\<lparr>timesliceTicks := w\<rparr>) = parked cv t s" "parked cv t (s\<lparr>expediteSchedule := b\<rparr>) = parked cv t s"
  "parked cv t (s\<lparr>DestructionQueue := ds\<rparr>) = parked cv t s" "parked cv t (s\<lparr>ThreadList := ts\<rparr>) = parked cv t s"
  by (simp_all add: parked_def)

lemma parked_upd: "\<lbrakk>parked cv t s; u \<noteq> t\<rbrakk> \<Longrightarrow> parked cv t (s\<lparr>sc_threads := (sc_threads s)(u := x)\<rparr>)"
  by (simp add: parked_def)

lemma parked_append: "parked cv t s \<Longrightarrow> parked cv t (s\<lparr>BlockedThreads := BlockedThreads s @ ts\<rparr>)"
  by (simp add: parked_def)

lemma pick_stopped:
  "\<lbrakk>foldE (pick s) ts b = Inr (Some u, p); fst b = None \<or> (\<exists>v th. fst b = Some v \<and> sc_threads s v = Some th \<and> th_state th = Stopped)\<rbrakk> \<Longrightarrow>
   \<exists>th. sc_threads s u = Some th \<and> th_state th = Stopped"
proof (induction ts arbitrary: b)
  case (Cons t ts)
  then obtain b' where b': "pick s t b = Inr b'" "foldE (pick s) ts b' = Inr (Some u, p)" by (cases "pick s t b") auto
  have "fst b' = None \<or> (\<exists>v th. fst b' = Some v \<and> sc_threads s v = Some th \<and> th_state th = Stopped)"
    using b'(1) Cons.prems(2) by (auto simp: pick_def get_thread_def split: option.splits if_splits)
  from Cons.IH [OF b'(2) this] show ?case .
qed auto

lemma parked_switch:
  assumes "find_and_switch_thread s = Inr s'" "parked cv t s"
  shows "asleep cv t s'"
proof -
  let ?f = "\<lambda>th. if th_state th = Running then th\<lparr>th_state := Stopped\<rparr> else th"
  obtain s1 u s2 where s1: "upd_thread (CurrentThread s) ?f s = Inr s1" and u: "getNextThread s1 = Inr u"
    and s2: "upd_thread u (\<lambda>th. th\<lparr>th_state := Running, th_priority := prio_reset (getElapsedNanoseconds s1) (th_priority th)\<rparr>) s1 = Inr s2" "s' = s2\<lparr>CurrentThread := u\<rparr>"
    using assms(1) unfolding find_and_switch_thread_def
    by (cases "sc_lock s"; cases "upd_thread (CurrentThread s) ?f s"; simp; cases "getNextThread (projr (upd_thread (CurrentThread s) ?f s))"; simp)
      (auto split: sum.splits)
  have p1: "parked cv t s1" using s1 assms(2) by (auto simp: upd_thread_Inr parked_def)
  have "u \<noteq> t"
  proof
    assume "u = t"
    obtain nx p where n: "foldE (pick s1) (ThreadList s1) (None, prio_low) = Inr (nx, p)" "u = (case nx of None \<Rightarrow> IdleThread s1 | Some t \<Rightarrow> t)"
      using u by (cases "foldE (pick s1) (ThreadList s1) (None, prio_low)") (auto simp: getNextThread_def)
    show False
    proof (cases nx)
      case None
      then show False using n(2) \<open>u = t\<close> p1 by (simp add: parked_def)
    next
      case (Some v)
      from pick_stopped [OF n(1) [unfolded Some]] show False using n(2) Some \<open>u = t\<close> p1 by (auto simp: parked_def)
    qed
  qed
  then show ?thesis using p1 s2 by (auto simp: upd_thread_Inr asleep_parked intro: parked_upd)
qed

lemma parked_locked:
  assumes "locked_section f s = Inr s'" "parked cv t s" "\<And>s1 s2. \<lbrakk>parked cv t s1; CurrentThread s1 = CurrentThread s; f s1 = Inr s2\<rbrakk> \<Longrightarrow> parked cv t s2 \<and> CurrentThread s2 = CurrentThread s"
  shows "parked cv t s' \<and> CurrentThread s' = CurrentThread s"
proof -
  let ?s = "sched_pause (s\<lparr>sc_lock := True\<rparr>)"
  obtain s1 where s1: "f ?s = Inr s1" "unpause (s1\<lparr>sc_lock := False\<rparr>) = Inr s'" using assms(1) by (cases "f ?s") (auto simp: locked_section_def split: if_splits)
  have "parked cv t s1 \<and> CurrentThread s1 = CurrentThread s" by (rule assms(3) [OF _ _ s1(1)]) (use assms(2) in \<open>simp_all add: sched_pause_def\<close>)
  moreover have "s' = s1\<lparr>sc_lock := False, numHeldLocks := numHeldLocks s1 - 1\<rparr>" using s1(2) by (cases "isPaused (s1\<lparr>sc_lock := False\<rparr>)") (auto simp: unpause_def)
  ultimately show ?thesis by simp
qed

lemma wake_parked:
  "\<lbrakk>wake_from now ts s = Inr (w, rest, s'); sc_threads s t = Some th; th_state th = BlockedOnCondition\<rbrakk> \<Longrightarrow>
   sc_threads s' t = Some th \<and> IdleThread s' = IdleThread s \<and> CurrentThread s' = CurrentThread s \<and> (t \<in> set ts \<longrightarrow> t \<in> set rest)"
proof (induction now ts s arbitrary: w rest s' rule: wake_from.induct)
  case (2 now u ts s)
  obtain tu where u: "sc_threads s u = Some tu" using "2.prems"(1) by (cases "sc_threads s u") (auto simp: get_thread_def)
  show ?case
  proof (cases "th_state tu = BlockedOnSleep \<and> now \<ge> th_wakeUpTimestamp tu")
    case True
    define s1 where "s1 = s\<lparr>sc_threads := (sc_threads s)(u \<mapsto> tu\<lparr>th_wakeUpTimestamp := 0, th_state := Stopped\<rparr>)\<rparr>"
    have ne: "u \<noteq> t" using True u "2.prems"(2,3) by auto
    have up: "upd_thread u (\<lambda>th. th\<lparr>th_wakeUpTimestamp := 0, th_state := Stopped\<rparr>) s = Inr s1" using u by (simp add: upd_thread_Some s1_def)
    obtain w1 where w1: "wake_from now ts s1 = Inr (w1, rest, s')" using "2.prems"(1) True u up by (cases "wake_from now ts s1") (auto simp: get_thread_def)
    have "sc_threads s1 t = Some th" using "2.prems"(2) ne by (simp add: s1_def)
    from "2.IH"(1) [OF True w1 this "2.prems"(3)] u ne show ?thesis by (simp add: get_thread_def s1_def)
  next
    case False
    obtain w1 r1 where w1: "wake_from now ts s = Inr (w1, r1, s')" "rest = u # r1" using "2.prems"(1) False u by (cases "wake_from now ts s") (auto simp: get_thread_def)
    from "2.IH"(2) [OF False w1(1) "2.prems"(2,3)] u w1(2) show ?thesis by (auto simp: get_thread_def)
  qed
qed auto

lemma notify_parked:
  "\<lbrakk>notify_from cv' all ts s = Inr (rest, s'); sc_threads s t = Some th; th_state th = BlockedOnCondition; th_blockedOn th = Some cv; cv \<noteq> cv'\<rbrakk> \<Longrightarrow>
   sc_threads s' t = Some th \<and> IdleThread s' = IdleThread s \<and> CurrentThread s' = CurrentThread s \<and> (t \<in> set ts \<longrightarrow> t \<in> set rest)"
proof (induction cv' all ts s arbitrary: rest s' rule: notify_from.induct)
  case (2 cv' all u ts s)
  obtain tu where u: "sc_threads s u = Some tu" using "2.prems"(1) by (cases "sc_threads s u") (auto simp: get_thread_def)
  show ?case
  proof (cases "th_state tu = BlockedOnCondition \<and> th_blockedOn tu = Some cv'")
    case True
    define s1 where "s1 = s\<lparr>sc_threads := (sc_threads s)(u \<mapsto> tu\<lparr>th_blockedOn := None, th_state := Stopped, th_priority := boost 1 (th_priority tu)\<rparr>)\<rparr>"
    have ne: "u \<noteq> t" using True u "2.prems"(2-5) by auto
    have up: "upd_thread u (\<lambda>th. th\<lparr>th_blockedOn := None, th_state := Stopped, th_priority := boost 1 (th_priority th)\<rparr>) s = Inr s1" using u by (simp add: upd_thread_Some s1_def)
    have th1: "sc_threads s1 t = Some th" using "2.prems"(2) ne by (simp add: s1_def)
    show ?thesis
    proof (cases all)
      case a: True
      have "notify_from cv' all ts s1 = Inr (rest, s')" using "2.prems"(1) True u up a by (simp add: get_thread_def)
      from "2.IH"(1) [OF True a this th1 "2.prems"(3-5)] ne show ?thesis by (simp add: s1_def)
    next
      case False
      then have "rest = ts" "s' = s1" using "2.prems"(1) True u up by (simp_all add: get_thread_def)
      then show ?thesis using th1 ne by (simp add: s1_def)
    qed
  next
    case False
    obtain r1 where r1: "notify_from cv' all ts s = Inr (r1, s')" "rest = u # r1" using "2.prems"(1) False u by (cases "notify_from cv' all ts s") (auto simp: get_thread_def)
    from "2.IH"(2) [OF False r1(1) "2.prems"(2-5)] r1(2) show ?thesis by auto
  qed
qed auto

lemma parked_yield: "\<lbrakk>sched_yield s = Inr s'; parked cv t s\<rbrakk> \<Longrightarrow> asleep cv t s'"
  by (cases "sc_lock s") (auto simp: sched_yield_def intro: parked_switch)

lemma asleep_leave:
  assumes "bindE (current_thread s) (\<lambda>c. bindE (locked_section (f c) s) g) = Inr s'" "asleep cv t s" "g = sched_yield \<or> g = find_and_switch_thread"
    "\<And>c s1 s2. \<lbrakk>parked cv t s1; c \<noteq> t; f c s1 = Inr s2\<rbrakk> \<Longrightarrow> parked cv t s2 \<and> CurrentThread s2 = CurrentThread s1"
  shows "asleep cv t s'"
proof -
  obtain c where c: "current_thread s = Inr c" using assms(1) by (cases "current_thread s") auto
  have ne: "c \<noteq> t" using c assms(2) by (auto simp: current_thread_def getCurrentThread_def asleep_def split: if_splits)
  obtain s1 where s1: "locked_section (f c) s = Inr s1" "g s1 = Inr s'" using assms(1) c by (cases "locked_section (f c) s") auto
  have "parked cv t s1 \<and> CurrentThread s1 = CurrentThread s"
  proof (rule parked_locked [OF s1(1)])
    fix s1 s2 assume a: "parked cv t s1" "CurrentThread s1 = CurrentThread s" "f c s1 = Inr s2"
    from assms(4) [OF a(1) ne a(3)] a(2) show "parked cv t s2 \<and> CurrentThread s2 = CurrentThread s" by simp
  qed (use assms(2) in \<open>simp add: asleep_parked\<close>)
  then show ?thesis using s1(2) assms(3) parked_yield parked_switch by blast
qed

lemma asleep_tick:
  assumes "tick_handler s = Inr s'" "asleep cv t s"
  shows "asleep cv t s'"
proof -
  let ?s = "s\<lparr>tickCounter := tickCounter s + 1, timesliceTicks := timesliceTicks s + 1\<rparr>"
  obtain w rest s1 where w: "wake_from (getElapsedNanoseconds ?s) (BlockedThreads s) ?s = Inr (w, rest, s1)"
    using assms(1) by (cases "wake_from (getElapsedNanoseconds ?s) (BlockedThreads s) ?s") (auto simp: tick_handler_def scheduler_tick_def wakeUpThreads_def)
  obtain th where th: "sc_threads ?s t = Some th" "th_state th = BlockedOnCondition" "th_blockedOn th = Some cv" using assms(2) by (auto simp: asleep_def)
  from wake_parked [OF w th(1,2)] assms(2) th(3) have p: "parked cv t (s1\<lparr>BlockedThreads := rest\<rparr>)" "CurrentThread s1 \<noteq> t"
    by (auto simp: parked_def asleep_def th)
  show ?thesis
    using assms(1) w p by (auto simp: tick_handler_def scheduler_tick_def wakeUpThreads_def Let_def asleep_parked split: if_splits dest: parked_switch)
qed

lemma asleep_kstep:
  assumes "kstep k s = Inr s'" "asleep cv t s" "sched_inv s" "\<forall>all. k \<noteq> KNotify cv all"
  shows "asleep cv t s'"
proof (cases "k \<noteq> KTick \<and> CurrentThread s = IdleThread s")
  case True
  then show ?thesis using assms(1,2) by (simp add: kstep_def)
next
  case False
  then have k: "kcall k s = Inr s'" using assms(1) unfolding kstep_def by (simp only: if_False)
  have mid: "sched_mid s" using assms(3) by (simp add: sched_inv_def sched_run_def)
  show ?thesis
  proof (cases k)
    case KTick
    then show ?thesis using k assms(2) asleep_tick by simp
  next
    case KYield
    then have "sched_yield s = Inr s'" using k by simp
    then show ?thesis by (rule parked_yield) (use assms(2) in \<open>simp add: asleep_parked\<close>)
  next
    case (KBlock c)
    show ?thesis
      by (rule asleep_leave [OF k [unfolded KBlock kcall.simps sched_block_def] assms(2)]) (auto simp: upd_thread_Inr parked_def)
  next
    case (KSleep n)
    show ?thesis
      by (rule asleep_leave [OF k [unfolded KSleep kcall.simps nanosleep_def] assms(2)]) (auto simp: upd_thread_def get_thread_def parked_def split: option.splits)
  next
    case (KNotify cv' all)
    have "parked cv t s' \<and> CurrentThread s' = CurrentThread s"
    proof (rule parked_locked)
      show "locked_section (\<lambda>s. bindE (notify_from cv' all (BlockedThreads s) s) (\<lambda>(rest, s1). Inr (s1\<lparr>BlockedThreads := rest\<rparr>))) s = Inr s'"
        using k KNotify sched_midD(3) [OF mid] by (simp add: sched_notify_def)
    next
      fix s1 s2
      assume p: "parked cv t s1" "CurrentThread s1 = CurrentThread s" "bindE (notify_from cv' all (BlockedThreads s1) s1) (\<lambda>(rest, s1). Inr (s1\<lparr>BlockedThreads := rest\<rparr>)) = Inr s2"
      then obtain rest s3 where n: "notify_from cv' all (BlockedThreads s1) s1 = Inr (rest, s3)" "s2 = s3\<lparr>BlockedThreads := rest\<rparr>"
        by (cases "notify_from cv' all (BlockedThreads s1) s1") auto
      obtain th where th: "sc_threads s1 t = Some th" "th_state th = BlockedOnCondition" "th_blockedOn th = Some cv" using p(1) by (auto simp: parked_def)
      from notify_parked [OF n(1) th] assms(4) KNotify p(1,2) n(2) th show "parked cv t s2 \<and> CurrentThread s2 = CurrentThread s" by (auto simp: parked_def)
    qed (use assms(2) in \<open>simp add: asleep_parked\<close>)
    then show ?thesis using assms(2) by (simp add: asleep_parked)
  next
    case KExit
    show ?thesis
      by (rule asleep_leave [OF k [unfolded KExit kcall.simps sched_exit_def] assms(2)]) (auto simp: condemn_def upd_thread_def get_thread_def parked_def split: option.splits)
  next
    case KCrash
    show ?thesis
      by (rule asleep_leave [OF k [unfolded KCrash kcall.simps crashFromException_def] assms(2)]) (auto simp: condemn_def upd_thread_def get_thread_def parked_def split: option.splits)
  next
    case KDestroy
    show ?thesis
    proof (cases "DestructionQueue s")
      case Nil
      then show ?thesis using k KDestroy assms(2) by (simp add: destroy_next_def)
    next
      case (Cons x xs)
      have "x \<in> set (ThreadList s)" using sched_midD(11) [OF mid] Cons by simp
      from sched_mid_thread [OF mid disjI2 [OF this]] obtain tx where "sc_threads s x = Some tx" "thread_ok s x tx" by blast
      then have ne: "x \<noteq> t" using Cons assms(2) by (auto simp: asleep_def thread_ok_def)
      let ?f = "\<lambda>s. Inr (s\<lparr>DestructionQueue := tl (DestructionQueue s), ThreadList := removeAll x (ThreadList s)\<rparr>)"
      obtain s1 where s1: "locked_section ?f s = Inr s1" "s' = s1\<lparr>sc_threads := (sc_threads s1)(x := None)\<rparr>"
        using k unfolding KDestroy kcall.simps destroy_next_def Cons list.case by (cases "locked_section ?f s") (auto simp: get_thread_def split: option.splits)
      have "parked cv t s1 \<and> CurrentThread s1 = CurrentThread s"
        by (rule parked_locked [OF s1(1)]) (use assms(2) in \<open>auto simp: asleep_parked\<close>)
      moreover from this have "parked cv t s'" unfolding s1(2) by (intro parked_upd) (use ne in simp_all)
      moreover have "CurrentThread s' = CurrentThread s1" using s1(2) by simp
      ultimately show ?thesis using assms(2) by (simp add: asleep_parked)
    qed
  qed
qed

text \<open>The mutex is free, and a thread that wants it is asleep; nobody is left to wake it.\<close>

definition lost_wakeup :: "nat \<Rightarrow> tid \<Rightarrow> msys \<Rightarrow> bool" where
  "lost_wakeup cv t s \<longleftrightarrow> m_value s = 0 \<and> m_pc s t = MCas \<and> (\<forall>u\<in>set (ThreadList (m_sch s)) - {t}. m_pc s u = MOut) \<and> asleep cv t (m_sch s)"

fun leaves_mutex :: "nat \<Rightarrow> mact \<Rightarrow> bool" where
  "leaves_mutex cv (MSched (KNotify cv' all)) \<longleftrightarrow> cv' \<noteq> cv"
| "leaves_mutex cv a \<longleftrightarrow> a \<notin> {MCallLock, MCallTrylock}"

lemma lost_stays:
  assumes "lost_wakeup cv t s" "mutex_inv (tick_cost a + n) s" "leaves_mutex cv a"
  shows "\<exists>s'. mutex_event cv a s = Inr s' \<and> lost_wakeup cv t s' \<and> mutex_inv n s'"
proof -
  let ?c = "CurrentThread (m_sch s)"
  have mid: "sched_inv (m_sch s)" "sched_mid (m_sch s)" using assms(2) by (simp_all add: mutex_inv_def sched_inv_def sched_run_def)
  have c: "?c \<noteq> t" "?c = IdleThread (m_sch s) \<or> m_pc s ?c = MOut" using assms(1) sched_midD(7) [OF mid(2)] by (auto simp: lost_wakeup_def asleep_def)
  have pc: "mutex_event cv a s = Inr s" if "\<forall>k. a \<noteq> MSched k"
    using that c assms(3) by (cases a) (auto simp: mutex_event_def Let_def)
  show ?thesis
  proof (cases a)
    case (MSched k)
    have nn: "\<forall>all. k \<noteq> KNotify cv all" using assms(3) MSched by auto
    from on_sched_ok [of k n s] assms(2) MSched obtain s' where s': "on_sched k s = Inr s'" "mutex_inv n s'" by auto
    then obtain sch where sch: "kstep k (m_sch s) = Inr sch" "s' = s\<lparr>m_sch := sch\<rparr>" by (cases "kstep k (m_sch s)") (auto simp: on_sched_def)
    from kstep_ok [OF mid(1), of k] assms(2) MSched sch(1) have "set (ThreadList sch) \<subseteq> set (ThreadList (m_sch s))"
      by (auto simp: mutex_inv_def tick_cost_def dest: shape_list split: if_splits)
    moreover have "asleep cv t sch" by (rule asleep_kstep [OF sch(1) _ _ nn]) (use assms(1,2) in \<open>simp_all add: lost_wakeup_def mutex_inv_def\<close>)
    ultimately have "lost_wakeup cv t s'" using assms(1) sch(2) by (auto simp: lost_wakeup_def)
    then show ?thesis
      using s' c(2) MSched assms(1,2) by (cases "k \<noteq> KTick \<and> ?c = IdleThread (m_sch s)") (auto simp: mutex_event_def Let_def mutex_inv_def)
  qed (use pc assms(1,2) in \<open>auto simp: mutex_inv_def tick_cost_def\<close>)
qed

lemma lost_run:
  assumes "lost_wakeup cv t s" "mutex_inv (mutex_ticks es) s" "list_all (leaves_mutex cv) es"
  shows "\<exists>s'. foldE (mutex_event cv) es s = Inr s' \<and> lost_wakeup cv t s'"
  using assms
proof (induction es arbitrary: s)
  case (Cons a es)
  have "mutex_inv (tick_cost a + mutex_ticks es) s" using Cons.prems(2) by (simp add: mutex_ticks_def)
  from lost_stays [OF Cons.prems(1) this] Cons.prems(3) obtain s1 where
    s1: "mutex_event cv a s = Inr s1" "lost_wakeup cv t s1" "mutex_inv (mutex_ticks es) s1" by auto
  from Cons.IH [OF s1(2,3)] Cons.prems(3) s1(1) show ?case by simp
qed simp

text \<open>
  Thread 3 takes the mutex and sleeps. Thread 1 finds the mutex taken, and before it calls \<^verbatim>\<open>block\<close> a tick wakes
  thread 3, which unlocks, notifies and goes back to sleep. Then thread 1 blocks.
\<close>

definition lost_events :: "mact list" where
  "lost_events = [MSched KYield, MCallLock, MGo, MGo, MGo, MSched (KSleep 1000000), MCallLock, MGo, MGo, MSched KTick,
     MCallUnlock, MGo, MGo, MGo, MSched (KSleep 1000000), MGo]"

lemma lost_events_run:
  "\<exists>s. foldE (mutex_event 7) lost_events (mutex_init sched_demo) = Inr s \<and> m_value s = 0 \<and> map (m_pc s) [0, 1, 2, 3] = [MOut, MCas, MOut, MOut] \<and>
     CurrentThread (m_sch s) = 2 \<and> ThreadList (m_sch s) = [1, 2, 3] \<and> IdleThread (m_sch s) = 0 \<and> 1 \<in> set (BlockedThreads (m_sch s)) \<and> tickCounter (m_sch s) = 1 \<and>
     map_option (\<lambda>th. (th_state th, th_blockedOn th)) (sc_threads (m_sch s) 1) = Some (BlockedOnCondition, Some 7)"
proof -
  have "case foldE (mutex_event 7) lost_events (mutex_init sched_demo) of Inl _ \<Rightarrow> False | Inr s \<Rightarrow> m_value s = 0 \<and> map (m_pc s) [0, 1, 2, 3] = [MOut, MCas, MOut, MOut] \<and>
     CurrentThread (m_sch s) = 2 \<and> ThreadList (m_sch s) = [1, 2, 3] \<and> IdleThread (m_sch s) = 0 \<and> 1 \<in> set (BlockedThreads (m_sch s)) \<and> tickCounter (m_sch s) = 1 \<and>
     map_option (\<lambda>th. (th_state th, th_blockedOn th)) (sc_threads (m_sch s) 1) = Some (BlockedOnCondition, Some 7)" by code_simp
  then show ?thesis by (auto split: sum.splits)
qed

text \<open>
  C38: A wake-up can be lost. \<^verbatim>\<open>lock\<close> decides to block before it is among the blocked threads, and \<^verbatim>\<open>notifyOne\<close> in
  between finds nobody to wake: there is a run after which the mutex is free, the thread that waits for it is
  asleep, and it stays asleep, with the mutex free, whatever the other threads do and however many ticks go by,
  until some thread uses the mutex again.
\<close>

theorem mutex_lost_wakeup:
  "\<exists>s. foldE (mutex_event 7) lost_events (mutex_init sched_demo) = Inr s \<and>
     (\<forall>es. list_all (leaves_mutex 7) es \<and> mutex_ticks es < 2 ^ 39 \<longrightarrow>
        (\<exists>s'. foldE (mutex_event 7) es s = Inr s' \<and> \<not> mutex_held s' \<and> asleep 7 1 (m_sch s')))"
proof -
  from lost_events_run obtain s where s: "foldE (mutex_event 7) lost_events (mutex_init sched_demo) = Inr s" "m_value s = 0"
    "map (m_pc s) [0, 1, 2, 3] = [MOut, MCas, MOut, MOut]" "CurrentThread (m_sch s) = 2" "ThreadList (m_sch s) = [1, 2, 3]" "IdleThread (m_sch s) = 0"
    "1 \<in> set (BlockedThreads (m_sch s))" "tickCounter (m_sch s) = 1"
    "map_option (\<lambda>th. (th_state th, th_blockedOn th)) (sc_threads (m_sch s) 1) = Some (BlockedOnCondition, Some 7)" by (elim exE conjE) (rule that)
  have lost: "lost_wakeup 7 1 s" using s(2-9) by (auto simp: lost_wakeup_def asleep_def)
  have "mutex_inv (mutex_ticks lost_events + 0) (mutex_init sched_demo)" using sched_demo_inv
    by (auto simp: mutex_inv_def mutex_init_def mutex_ticks_def tick_cost_def lost_events_def sched_demo_def sched_start_def addThread_def sched_init_def)
  moreover have "exclusive (m_value (mutex_init sched_demo)) (mutex_holders (mutex_init sched_demo))" by (simp add: exclusive_def mutex_init_def mutex_holders_def holds_mutex_def)
  ultimately have "mutex_inv 0 s" using mtx.run_exclusive [of lost_events 0 "mutex_init sched_demo" 7, OF _ _ allowed_True] s(1) by (auto simp: mutex_ticks_def)
  then have inv: "mutex_inv (mutex_ticks es) s" if "mutex_ticks es < 2 ^ 39" for es using s(8) that by (simp add: mutex_inv_def)
  show ?thesis using s(1) lost_run [OF lost inv] by (fastforce simp: lost_wakeup_def mutex_held_def)
qed

theorem mutex_lost_wakeup_witness:
  "\<exists>s s'. foldE (mutex_event 7) lost_events (mutex_init sched_demo) = Inr s \<and> foldE (mutex_event 7) (replicate 1000 (MSched KTick)) s = Inr s' \<and>
     \<not> mutex_held s' \<and> asleep 7 1 (m_sch s')"
proof -
  have "list_all (leaves_mutex 7) (replicate 1000 (MSched KTick)) \<and> mutex_ticks (replicate 1000 (MSched KTick)) < 2 ^ 39"
    by (simp add: list_all_iff mutex_ticks_def tick_cost_def sum_list_replicate)
  with mutex_lost_wakeup show ?thesis by blast
qed

end
