(* ===== verification/Waitq.thy ===== *)
theory Waitq
  imports Mutex Klist
begin

text \<open>
  The semaphore and the wait queue of \<^verbatim>\<open>kernel/include/synchro.h\<close>, used by the threads of one processor under the
  scheduler of the theory \<open>Sched\<close>. The sections that hold the mutex of the semaphore or of the queue are single
  steps (the mutex excludes, see the theory \<open>Mutex\<close>); a tick may switch to another thread between any two steps.
\<close>

section \<open>Semaphore and wait queue\<close>

datatype wpc = WOut | SemWait | SemIncr | SemBlock | SemTake | PopFront | Append u64 | AppendQuiet u64 | IncrPending | IfWaiting u64
  | PostPending | PostAdd u64 | PostNotify u64

text \<open>The histories of the values appended and of the values returned are there for the specification only.\<close>

record wqsys =
  sem_value :: u64
  sem_waiters :: u64
  pending_notifies :: u64
  wq_queue :: "u64 klist"
  wq_appended :: "u64 list"
  wq_returned :: "u64 list"
  wq_pc :: "tid \<Rightarrow> wpc"
  wq_sch :: sched

definition w_goto :: "wpc \<Rightarrow> wqsys \<Rightarrow> wqsys" where
  "w_goto pc s = s\<lparr>wq_pc := (wq_pc s)(CurrentThread (wq_sch s) := pc)\<rparr>"

fun sem_wait :: "nat \<Rightarrow> wpc \<Rightarrow> wqsys \<Rightarrow> wqsys res" where
  "sem_wait cv SemWait s =
     Inr (if sem_value s > 0 then w_goto PopFront (s\<lparr>sem_value := sem_value s - 1\<rparr>) else w_goto SemIncr s)"
| "sem_wait cv SemIncr s = Inr (w_goto SemBlock (s\<lparr>sem_waiters := sem_waiters s + 1\<rparr>))"
| "sem_wait cv SemBlock s = bindE (sched_block cv (wq_sch s)) (\<lambda>sch. Inr ((w_goto SemTake s)\<lparr>wq_sch := sch\<rparr>))"
| "sem_wait cv SemTake s = Inr (w_goto PopFront (s\<lparr>sem_value := sem_value s - 1, sem_waiters := sem_waiters s - 1\<rparr>))"
| "sem_wait cv _ s = Inr s"

fun sem_post :: "nat \<Rightarrow> wpc \<Rightarrow> wqsys \<Rightarrow> wqsys res" where
  "sem_post cv (PostAdd num) s = Inr (w_goto (PostNotify num) (s\<lparr>sem_value := sem_value s + num\<rparr>))"
| "sem_post cv (PostNotify num) s =
     bindE (if num > 1 then notifyAll cv (wq_sch s) else notifyOne cv (wq_sch s)) (\<lambda>sch. Inr ((w_goto WOut s)\<lparr>wq_sch := sch\<rparr>))"
| "sem_post cv _ s = Inr s"

definition wq_append :: "u64 \<Rightarrow> wqsys \<Rightarrow> wqsys res" where
  "wq_append x s = bindE (list_append x (wq_queue s)) (\<lambda>q. Inr (s\<lparr>wq_queue := q, wq_appended := wq_appended s @ [x]\<rparr>))"

text \<open>\<^verbatim>\<open>push\<close>, \<^verbatim>\<open>push_if_waiting\<close>, \<^verbatim>\<open>push_quiet\<close>, \<^verbatim>\<open>notify_pending\<close> and \<^verbatim>\<open>pop\<close>, up to the calls of the semaphore.\<close>

definition wq_push :: "u64 \<Rightarrow> wqsys \<Rightarrow> wqsys res" where
  "wq_push x s = bindE (wq_append x s) (\<lambda>s1. Inr (w_goto (PostAdd 1) s1))"

definition wq_push_if_waiting :: "u64 \<Rightarrow> wqsys \<Rightarrow> wqsys res" where
  "wq_push_if_waiting x s = Inr (if sem_waiters s = 0 then w_goto WOut s else w_goto (Append x) s)"

fun wq_push_quiet :: "wpc \<Rightarrow> wqsys \<Rightarrow> wqsys res" where
  "wq_push_quiet (AppendQuiet x) s = bindE (wq_append x s) (\<lambda>s1. Inr (w_goto IncrPending s1))"
| "wq_push_quiet IncrPending s = Inr (w_goto WOut (s\<lparr>pending_notifies := pending_notifies s + 1\<rparr>))"
| "wq_push_quiet _ s = Inr s"

definition wq_notify_pending :: "wqsys \<Rightarrow> wqsys res" where
  "wq_notify_pending s =
     (case atomic_store (pending_notifies s) 0 of (tmp, p) \<Rightarrow> Inr (w_goto (PostAdd tmp) (s\<lparr>pending_notifies := p\<rparr>)))"

definition wq_pop :: "wqsys \<Rightarrow> wqsys res" where
  "wq_pop s =
     bindE (list_front (wq_queue s)) (\<lambda>ret.
     bindE (popFront (wq_queue s)) (\<lambda>(_, q).
     Inr (w_goto WOut (s\<lparr>wq_queue := q, wq_returned := wq_returned s @ [ret]\<rparr>))))"

datatype wact = WSched kop | WGo | WPush u64 | WPushIfWaiting u64 | WPushQuiet u64 | WNotifyPending | WPop

definition wq_call :: "wact \<Rightarrow> wpc" where
  "wq_call a = (case a of WPush x \<Rightarrow> Append x | WPushIfWaiting x \<Rightarrow> IfWaiting x | WPushQuiet x \<Rightarrow> AppendQuiet x
     | WNotifyPending \<Rightarrow> PostPending | WPop \<Rightarrow> SemWait | _ \<Rightarrow> WOut)"

definition wq_go :: "nat \<Rightarrow> wpc \<Rightarrow> wqsys \<Rightarrow> wqsys res" where
  "wq_go cv pc s =
     (case pc of WOut \<Rightarrow> Inr s | PopFront \<Rightarrow> wq_pop s | Append x \<Rightarrow> wq_push x s | IfWaiting x \<Rightarrow> wq_push_if_waiting x s
      | AppendQuiet x \<Rightarrow> wq_push_quiet pc s | IncrPending \<Rightarrow> wq_push_quiet pc s | PostPending \<Rightarrow> wq_notify_pending s
      | PostAdd n \<Rightarrow> sem_post cv pc s | PostNotify n \<Rightarrow> sem_post cv pc s | _ \<Rightarrow> sem_wait cv pc s)"

definition wq_on_sched :: "kop \<Rightarrow> wqsys \<Rightarrow> wqsys res" where
  "wq_on_sched k s = bindE (kstep k (wq_sch s)) (\<lambda>sch. Inr (s\<lparr>wq_sch := sch\<rparr>))"

text \<open>What happens next on the processor; only a thread that is in no call begins one.\<close>

definition wq_event :: "nat \<Rightarrow> wact \<Rightarrow> wqsys \<Rightarrow> wqsys res" where
  "wq_event cv a s =
     (let t = CurrentThread (wq_sch s); pc = wq_pc s t in
      if a = WSched KTick then wq_on_sched KTick s
      else if t = IdleThread (wq_sch s) then Inr s
      else case a of
        WSched k \<Rightarrow> if pc = WOut then wq_on_sched k s else Inr s
      | WGo \<Rightarrow> wq_go cv pc s
      | _ \<Rightarrow> Inr (if pc = WOut then w_goto (wq_call a) s else s))"

definition wq_init :: "sched \<Rightarrow> wqsys" where
  "wq_init sch = \<lparr>sem_value = 0, sem_waiters = 0, pending_notifies = 0, wq_queue = kl_new, wq_appended = [], wq_returned = [],
     wq_pc = (\<lambda>_. WOut), wq_sch = sch\<rparr>"

definition wq_ticks :: "wact list \<Rightarrow> nat" where
  "wq_ticks es = length (filter (\<lambda>a. a = WSched KTick) es)"

section \<open>First in, first out\<close>

lemma list_front_ok:
  assumes "kl_ok q"
  shows "kl_list q = [] \<Longrightarrow> list_front q = Inl (Abort ''front(): empty list'')" "kl_list q = x # xs \<Longrightarrow> list_front q = Inr x"
proof -
  from assms obtain ps ys where i: "kl_inv q ps ys" by (auto simp: kl_ok_def)
  note l = kl_list_inv [OF i] kl_inv_cnt [OF i]
  show "list_front q = Inl (Abort ''front(): empty list'')" if "kl_list q = []" using that l by (simp add: list_front_def)
  assume "kl_list q = x # xs"
  then have ys: "ys = x # xs" using l by simp
  then obtain p ps' where "ps = p # ps'" using i dll_length by (cases ps) (fastforce simp: kl_inv_def)+
  then show "list_front q = Inr x" using i l ys by (auto simp: list_front_def it_value_def kl_deref_def kl_inv_def)
qed

text \<open>\<open>m\<close> more values may be appended and \<open>n\<close> more ticks go by.\<close>

definition wq_inv :: "nat \<Rightarrow> nat \<Rightarrow> wqsys \<Rightarrow> bool" where
  "wq_inv m n s \<longleftrightarrow> sched_inv (wq_sch s) \<and> unat (tickCounter (wq_sch s)) + n < 2 ^ 40 \<and> kl_ok (wq_queue s) \<and>
     length (kl_list (wq_queue s)) + m < 2 ^ 64 \<and> wq_appended s = wq_returned s @ kl_list (wq_queue s)"

definition wq_safe :: "nat \<Rightarrow> nat \<Rightarrow> wqsys res \<Rightarrow> bool" where
  "wq_safe m n r \<longleftrightarrow> (case r of Inl e \<Rightarrow> e = Abort ''front(): empty list'' | Inr s \<Rightarrow> wq_inv m n s)"

lemma wq_safe_goto: "wq_inv m n s \<Longrightarrow> wq_safe m n (Inr (w_goto pc s))"
  by (simp add: wq_safe_def wq_inv_def w_goto_def)

lemma wq_inv_upd [simp]:
  "wq_inv m n (w_goto pc s) = wq_inv m n s" "wq_inv m n (s\<lparr>sem_value := v\<rparr>) = wq_inv m n s" "wq_inv m n (s\<lparr>sem_waiters := v\<rparr>) = wq_inv m n s"
  "wq_inv m n (s\<lparr>pending_notifies := v\<rparr>) = wq_inv m n s"
  by (simp_all add: wq_inv_def w_goto_def)

lemma wq_inv_sched: "\<lbrakk>wq_inv m (d + n) s; sched_inv sch; step_shape d (wq_sch s) sch\<rbrakk> \<Longrightarrow> wq_inv m n (s\<lparr>wq_sch := sch\<rparr>)"
  by (auto simp: wq_inv_def dest: shape_tick)

lemma wq_on_sched_ok:
  assumes "wq_inv m ((if k = KTick then 1 else 0) + n) s"
  shows "wq_safe m n (wq_on_sched k s)"
proof -
  have "k = KTick \<Longrightarrow> Suc (unat (tickCounter (wq_sch s))) < 2 ^ 40" using assms by (simp add: wq_inv_def)
  with kstep_ok [of "wq_sch s" k] assms obtain sch where
    "kstep k (wq_sch s) = Inr sch" "sched_inv sch" "step_shape (if k = KTick then 1 else 0) (wq_sch s) sch" by (auto simp: wq_inv_def)
  then show ?thesis using wq_inv_sched [OF assms] by (simp add: wq_on_sched_def wq_safe_def)
qed

lemma wq_append_ok:
  assumes "wq_inv (Suc m) n s"
  shows "\<exists>s'. wq_append x s = Inr s' \<and> wq_inv m n s'"
proof -
  have "kl_ok (wq_queue s)" "length (kl_list (wq_queue s)) < 2 ^ 64 - 1" using assms by (simp_all add: wq_inv_def)
  from klq.enq_law [OF this, of x] obtain q where "list_append x (wq_queue s) = Inr q" "kl_ok q" "kl_list q = kl_list (wq_queue s) @ [x]" by blast
  then show ?thesis using assms by (simp add: wq_append_def wq_inv_def)
qed

lemma wq_pop_ok:
  assumes "wq_inv m n s"
  shows "wq_safe m n (wq_pop s)"
proof (cases "kl_list (wq_queue s)")
  case Nil
  then show ?thesis using list_front_ok(1) [of "wq_queue s"] assms by (simp add: wq_pop_def wq_safe_def wq_inv_def)
next
  case (Cons x xs)
  have ok: "kl_ok (wq_queue s)" using assms by (simp add: wq_inv_def)
  from klq.deq_law [OF ok Cons] obtain q where "popFront (wq_queue s) = Inr (x, q)" "kl_ok q" "kl_list q = xs" by blast
  then show ?thesis using list_front_ok(2) [OF ok Cons] assms Cons by (simp add: wq_pop_def wq_safe_def wq_inv_def w_goto_def)
qed

lemma wq_inv_less: "wq_inv (Suc m) n s \<Longrightarrow> wq_inv m n s"
  by (simp add: wq_inv_def)

lemma wq_go_ok:
  assumes "wq_inv (Suc m) n s" "CurrentThread (wq_sch s) \<noteq> IdleThread (wq_sch s)"
  shows "wq_safe m n (wq_go cv pc s)"
proof -
  have inv: "wq_inv m n s" by (rule wq_inv_less [OF assms(1)])
  have sch: "sched_inv (wq_sch s)" using inv by (simp add: wq_inv_def)
  note quick = inv wq_safe_def wq_go_def
  show ?thesis
  proof (cases pc)
    case (Append x)
    then show ?thesis using wq_append_ok [OF assms(1), of x] by (auto simp: wq_go_def wq_push_def wq_safe_def)
  next
    case (AppendQuiet x)
    then show ?thesis using wq_append_ok [OF assms(1), of x] by (auto simp: wq_go_def wq_safe_def)
  next
    case SemBlock
    from block_shape [OF sch assms(2), of cv] obtain sch' where b: "sched_block cv (wq_sch s) = Inr sch'" "sched_inv sch'" "step_shape 0 (wq_sch s) sch'" by blast
    have "wq_inv m n (w_goto SemTake s\<lparr>wq_sch := sch'\<rparr>)"
      by (rule wq_inv_sched [where d = 0, OF _ b(2)]) (use inv b(3) in \<open>simp_all add: w_goto_def wq_inv_def\<close>)
    then show ?thesis using SemBlock b(1) by (simp add: wq_go_def wq_safe_def)
  next
    case (PostNotify num)
    obtain sch' where b: "(if num > 1 then notifyAll cv (wq_sch s) else notifyOne cv (wq_sch s)) = Inr sch'" "sched_inv sch'" "step_shape 0 (wq_sch s) sch'"
      using notify_shape [OF sch, of cv True] notify_shape [OF sch, of cv False] by (cases "num > 1") (auto simp: notifyAll_def notifyOne_def)
    have "wq_inv m n (w_goto WOut s\<lparr>wq_sch := sch'\<rparr>)"
      by (rule wq_inv_sched [where d = 0, OF _ b(2)]) (use inv b(3) in \<open>simp_all add: w_goto_def wq_inv_def\<close>)
    then show ?thesis using PostNotify b(1) by (simp add: wq_go_def wq_safe_def del: if_split)
  next
    case PopFront
    then show ?thesis using wq_pop_ok [OF inv] by (simp add: wq_go_def)
  qed (use inv in \<open>simp_all add: quick wq_push_if_waiting_def wq_notify_pending_def atomic_store_def\<close>)
qed

lemma wq_event_ok:
  assumes "wq_inv (Suc m) ((if a = WSched KTick then 1 else 0) + n) s"
  shows "wq_safe m n (wq_event cv a s)"
proof -
  have inv: "wq_inv m n s" "wq_inv (Suc m) n s" using assms by (auto simp: wq_inv_def)
  have k: "wq_safe m n (wq_on_sched k s)" if "a = WSched k" for k by (rule wq_on_sched_ok) (use assms that in \<open>auto simp: wq_inv_def\<close>)
  consider "a = WSched KTick" | "a \<noteq> WSched KTick" "CurrentThread (wq_sch s) = IdleThread (wq_sch s)" | "a \<noteq> WSched KTick" "CurrentThread (wq_sch s) \<noteq> IdleThread (wq_sch s)" by blast
  then show ?thesis
  proof cases
    case 1
    then show ?thesis using k [OF 1] by (simp add: wq_event_def Let_def)
  next
    case 2
    then show ?thesis using inv by (simp add: wq_event_def Let_def wq_safe_def)
  next
    case 3
    then show ?thesis using inv k wq_go_ok [OF inv(2) 3(2), of cv] by (cases a) (auto simp: wq_event_def Let_def wq_safe_def)
  qed
qed

lemma wq_run_ok:
  assumes "wq_inv (length es) (wq_ticks es) s"
  shows "wq_safe 0 0 (foldE (wq_event cv) es s)"
  using assms
proof (induction es arbitrary: s)
  case Nil
  then show ?case by (simp add: wq_safe_def wq_ticks_def)
next
  case (Cons a es)
  have "wq_inv (Suc (length es)) ((if a = WSched KTick then 1 else 0) + wq_ticks es) s" using Cons.prems by (simp add: wq_ticks_def split: if_splits)
  from wq_event_ok [OF this, of cv] show ?case
    using Cons.IH by (cases "wq_event cv a s") (auto simp: wq_safe_def split: sum.splits)
qed

text \<open>
  C39: The wait queue is first in, first out: whatever threads push, push quietly, notify and pop, and wherever ticks
  switch between them, the values returned so far followed by those still queued are the values appended, in order.
  Nothing aborts or fails an assertion, except that \<^verbatim>\<open>pop\<close> may find the queue empty.
\<close>

theorem wait_queue_fifo:
  assumes "sched_inv sch" and "unat (tickCounter sch) + wq_ticks es < 2 ^ 40" and "length es < 2 ^ 64"
  shows "case foldE (wq_event cv) es (wq_init sch) of Inl e \<Rightarrow> e = Abort ''front(): empty list''
     | Inr s \<Rightarrow> wq_appended s = wq_returned s @ kl_list (wq_queue s) \<and> sched_inv (wq_sch s)"
proof -
  have q: "kl_inv (kl_new :: u64 klist) [] []" by (simp add: kl_inv_def kl_new_def)
  have "wq_inv (length es) (wq_ticks es) (wq_init sch)"
    using assms kl_list_inv [OF q] q by (auto simp: wq_inv_def wq_init_def kl_ok_def)
  from wq_run_ok [OF this, of cv] show ?thesis by (auto simp: wq_safe_def wq_inv_def split: sum.splits)
qed

theorem wait_queue_fifo_witness:
  "case foldE (wq_event 9) [WPush 42, WGo, WGo, WSched KTick, WGo, WPop, WGo, WGo] (wq_init sched_demo) of Inl e \<Rightarrow> e = Abort ''front(): empty list''
     | Inr s \<Rightarrow> wq_appended s = wq_returned s @ kl_list (wq_queue s) \<and> sched_inv (wq_sch s)"
  using wait_queue_fifo [OF sched_demo_inv, of "[WPush 42, WGo, WGo, WSched KTick, WGo, WPop, WGo, WGo]" 9]
  by (simp add: wq_ticks_def sched_demo_def sched_start_def addThread_def sched_init_def)

section \<open>A wake-up that is taken for a post\<close>

text \<open>
  Thread 1 pushes a value and is switched away from between raising the count and notifying. Thread 3 pops the
  value and blocks in a second \<^verbatim>\<open>pop\<close>; the notification of the first push wakes it.
\<close>

definition spurious_events :: "wact list" where
  "spurious_events = [WSched KYield, WSched (KSleep 1000000), WPush 42, WGo, WGo, WSched KTick, WPop, WGo, WGo, WPop, WGo, WGo, WGo, WGo, WSched KYield, WGo]"


end
