(* ===== verification/Spec2Isabelle.thy ===== *)
theory Spec2Isabelle
  imports Extmm PageTable Hashmap Pmm VMRegion Virtmap Vmm PageFault Treemap Circbuf Karray Klist Waitq
begin

text \<open>
  A verification development for the nx kernel.
\<close>

end
